(* ===== verification/Prelude.thy ===== *)
theory Prelude
  imports Main "HOL-Library.Word"
begin

text \<open>
  What every component shares: the machine types of the C code, the scans over
  fixed-size tables, the copies into byte buffers, the little-endian byte order
  of the packets, and the generic lemmas on them.
\<close>

unbundle bit_operations_syntax

named_theorems bytes_simps \<open>layout of byte buffers: lengths and reads after writes\<close>
named_theorems table_simps \<open>scans and updates of fixed-size tables\<close>

section \<open>Machine types\<close>

text \<open>
  The C code keeps every integer at a fixed width. Signed and unsigned types of one
  width are the same word: an \<open>int8_t\<close> is read with \<^const>\<open>sint\<close>, an
  \<open>uint8_t\<close> with \<^const>\<open>unat\<close>. A \<open>size_t\<close> that only counts
  bytes of a buffer is a \<^typ>\<open>nat\<close>.
\<close>

type_synonym u8 = "8 word"
type_synonym u16 = "16 word"
type_synonym u32 = "32 word"
type_synonym u64 = "64 word"
type_synonym i8 = "8 word"
type_synonym i16 = "16 word"
type_synonym i32 = "32 word"
type_synonym i64 = "64 word"
type_synonym bytes = "u8 list"

text \<open>The negated \<open>errno\<close> values the code returns. \<open>Driver_error\<close> is a nonzero
  result of code outside the repository, passed on unchanged.\<close>

datatype errno = ENOMEM | EINVAL | EMSGSIZE | ENOBUFS | ENOTSUP | ENODEV | EBUSY | ENOENT | EIO
  | ENOSYS | Driver_error nat

text \<open>A C \<open>int\<close> result that is 0 on success.\<close>

type_synonym status = "errno option"

abbreviation (input) Ok :: status where
  "Ok \<equiv> None"

abbreviation (input) Err :: "errno \<Rightarrow> status" where
  "Err \<equiv> Some"

section \<open>Scans over a table\<close>

text \<open>The loop \<open>for (index = 0; index < ARRAY_SIZE(table); index++) if (p(table[index])) return index\<close>.\<close>

fun first_index :: "('a \<Rightarrow> bool) \<Rightarrow> 'a list \<Rightarrow> nat option" where
  "first_index p [] = None"
| "first_index p (x # xs) = (if p x then Some 0 else map_option Suc (first_index p xs))"

lemma first_index_None [table_simps]: "first_index p xs = None \<longleftrightarrow> (\<forall>x \<in> set xs. \<not> p x)"
  by (induction xs) auto

lemma first_index_SomeD:
  "first_index p xs = Some i \<Longrightarrow> i < length xs \<and> p (xs ! i) \<and> (\<forall>j < i. \<not> p (xs ! j))"
proof (induction xs arbitrary: i)
  case Nil
  then show ?case by simp
next
  case (Cons x xs)
  then show ?case
    by (cases i) (auto simp: nth_Cons split: if_splits nat.splits)
qed

lemma first_index_less: "first_index p xs = Some i \<Longrightarrow> i < length xs"
  and first_index_sat: "first_index p xs = Some i \<Longrightarrow> p (xs ! i)"
  by (auto dest: first_index_SomeD)

lemma first_index_in_set: "first_index p xs = Some i \<Longrightarrow> xs ! i \<in> set xs"
  by (simp add: first_index_less)

text \<open>The same loop started at \<open>a\<close>.\<close>

lemma first_index_upt:
  assumes "first_index p [a..<b] = Some k"
  shows "a + k < b \<and> p (a + k) \<and> (\<forall>j. a \<le> j \<longrightarrow> j < a + k \<longrightarrow> \<not> p j)"
proof -
  have k: "a + k < b" "p (a + k)" and before: "\<forall>j < k. \<not> p ([a..<b] ! j)"
    using first_index_SomeD [OF assms] by auto
  have "\<not> p j" if "a \<le> j" "j < a + k" for j
    using before [rule_format, of "j - a"] that k(1) by simp
  then show ?thesis using k by blast
qed

section \<open>Byte buffers\<close>

text \<open>\<open>memcpy(&dst[offset], src, length)\<close> into a buffer that has room for it.\<close>

definition overwrite :: "'a list \<Rightarrow> nat \<Rightarrow> 'a list \<Rightarrow> 'a list" where
  "overwrite dst offset src = take offset dst @ src @ drop (offset + length src) dst"

lemma length_overwrite [simp, bytes_simps]:
  "offset + length src \<le> length dst \<Longrightarrow> length (overwrite dst offset src) = length dst"
  by (simp add: overwrite_def)

lemma nth_overwrite [bytes_simps]:
  assumes "offset + length src \<le> length dst" and "i < length dst"
  shows "overwrite dst offset src ! i =
    (if offset \<le> i \<and> i < offset + length src then src ! (i - offset) else dst ! i)"
  using assms by (auto simp: overwrite_def nth_append min_def)

lemma take_overwrite_before [bytes_simps]:
  "n \<le> offset \<Longrightarrow> offset \<le> length dst \<Longrightarrow> take n (overwrite dst offset src) = take n dst"
  by (simp add: overwrite_def)

lemma slice_overwrite [bytes_simps]:
  "offset + length src \<le> length dst \<Longrightarrow> n = length src \<Longrightarrow>
   take n (drop offset (overwrite dst offset src)) = src"
  by (simp add: overwrite_def)

section \<open>Little-endian words\<close>

text \<open>The packets carry every multi-byte field low byte first.\<close>

definition put_le16 :: "u16 \<Rightarrow> bytes" where
  "put_le16 w = [ucast w, ucast (drop_bit 8 w)]"

definition get_le16 :: "bytes \<Rightarrow> u16" where
  "get_le16 bs = ucast (bs ! 0) OR push_bit 8 (ucast (bs ! 1))"

definition put_le32 :: "u32 \<Rightarrow> bytes" where
  "put_le32 w = [ucast w, ucast (drop_bit 8 w), ucast (drop_bit 16 w), ucast (drop_bit 24 w)]"

definition get_le32 :: "bytes \<Rightarrow> u32" where
  "get_le32 bs = ucast (bs ! 0) OR push_bit 8 (ucast (bs ! 1)) OR push_bit 16 (ucast (bs ! 2))
     OR push_bit 24 (ucast (bs ! 3))"

definition put_le64 :: "u64 \<Rightarrow> bytes" where
  "put_le64 w = put_le32 (ucast w) @ put_le32 (ucast (drop_bit 32 w))"

definition get_le64 :: "bytes \<Rightarrow> u64" where
  "get_le64 bs = ucast (get_le32 bs) OR push_bit 32 (ucast (get_le32 (drop 4 bs)))"

lemma length_put_le [simp, bytes_simps]:
  "length (put_le16 w) = 2" "length (put_le32 v) = 4" "length (put_le64 x) = 8"
  by (simp_all add: put_le16_def put_le32_def put_le64_def)

lemma get_put_le16 [simp]: "get_le16 (put_le16 w @ rest) = w"
  by (rule bit_word_eqI)
     (auto simp: get_le16_def put_le16_def bit_simps nth_append)

lemma get_put_le32 [simp]: "get_le32 (put_le32 w @ rest) = w"
proof (rule bit_word_eqI)
  fix n
  assume "n < LENGTH(32)"
  then have "n < 8 \<or> (8 \<le> n \<and> n < 16) \<or> (16 \<le> n \<and> n < 24) \<or> (24 \<le> n \<and> n < 32)"
    by auto
  then show "bit (get_le32 (put_le32 w @ rest)) n = bit w n"
    by (elim disjE) (auto simp: get_le32_def put_le32_def bit_simps nth_append)
qed

lemma ucast_halves: "(ucast (ucast w :: u32) :: u64) OR push_bit 32 (ucast (ucast (drop_bit 32 w) :: u32)) = w"
proof (rule bit_word_eqI)
  fix n
  assume "n < LENGTH(64)"
  then have "n < 32 \<or> (32 \<le> n \<and> n < 64)"
    by auto
  then show "bit ((ucast (ucast w :: u32) :: u64) OR push_bit 32 (ucast (ucast (drop_bit 32 w) :: u32))) n
      = bit w n"
    by (elim disjE) (auto simp: bit_simps)
qed

lemma get_put_le64 [simp]: "get_le64 (put_le64 w @ rest) = w"
proof -
  have "drop 4 (put_le64 w @ rest) = put_le32 (ucast (drop_bit 32 w)) @ rest"
    by (simp add: put_le64_def)
  moreover have "put_le64 w @ rest = put_le32 (ucast w) @ put_le32 (ucast (drop_bit 32 w)) @ rest"
    by (simp add: put_le64_def)
  ultimately show ?thesis
    by (simp add: get_le64_def ucast_halves)
qed

lemma get_put_le_exact [simp]:
  "get_le16 (put_le16 w) = w" "get_le32 (put_le32 v) = v" "get_le64 (put_le64 x) = x"
  using get_put_le16 [of w "[]"] get_put_le32 [of v "[]"] get_put_le64 [of x "[]"] by simp_all

text \<open>A read looks only at the field's own bytes.\<close>

lemma get_le16_take: "get_le16 (take 2 bs @ rest) = get_le16 bs" if "2 \<le> length bs"
  using that by (auto simp: get_le16_def nth_append)

lemma get_le32_append: "get_le32 (bs @ rest) = get_le32 bs" if "4 \<le> length bs"
  using that by (auto simp: get_le32_def nth_append)

lemma get_le64_append: "get_le64 (bs @ rest) = get_le64 bs" if "8 \<le> length bs"
  using that by (simp add: get_le64_def get_le32_append)

section \<open>Bounds of small words\<close>

lemma u8_lt [simp]: "unat (x :: u8) < 256"
proof -
  have "unat x < 2 ^ LENGTH(8)" by (rule unsigned_less)
  then show ?thesis by simp
qed

lemma u8_le [simp]: "unat (x :: u8) \<le> 255"
  using u8_lt [of x] by linarith

lemma u16_lt: "unat (x :: u16) < 65536"
proof -
  have "unat x < 2 ^ LENGTH(16)" by (rule unsigned_less)
  then show ?thesis by simp
qed

lemma unat_of_nat_u8: "n < 256 \<Longrightarrow> unat (of_nat n :: u8) = n"
  by (simp add: unat_of_nat take_bit_nat_eq_self)

lemma bit_out_u8 [simp]: "8 \<le> n \<Longrightarrow> \<not> bit (x :: u8) n"
  and bit_out_u16 [simp]: "16 \<le> n \<Longrightarrow> \<not> bit (y :: u16) n"
  and bit_out_u32 [simp]: "32 \<le> n \<Longrightarrow> \<not> bit (z :: u32) n"
  by (auto dest!: bit_imp_le_length)

lemma uint_u8_less: "uint (x :: u8) < 256"
proof -
  have "uint x < 2 ^ LENGTH(8)" by (rule unsigned_less)
  then show ?thesis by simp
qed

lemma uint_u16_less: "uint (x :: u16) < 65536"
proof -
  have "uint x < 2 ^ LENGTH(16)" by (rule unsigned_less)
  then show ?thesis by simp
qed

lemma uint_u32_less: "uint (x :: u32) < 4294967296"
proof -
  have "uint x < 2 ^ LENGTH(32)" by (rule unsigned_less)
  then show ?thesis by simp
qed

lemma uint_of_int_u8: "0 \<le> i \<Longrightarrow> i < 256 \<Longrightarrow> uint (of_int i :: u8) = i"
  and uint_of_int_u16: "0 \<le> i \<Longrightarrow> i < 65536 \<Longrightarrow> uint (of_int i :: u16) = i"
  and uint_of_int_u32: "0 \<le> i \<Longrightarrow> i < 4294967296 \<Longrightarrow> uint (of_int i :: u32) = i"
  by (simp_all add: uint_word_of_int)

lemma uint_plus_u8: "uint x + uint y < 256 \<Longrightarrow> uint (x + y :: u8) = uint x + uint y"
  by (simp add: uint_word_ariths)

lemma uint_plus_u32: "uint x + uint y < 4294967296 \<Longrightarrow> uint (x + y :: u32) = uint x + uint y"
  by (simp add: uint_word_ariths)

lemma uint_times_u32: "uint x * uint y < 4294967296 \<Longrightarrow> uint (x * y :: u32) = uint x * uint y"
  by (simp add: uint_word_ariths)

text \<open>Widening keeps the value.\<close>

lemma uint_ucast_up [simp]:
  "uint (ucast (x :: u8) :: u32) = uint x" "uint (ucast (y :: u16) :: u32) = uint y"
  "uint (ucast (x :: u8) :: u16) = uint x"
  by (simp_all add: unsigned_ucast_eq take_bit_int_eq_self_iff order_less_trans [OF uint_u8_less]
      order_less_trans [OF uint_u16_less])

end
