(* ===== verification/Cobs.thy ===== *)
theory Cobs
  imports Prelude
begin

text \<open>
  COBS byte stuffing (\<open>src/cobs.c\<close>, \<open>src/cobs.h\<close>): the encoder that
  removes every zero byte from a frame, and the decoder that undoes it in the buffer it
  reads from. The decoder's aliasing of input and output is kept: one buffer, two indices.
\<close>

section \<open>Encoder\<close>

definition COBS_MAX_ENCODED :: "nat \<Rightarrow> nat" where
  "COBS_MAX_ENCODED input_length = input_length + input_length div 254 + 2"

text \<open>
  \<open>out\<close> holds the bytes below \<open>output_index\<close>. The byte at
  \<open>code_position\<close> is reserved by \<open>output_index++\<close> and written when its
  block closes: until then the model shows 0 there.
\<close>

record cobs_encoder =
  out :: bytes
  code_position :: nat
  code :: u8

definition cobs_start :: cobs_encoder where
  "cobs_start = \<lparr>out = [0], code_position = 0, code = 1\<rparr>"

definition close_block :: "cobs_encoder \<Rightarrow> cobs_encoder" where
  "close_block e =
     \<lparr>out = (out e)[code_position e := code e] @ [0],
      code_position = length (out e), code = 1\<rparr>"

definition cobs_encode_byte :: "u8 \<Rightarrow> cobs_encoder \<Rightarrow> cobs_encoder" where
  "cobs_encode_byte b e =
     (if b = 0 then close_block e
      else
        let e' = e\<lparr>out := out e @ [b], code := code e + 1\<rparr>
        in if code e' = 0xFF then close_block e' else e')"

definition cobs_encode :: "bytes \<Rightarrow> nat \<Rightarrow> errno + bytes" where
  "cobs_encode input output_capacity =
     (if output_capacity < COBS_MAX_ENCODED (length input) then Inl ENOMEM
      else
        let e = fold cobs_encode_byte input cobs_start
        in Inr ((out e)[code_position e := code e] @ [0x00]))"

section \<open>Decoder\<close>

text \<open>The inner loop of a block: \<open>n\<close> bytes move down inside the one buffer.\<close>

fun cobs_copy :: "bytes \<Rightarrow> nat \<Rightarrow> nat \<Rightarrow> nat \<Rightarrow> bytes \<times> nat \<times> nat" where
  "cobs_copy buffer input_index output_index 0 = (buffer, input_index, output_index)"
| "cobs_copy buffer input_index output_index (Suc n) =
     cobs_copy (buffer[output_index := buffer ! input_index])
       (input_index + 1) (output_index + 1) n"

lemma cobs_copy_indices:
  "snd (cobs_copy buffer i j n) = (i + n, j + n)"
  by (induction buffer i j n rule: cobs_copy.induct) auto

lemma cobs_copy_indicesD:
  "(buffer', i', j') = cobs_copy buffer i j n \<Longrightarrow> i' = i + n \<and> j' = j + n"
  using cobs_copy_indices [of buffer i j n] by (metis prod.inject snd_conv)

text \<open>The buffer comes back whether or not the frame decodes: an error leaves the
  blocks before it already moved.\<close>

function cobs_decode_loop ::
  "bytes \<Rightarrow> nat \<Rightarrow> nat \<Rightarrow> nat \<Rightarrow> bytes \<times> (errno + nat)" where
  "cobs_decode_loop buffer buffer_length input_index output_index =
     (if input_index < buffer_length then
        let code = buffer ! input_index;
            input_index = input_index + 1
        in
          if code = 0 \<or> unat code - 1 > buffer_length - input_index then (buffer, Inl EINVAL)
          else
            let (buffer, input_index, output_index) =
                  cobs_copy buffer input_index output_index (unat code - 1)
            in
              if code < 0xFF \<and> input_index < buffer_length then
                cobs_decode_loop (buffer[output_index := 0x00]) buffer_length
                  input_index (output_index + 1)
              else cobs_decode_loop buffer buffer_length input_index output_index
      else (buffer, Inr output_index))"
  by pat_completeness auto
termination
  by (relation "measure (\<lambda>(_, n, i, _). n - i)")
     (auto dest!: cobs_copy_indicesD)

declare cobs_decode_loop.simps [simp del]

definition cobs_decode_in_place :: "bytes \<Rightarrow> nat \<Rightarrow> bytes \<times> (errno + nat)" where
  "cobs_decode_in_place buffer buffer_length =
     (if buffer_length < 1 then (buffer, Inl EINVAL)
      else cobs_decode_loop buffer buffer_length 0 0)"

section \<open>What a stuffed frame means\<close>

text \<open>
  The reference decoder: it reads a frame block by block and builds a fresh list.
\<close>

function cobs_unstuff :: "bytes \<Rightarrow> bytes option" where
  "cobs_unstuff [] = Some []"
| "cobs_unstuff (c # rest) =
     (if c = 0 \<or> unat c - 1 > length rest then None
      else
        let block = take (unat c - 1) rest; rest' = drop (unat c - 1) rest
        in map_option (\<lambda>d. block @ (if c < 0xFF \<and> rest' \<noteq> [] then [0] else []) @ d)
             (cobs_unstuff rest'))"
  by pat_completeness auto
termination
  by (relation "measure length") auto

declare cobs_unstuff.simps(2) [simp del]

lemma block_code:
  assumes "n < 255"
  shows "unat (of_nat (Suc n) :: u8) = Suc n" and "(of_nat (Suc n) :: u8) \<noteq> 0"
    and "((of_nat (Suc n) :: u8) < 0xFF) = (n < 254)" and "((of_nat (Suc n) :: u8) = 0xFF) = (n = 254)"
proof -
  show u: "unat (of_nat (Suc n) :: u8) = Suc n"
    using assms by (intro unat_of_nat_u8) simp
  then show "(of_nat (Suc n) :: u8) \<noteq> 0"
    by (metis Zero_not_Suc unsigned_0)
  show "((of_nat (Suc n) :: u8) < 0xFF) = (n < 254)"
    unfolding word_less_nat_alt u by simp
  have "((of_nat (Suc n) :: u8) = 0xFF) = (unat (of_nat (Suc n) :: u8) = unat (0xFF :: u8))"
    by (simp only: word_unat_eq_iff)
  then show "((of_nat (Suc n) :: u8) = 0xFF) = (n = 254)"
    unfolding u by simp
qed

lemma cobs_unstuff_block:
  assumes "length block < 255"
  shows "cobs_unstuff (of_nat (Suc (length block)) # block @ tail) =
    map_option (\<lambda>d. block @ (if length block < 254 \<and> tail \<noteq> [] then [0] else []) @ d)
      (cobs_unstuff tail)"
  unfolding cobs_unstuff.simps(2) Let_def
  using block_code [OF assms] by simp

section \<open>The encoder writes a stuffed frame\<close>

text \<open>
  The encoder's loop invariant: the closed blocks decode to the part of the input they
  stand for whatever follows them, the open block holds the bytes since, and no stuffed
  byte is zero but the reserved one.
\<close>

definition stuffed_prefix :: "bytes \<Rightarrow> bytes \<Rightarrow> bool" where
  "stuffed_prefix closed input \<longleftrightarrow>
     0 \<notin> set closed \<and> length closed \<le> length input + length input div 254 \<and>
     (\<forall>tail. tail \<noteq> [] \<longrightarrow>
        cobs_unstuff (closed @ tail) = map_option ((@) input) (cobs_unstuff tail))"

definition encoder_inv :: "bytes \<Rightarrow> bytes \<Rightarrow> bytes \<Rightarrow> cobs_encoder \<Rightarrow> bool" where
  "encoder_inv closed input block e \<longleftrightarrow>
     out e = closed @ 0 # block \<and> code_position e = length closed \<and>
     code e = of_nat (Suc (length block)) \<and> length block < 254 \<and> 0 \<notin> set block \<and>
     stuffed_prefix closed input"

lemma encoder_inv_start: "encoder_inv [] [] [] cobs_start"
  by (simp add: encoder_inv_def stuffed_prefix_def cobs_start_def append_Nil [abs_def] option.map_ident)

lemma stuffed_prefix_close:
  assumes "stuffed_prefix closed input" and "length block < 255" and "0 \<notin> set block"
    and "separator = (if length block < 254 then [0] else [])"
  shows "stuffed_prefix (closed @ of_nat (Suc (length block)) # block)
    (input @ block @ separator)"
proof -
  note nz = block_code(2) [OF assms(2)]
  have len: "length closed + Suc (length block)
      \<le> length (input @ block @ separator) + length (input @ block @ separator) div 254"
    using assms(1,2,4) by (auto simp: stuffed_prefix_def intro: order_trans)
  have "cobs_unstuff ((closed @ of_nat (Suc (length block)) # block) @ tail) =
      map_option ((@) (input @ block @ separator)) (cobs_unstuff tail)"
    if "tail \<noteq> []" for tail
  proof -
    have "cobs_unstuff (closed @ (of_nat (Suc (length block)) # block @ tail)) =
        map_option ((@) input) (cobs_unstuff (of_nat (Suc (length block)) # block @ tail))"
      using assms(1) by (simp add: stuffed_prefix_def)
    also have "cobs_unstuff (of_nat (Suc (length block)) # block @ tail) =
        map_option ((@) (block @ separator)) (cobs_unstuff tail)"
      unfolding cobs_unstuff_block [OF assms(2)] using that assms(4)
      by (cases "cobs_unstuff tail") simp_all
    finally show ?thesis by (cases "cobs_unstuff tail") simp_all
  qed
  then show ?thesis
    using assms(1,3) nz len by (auto simp: stuffed_prefix_def)
qed

lemma close_block_inv:
  assumes "out e = closed @ 0 # block" and "code_position e = length closed"
    and "code e = of_nat (Suc (length block))" and "length block < 255" and "0 \<notin> set block"
    and "stuffed_prefix closed input"
    and "separator = (if length block < 254 then [0] else [])"
  shows "encoder_inv (closed @ of_nat (Suc (length block)) # block)
    (input @ block @ separator) [] (close_block e)"
  using assms stuffed_prefix_close [of closed input block separator]
  by (simp add: encoder_inv_def close_block_def)

lemma cobs_encode_byte_inv:
  assumes "encoder_inv closed input block e"
  shows "\<exists>closed' input' block'. encoder_inv closed' input' block' (cobs_encode_byte b e) \<and>
    input' @ block' = input @ block @ [b]"
proof -
  from assms have inv: "out e = closed @ 0 # block" "code_position e = length closed"
    "code e = of_nat (Suc (length block))" "length block < 254" "0 \<notin> set block"
    "stuffed_prefix closed input"
    by (simp_all add: encoder_inv_def)
  show ?thesis
  proof (cases "b = 0")
    case True
    then have "encoder_inv (closed @ of_nat (Suc (length block)) # block)
        (input @ block @ [0]) [] (cobs_encode_byte b e)"
      using close_block_inv [OF inv(1-3) _ inv(5,6), of "[0]"] inv(4)
      by (simp add: cobs_encode_byte_def)
    then show ?thesis using True by (metis append_Nil2)
  next
    case False
    define e' where "e' = e\<lparr>out := out e @ [b], code := code e + 1\<rparr>"
    have e': "out e' = closed @ 0 # (block @ [b])" "code_position e' = length closed"
      "code e' = of_nat (Suc (length (block @ [b])))" "0 \<notin> set (block @ [b])"
      using inv False by (simp_all add: e'_def)
    have full: "(code e' = 0xFF) = (length (block @ [b]) = 254)"
      unfolding e'(3) using inv(4) by (intro block_code(4)) simp
    show ?thesis
    proof (cases "length (block @ [b]) = 254")
      case True
      then have "encoder_inv (closed @ of_nat (Suc (length (block @ [b]))) # (block @ [b]))
          (input @ (block @ [b]) @ []) [] (cobs_encode_byte b e)"
        using close_block_inv [OF e'(1-3) _ e'(4) inv(6), of "[]"] False full e'_def
        by (simp add: cobs_encode_byte_def)
      then show ?thesis by fastforce
    next
      case n254: False
      then have "encoder_inv closed input (block @ [b]) (cobs_encode_byte b e)"
        using e' inv False full e'_def
        by (simp add: encoder_inv_def cobs_encode_byte_def)
      then show ?thesis by fastforce
    qed
  qed
qed

lemma cobs_encode_fold_inv:
  assumes "encoder_inv closed input block e"
  shows "\<exists>closed' input' block'. encoder_inv closed' input' block' (fold cobs_encode_byte bs e) \<and>
    input' @ block' = input @ block @ bs"
  using assms
proof (induction bs arbitrary: closed input block e)
  case Nil
  then show ?case by auto
next
  case (Cons b bs)
  from cobs_encode_byte_inv [OF Cons.prems] obtain c i k where
    "encoder_inv c i k (cobs_encode_byte b e)" and eq: "i @ k = input @ block @ [b]"
    by blast
  from Cons.IH [OF this(1)] obtain c' i' k' where
    "encoder_inv c' i' k' (fold cobs_encode_byte bs (cobs_encode_byte b e))"
    and "i' @ k' = i @ k @ bs" by blast
  moreover have "i @ k @ bs = input @ block @ b # bs"
    using eq by (metis append.assoc append_Cons append_Nil)
  ultimately show ?case by auto
qed

text \<open>What the encoder returns: a frame without zeros, closed by the delimiter, that
  fits its bound and stands for the input.\<close>

lemma cobs_encode_frame:
  assumes "cobs_encode input output_capacity = Inr framed"
  shows "\<exists>stuffed. framed = stuffed @ [0] \<and> 0 \<notin> set stuffed \<and> stuffed \<noteq> [] \<and>
    cobs_unstuff stuffed = Some input \<and> length framed \<le> COBS_MAX_ENCODED (length input)"
proof -
  from cobs_encode_fold_inv [OF encoder_inv_start, of input] obtain closed pre block where
    inv: "encoder_inv closed pre block (fold cobs_encode_byte input cobs_start)"
    and eq: "input = pre @ block" by auto
  define stuffed where "stuffed = closed @ of_nat (Suc (length block)) # block"
  have framed: "framed = stuffed @ [0]"
    using assms inv by (simp add: cobs_encode_def encoder_inv_def stuffed_def Let_def split: if_splits)
  from inv have inv': "length block < 254" "0 \<notin> set block" "stuffed_prefix closed pre"
    by (simp_all add: encoder_inv_def)
  have nz: "(of_nat (Suc (length block)) :: u8) \<noteq> 0"
    using inv'(1) by (intro block_code(2)) simp
  have "cobs_unstuff stuffed = map_option ((@) pre) (cobs_unstuff (of_nat (Suc (length block)) # block))"
    using inv'(3) by (simp add: stuffed_prefix_def stuffed_def)
  also have "\<dots> = Some input"
    using cobs_unstuff_block [of block "[]"] inv'(1) eq by simp
  finally have "cobs_unstuff stuffed = Some input" .
  moreover have "length framed \<le> COBS_MAX_ENCODED (length input)"
  proof -
    have "length pre div 254 \<le> length input div 254" using eq by (simp add: div_le_mono)
    then show ?thesis
      using inv'(3) eq by (auto simp: framed stuffed_def stuffed_prefix_def COBS_MAX_ENCODED_def)
  qed
  ultimately show ?thesis
    using framed nz inv' by (auto simp: stuffed_def stuffed_prefix_def)
qed

section \<open>The in-place decoder refines the reference decoder\<close>

text \<open>
  The write index never passes the read index, so a block moves down without touching
  a byte still to be read, and no byte at or past the frame's end changes.
\<close>

lemma drop_update_before: "j < i \<Longrightarrow> drop i (xs[j := x]) = drop i xs"
  by simp

lemma cobs_copy_moves:
  assumes "j < i" and "i + n \<le> length buffer"
    and "cobs_copy buffer i j n = (buffer', i', j')"
  shows "take (j + n) buffer' = take j buffer @ take n (drop i buffer) \<and>
    drop (i + n) buffer' = drop (i + n) buffer \<and> length buffer' = length buffer"
  using assms
proof (induction buffer i j n rule: cobs_copy.induct)
  case (1 buffer i j)
  then show ?case by simp
next
  case (2 buffer i j n)
  let ?b = "buffer[j := buffer ! i]"
  have "take (Suc j + n) buffer' = take (Suc j) ?b @ take n (drop (Suc i) ?b) \<and>
      drop (Suc i + n) buffer' = drop (Suc i + n) ?b \<and> length buffer' = length ?b"
    using "2.IH" "2.prems" by simp
  moreover have "take (Suc j) ?b = take j buffer @ [buffer ! i]"
    using "2.prems" by (simp add: take_Suc_conv_app_nth)
  moreover have "take (Suc n) (drop i buffer) = buffer ! i # take n (drop (Suc i) buffer)"
    using "2.prems" by (simp add: Cons_nth_drop_Suc [symmetric])
  ultimately show ?case
    using "2.prems" by simp
qed

text \<open>What one block contributes to the frame, and one turn of the loop on it.\<close>

lemma cobs_unstuff_frame_block:
  assumes "i < n" and "n \<le> length buffer" and "unat (buffer ! i) = Suc k" and "k \<le> n - Suc i"
    and block: "block = take k (drop (Suc i) buffer)
        @ (if buffer ! i < 0xFF \<and> Suc i + k < n then [0] else [])"
  shows "cobs_unstuff (drop i (take n buffer)) =
    map_option ((@) block) (cobs_unstuff (drop (Suc i + k) (take n buffer)))"
proof -
  define xs where "xs = drop (Suc i) (take n buffer)"
  have frame: "drop i (take n buffer) = buffer ! i # xs"
    using assms(1,2) by (simp add: xs_def Cons_nth_drop_Suc [symmetric])
  have xs: "length xs = n - Suc i" "take k xs = take k (drop (Suc i) buffer)"
    "drop k xs = drop (Suc i + k) (take n buffer)"
    using assms by (auto simp: xs_def drop_take min_def add.commute)
  have ne: "drop k xs \<noteq> [] \<longleftrightarrow> Suc i + k < n"
    using xs(1) by auto
  have kc: "unat (buffer ! i) - 1 = k" and nz: "buffer ! i \<noteq> 0"
    using assms(3) by auto
  show ?thesis
    unfolding frame cobs_unstuff.simps(2) kc Let_def
    using nz assms(4) ne
    by (cases "cobs_unstuff (drop (Suc i + k) (take n buffer))") (simp_all add: xs block)
qed

lemma cobs_decode_loop_block:
  assumes "j \<le> i" and "i < n" and "n \<le> length buffer"
    and "unat (buffer ! i) = Suc k" and "k \<le> n - Suc i"
    and block: "block = take k (drop (Suc i) buffer)
        @ (if buffer ! i < 0xFF \<and> Suc i + k < n then [0] else [])"
  shows "\<exists>buffer'. length buffer' = length buffer \<and> drop (Suc i + k) buffer' = drop (Suc i + k) buffer \<and>
    take (j + length block) buffer' = take j buffer @ block \<and>
    cobs_decode_loop buffer n i j = cobs_decode_loop buffer' n (Suc i + k) (j + length block)"
proof -
  obtain b1 i1 j1 where copy: "cobs_copy buffer (Suc i) j k = (b1, i1, j1)"
    by (metis prod_cases3)
  have idx: "i1 = Suc i + k" "j1 = j + k"
    using cobs_copy_indicesD [OF copy [symmetric]] by simp_all
  have moved: "take (j + k) b1 = take j buffer @ take k (drop (Suc i) buffer)"
    "drop (Suc i + k) b1 = drop (Suc i + k) buffer" "length b1 = length buffer"
    using cobs_copy_moves [OF _ _ copy] assms by simp_all
  have kc: "unat (buffer ! i) - 1 = k" and nz: "buffer ! i \<noteq> 0"
    using assms(4) by auto
  have len: "length (take k (drop (Suc i) buffer)) = k"
    using assms by auto
  have step: "cobs_decode_loop buffer n i j =
      (if buffer ! i < 0xFF \<and> Suc i + k < n then cobs_decode_loop (b1[j + k := 0]) n (Suc i + k) (j + k + 1)
       else cobs_decode_loop b1 n (Suc i + k) (j + k))"
    unfolding cobs_decode_loop.simps [of buffer n i j] Let_def
    using assms(2,5) nz copy by (simp add: kc [simplified] idx)
  show ?thesis
  proof (cases "buffer ! i < 0xFF \<and> Suc i + k < n")
    case True
    have "take (j + k + 1) (b1[j + k := 0]) = take (j + k) b1 @ [0]"
      using True assms moved(3) by (simp add: take_Suc_conv_app_nth)
    then show ?thesis
      unfolding block if_P [OF True] length_append len
      using step [unfolded if_P [OF True]] moved assms(1)
      by (intro exI [of _ "b1[j + k := 0]"]) simp
  next
    case False
    then show ?thesis
      unfolding block if_not_P [OF False] length_append len
      using step [unfolded if_not_P [OF False]] moved
      by (intro exI [of _ b1]) simp
  qed
qed

text \<open>What the decoder is for: the frame's reference decoding at the front of the
  buffer, nothing at or past the frame's end touched.\<close>

definition decodes_frame :: "bytes \<Rightarrow> nat \<Rightarrow> bytes option \<Rightarrow> nat \<Rightarrow> bytes \<times> (errno + nat) \<Rightarrow> bool" where
  "decodes_frame buffer n decoded j result \<longleftrightarrow>
     length (fst result) = length buffer \<and> drop n (fst result) = drop n buffer \<and>
     (case decoded of
        None \<Rightarrow> snd result = Inl EINVAL
      | Some d \<Rightarrow> snd result = Inr (j + length d) \<and> j + length d \<le> n \<and>
          take (j + length d) (fst result) = take j buffer @ d)"

lemma decodes_frame_step:
  assumes "decodes_frame buffer' n decoded (j + length block) result"
    and "take (j + length block) buffer' = take j buffer @ block"
    and "length buffer' = length buffer" and "drop n buffer' = drop n buffer"
  shows "decodes_frame buffer n (map_option ((@) block) decoded) j result"
  using assms by (cases decoded) (simp_all add: decodes_frame_def add.assoc)

lemma cobs_decode_loop_refines:
  assumes "j \<le> i" and "i \<le> n" and "n \<le> length buffer"
  shows "decodes_frame buffer n (cobs_unstuff (drop i (take n buffer))) j
    (cobs_decode_loop buffer n i j)"
  using assms
proof (induction "n - i" arbitrary: buffer i j rule: less_induct)
  case less
  show ?case
  proof (cases "i < n")
    case False
    then show ?thesis
      using less.prems cobs_decode_loop.simps [of buffer n i j] by (simp add: decodes_frame_def)
  next
    case i: True
    show ?thesis
    proof (cases "buffer ! i = 0 \<or> unat (buffer ! i) - 1 > n - Suc i")
      case True
      then have "cobs_unstuff (drop i (take n buffer)) = None"
        using i less.prems
        by (subst Cons_nth_drop_Suc [symmetric]) (auto simp: cobs_unstuff.simps(2) Let_def)
      moreover have "cobs_decode_loop buffer n i j = (buffer, Inl EINVAL)"
        unfolding cobs_decode_loop.simps [of buffer n i j] using i True by (auto simp: Let_def)
      ultimately show ?thesis by (simp add: decodes_frame_def)
    next
      case False
      then obtain k where k: "unat (buffer ! i) = Suc k" "k \<le> n - Suc i"
        by (metis One_nat_def diff_Suc_1 linorder_not_le not0_implies_Suc unat_eq_0)
      define block where "block = take k (drop (Suc i) buffer)
        @ (if buffer ! i < 0xFF \<and> Suc i + k < n then [0] else [])"
      obtain buffer' where b': "length buffer' = length buffer"
        "drop (Suc i + k) buffer' = drop (Suc i + k) buffer"
        "take (j + length block) buffer' = take j buffer @ block"
        "cobs_decode_loop buffer n i j = cobs_decode_loop buffer' n (Suc i + k) (j + length block)"
        using cobs_decode_loop_block [OF less.prems(1) i less.prems(3) k block_def] by blast
      have tail: "drop n buffer' = drop n buffer"
        using arg_cong [OF b'(2), of "drop (n - (Suc i + k))"] k(2) i by simp
      have "decodes_frame buffer' n (cobs_unstuff (drop (Suc i + k) (take n buffer')))
          (j + length block) (cobs_decode_loop buffer' n (Suc i + k) (j + length block))"
        using less.prems b'(1) k(2) i by (intro less.hyps) (auto simp: block_def)
      moreover have "drop (Suc i + k) (take n buffer') = drop (Suc i + k) (take n buffer)"
        using b'(2) by (simp add: drop_take)
      ultimately have "decodes_frame buffer n
          (map_option ((@) block) (cobs_unstuff (drop (Suc i + k) (take n buffer)))) j
          (cobs_decode_loop buffer n i j)"
        using b' tail by (simp add: decodes_frame_step)
      then show ?thesis
        unfolding cobs_unstuff_frame_block [OF i less.prems(3) k block_def] .
    qed
  qed
qed

lemma cobs_decode_in_place_refines:
  assumes "0 < n" and "n \<le> length buffer"
  shows "decodes_frame buffer n (cobs_unstuff (take n buffer)) 0 (cobs_decode_in_place buffer n)"
  using cobs_decode_loop_refines [of 0 0 n buffer] assms by (simp add: cobs_decode_in_place_def)

section \<open>Round trip and bounds\<close>

lemma cobs_decode_encoded:
  assumes "cobs_encode input output_capacity = Inr (stuffed @ [delimiter])"
    and "drop (length stuffed) buffer = drop (length stuffed) (stuffed @ rest)"
    and "take (length stuffed) buffer = stuffed"
  shows "\<exists>buffer'. cobs_decode_in_place buffer (length stuffed) = (buffer', Inr (length input)) \<and>
    take (length input) buffer' = input \<and> length buffer' = length buffer"
proof -
  have "cobs_unstuff stuffed = Some input" and "stuffed \<noteq> []"
    using cobs_encode_frame [OF assms(1)] by auto
  moreover have "length stuffed \<le> length buffer"
    using assms(3) by (metis length_take min.cobounded1)
  ultimately have "decodes_frame buffer (length stuffed) (Some input) 0
      (cobs_decode_in_place buffer (length stuffed))"
    using cobs_decode_in_place_refines [of "length stuffed" buffer] assms(3) by simp
  then show ?thesis
    by (intro exI [of _ "fst (cobs_decode_in_place buffer (length stuffed))"])
       (auto simp: decodes_frame_def prod_eq_iff)
qed

text \<open>
  Claim C33: the encoder's frame holds no zero byte before its delimiter and never exceeds
  \<open>COBS_MAX_ENCODED\<close>, and decoding it in place gives back exactly the input,
  whatever follows the frame in the buffer.
\<close>

theorem cobs_roundtrip:
  assumes "cobs_encode input output_capacity = Inr framed"
  shows "\<exists>stuffed buffer. framed = stuffed @ [0] \<and> 0 \<notin> set stuffed \<and>
    length framed \<le> COBS_MAX_ENCODED (length input) \<and>
    cobs_decode_in_place (framed @ rest) (length stuffed) = (buffer, Inr (length input)) \<and>
    take (length input) buffer = input"
proof -
  obtain stuffed where st: "framed = stuffed @ [0]" "0 \<notin> set stuffed"
    "length framed \<le> COBS_MAX_ENCODED (length input)"
    using cobs_encode_frame [OF assms] by auto
  obtain buffer where "cobs_decode_in_place (framed @ rest) (length stuffed) = (buffer, Inr (length input))"
    and "take (length input) buffer = input"
    using cobs_decode_encoded [OF assms [unfolded st(1)], of "framed @ rest" "0 # rest"] st(1) by auto
  with st show ?thesis by blast
qed

theorem cobs_roundtrip_witness:
  "cobs_encode [1, 0, 2] 5 = Inr [2, 1, 2, 2, 0] \<and>
   (\<exists>stuffed buffer. [2, 1, 2, 2, 0 :: u8] = stuffed @ [0] \<and> 0 \<notin> set stuffed \<and>
    length [2, 1, 2, 2, 0 :: u8] \<le> COBS_MAX_ENCODED (length [1, 0, 2 :: u8]) \<and>
    cobs_decode_in_place ([2, 1, 2, 2, 0] @ [9]) (length stuffed) = (buffer, Inr (length [1, 0, 2 :: u8])) \<and>
    take (length [1, 0, 2 :: u8]) buffer = [1, 0, 2])"
proof -
  have enc: "cobs_encode [1, 0, 2] 5 = Inr [2, 1, 2, 2, 0]"
    by (simp add: cobs_encode_def COBS_MAX_ENCODED_def cobs_start_def cobs_encode_byte_def close_block_def)
  show ?thesis
    using enc cobs_roundtrip [OF enc, of "[9]"] by blast
qed

text \<open>
  Claim C34: decoding any bytes in place is memory safe and exact: the decoder succeeds just
  when the reference decoder does, writes no byte at or past the frame's end, never
  produces more bytes than it read, and leaves the reference result at the buffer's front.
\<close>

theorem cobs_decode_in_place_correct:
  assumes "0 < n" and "n \<le> length buffer"
  shows "length (fst (cobs_decode_in_place buffer n)) = length buffer \<and>
    drop n (fst (cobs_decode_in_place buffer n)) = drop n buffer \<and>
    (case cobs_unstuff (take n buffer) of
       None \<Rightarrow> snd (cobs_decode_in_place buffer n) = Inl EINVAL
     | Some decoded \<Rightarrow> snd (cobs_decode_in_place buffer n) = Inr (length decoded) \<and>
         length decoded \<le> n \<and>
         take (length decoded) (fst (cobs_decode_in_place buffer n)) = decoded)"
  using cobs_decode_in_place_refines [OF assms]
  by (simp add: decodes_frame_def split: option.splits)

theorem cobs_decode_in_place_correct_witness:
  "cobs_unstuff (take 2 [3, 7, 0 :: u8]) = None \<and>
   snd (cobs_decode_in_place [3, 7, 0] 2) = Inl EINVAL"
proof -
  have "cobs_unstuff (take 2 [3, 7, 0 :: u8]) = None"
    by (simp add: cobs_unstuff.simps(2) Let_def)
  then show ?thesis
    using cobs_decode_in_place_correct [of 2 "[3, 7, 0]"] by simp
qed

end
