(* ===== verification/Wire_Frame.thy ===== *)
theory Wire_Frame
  imports Cobs
begin

text \<open>
  The wire frame codec (\<open>src/wire_frame.c\<close>, \<open>src/wire_frame.h\<close>): a
  payload and its CRC8 trailer, COBS stuffed and closed by a zero byte, and the parser
  that cuts a byte stream back into payloads. The CRC is Zephyr's
  \<open>crc8_ccitt(initial, data, length)\<close>, a parameter of every definition that uses it.
\<close>

type_synonym crc8 = "u8 \<Rightarrow> bytes \<Rightarrow> u8"

abbreviation WIRE_FRAME_DELIMITER :: u8 where
  "WIRE_FRAME_DELIMITER \<equiv> 0x00"

definition WIRE_FRAME_MAX_PAYLOAD :: nat where
  "WIRE_FRAME_MAX_PAYLOAD = 128"

definition WIRE_FRAME_CRC_BYTES :: nat where
  "WIRE_FRAME_CRC_BYTES = 1"

definition WIRE_FRAME_MAX_ENCODED :: nat where
  "WIRE_FRAME_MAX_ENCODED = COBS_MAX_ENCODED (WIRE_FRAME_MAX_PAYLOAD + WIRE_FRAME_CRC_BYTES)"

lemma WIRE_FRAME_MAX_ENCODED_val [simp]: "WIRE_FRAME_MAX_ENCODED = 131"
  by (simp add: WIRE_FRAME_MAX_ENCODED_def WIRE_FRAME_MAX_PAYLOAD_def WIRE_FRAME_CRC_BYTES_def
      COBS_MAX_ENCODED_def)

section \<open>Encoder\<close>

text \<open>\<open>payload\<close> is \<^const>\<open>None\<close> for the NULL pointer.\<close>

definition wire_frame_encode ::
  "crc8 \<Rightarrow> bytes option \<Rightarrow> nat \<Rightarrow> nat \<Rightarrow> errno + bytes" where
  "wire_frame_encode crc8_ccitt payload payload_length output_capacity =
     (if payload_length > WIRE_FRAME_MAX_PAYLOAD then Inl EMSGSIZE
      else if payload_length > 0 \<and> payload = None then Inl EINVAL
      else
        let plain = (if payload_length > 0 then take payload_length (the payload) else []);
            plain = plain @ [crc8_ccitt 0x00 plain]
        in cobs_encode plain output_capacity)"

section \<open>Parser\<close>

record wire_frame_parser =
  accumulator :: bytes
  accumulator_length :: nat
  discarding :: bool

definition parser_reset :: wire_frame_parser where
  "parser_reset = \<lparr>accumulator = replicate WIRE_FRAME_MAX_ENCODED 0, accumulator_length = 0,
     discarding = False\<rparr>"

text \<open>The callback's payloads, in the order of its calls, are the second result.\<close>

definition deliver_frame ::
  "crc8 \<Rightarrow> wire_frame_parser \<Rightarrow> wire_frame_parser \<times> bytes list" where
  "deliver_frame crc8_ccitt parser =
     (let (buffer, result) = cobs_decode_in_place (accumulator parser) (accumulator_length parser);
          parser = parser\<lparr>accumulator := buffer\<rparr>
      in case result of
           Inl _ \<Rightarrow> (parser, [])
         | Inr decoded_length \<Rightarrow>
             if decoded_length < 1 then (parser, [])
             else
               let payload_length = decoded_length - 1;
                   received_crc = accumulator parser ! (decoded_length - 1);
                   computed_crc = crc8_ccitt 0x00 (take payload_length (accumulator parser))
               in if received_crc \<noteq> computed_crc then (parser, [])
                  else (parser, [take payload_length (accumulator parser)]))"

definition wire_frame_parser_byte ::
  "crc8 \<Rightarrow> u8 \<Rightarrow> wire_frame_parser \<Rightarrow> wire_frame_parser \<times> bytes list" where
  "wire_frame_parser_byte crc8_ccitt byte parser =
     (if byte = WIRE_FRAME_DELIMITER then
        let (parser, delivered) =
              (if \<not> discarding parser \<and> accumulator_length parser > 0
               then deliver_frame crc8_ccitt parser else (parser, []))
        in (parser\<lparr>accumulator_length := 0, discarding := False\<rparr>, delivered)
      else if discarding parser then (parser, [])
      else if accumulator_length parser \<ge> length (accumulator parser) then
        (parser\<lparr>accumulator_length := 0, discarding := True\<rparr>, [])
      else
        (parser\<lparr>accumulator := (accumulator parser)[accumulator_length parser := byte],
                accumulator_length := accumulator_length parser + 1\<rparr>, []))"

fun wire_frame_parser_ingest ::
  "crc8 \<Rightarrow> wire_frame_parser \<Rightarrow> bytes \<Rightarrow> wire_frame_parser \<times> bytes list" where
  "wire_frame_parser_ingest crc8_ccitt parser [] = (parser, [])"
| "wire_frame_parser_ingest crc8_ccitt parser (byte # bytes) =
     (let (parser, delivered) = wire_frame_parser_byte crc8_ccitt byte parser;
          (parser, later) = wire_frame_parser_ingest crc8_ccitt parser bytes
      in (parser, delivered @ later))"

section \<open>The parser's invariant\<close>

definition parser_ok :: "wire_frame_parser \<Rightarrow> bool" where
  "parser_ok parser \<longleftrightarrow>
     length (accumulator parser) = WIRE_FRAME_MAX_ENCODED \<and>
     accumulator_length parser \<le> WIRE_FRAME_MAX_ENCODED \<and>
     (discarding parser \<longrightarrow> accumulator_length parser = 0)"

text \<open>What the parser knows of the frame being received: the bytes since the last
  delimiter, or nothing once they overflowed.\<close>

definition pending :: "wire_frame_parser \<Rightarrow> bytes option" where
  "pending parser = (if discarding parser then None
     else Some (take (accumulator_length parser) (accumulator parser)))"

text \<open>The meaning of a stuffed frame: its payload when the CRC matches.\<close>

definition frame_payload :: "crc8 \<Rightarrow> bytes \<Rightarrow> bytes list" where
  "frame_payload crc8_ccitt stuffed =
     (if stuffed = [] then [] else
      case cobs_unstuff stuffed of
        None \<Rightarrow> []
      | Some plain \<Rightarrow>
          if plain \<noteq> [] \<and> last plain = crc8_ccitt 0x00 (butlast plain) then [butlast plain] else [])"

lemma parser_ok_reset [simp]: "parser_ok parser_reset" "pending parser_reset = Some []"
  by (simp_all add: parser_ok_def parser_reset_def pending_def)

lemma deliver_frame_refines:
  assumes ok: "parser_ok parser" and "0 < accumulator_length parser"
    and "deliver_frame crc parser = (parser', delivered)"
  shows "delivered = frame_payload crc (take (accumulator_length parser) (accumulator parser)) \<and>
    length (accumulator parser') = length (accumulator parser)"
proof -
  define n where "n = accumulator_length parser"
  define stuffed where "stuffed = take n (accumulator parser)"
  obtain buffer result where dec: "cobs_decode_in_place (accumulator parser) n = (buffer, result)"
    by fastforce
  have n: "0 < n" "n \<le> length (accumulator parser)" "stuffed \<noteq> []"
    using assms by (auto simp: n_def parser_ok_def stuffed_def)
  have r: "length buffer = length (accumulator parser)"
    "case cobs_unstuff stuffed of None \<Rightarrow> result = Inl EINVAL
     | Some d \<Rightarrow> result = Inr (length d) \<and> length d \<le> n \<and> take (length d) buffer = d"
    using cobs_decode_in_place_refines [OF n(1,2)] dec
    by (simp_all add: decodes_frame_def stuffed_def split: option.splits)
  show ?thesis
  proof (cases "cobs_unstuff stuffed")
    case None
    then show ?thesis
      using r n assms(3) dec
      by (auto simp: deliver_frame_def frame_payload_def stuffed_def [symmetric] n_def [symmetric])
  next
    case (Some d)
    have d: "take (length d) buffer = d"
      using r(2) Some by simp
    have tk: "take (length d - Suc 0) buffer = butlast d"
      using arg_cong [OF d, of "take (length d - Suc 0)"] by (simp add: butlast_conv_take)
    have la: "d \<noteq> [] \<Longrightarrow> buffer ! (length d - Suc 0) = last d"
      using arg_cong [OF d, of "\<lambda>xs. xs ! (length d - Suc 0)"] by (simp add: last_conv_nth)
    show ?thesis
      using r n assms(3) dec Some tk la
      by (auto simp: deliver_frame_def frame_payload_def stuffed_def [symmetric] n_def [symmetric]
          Let_def split: if_splits)
  qed
qed

section \<open>The parser refines a cut at the delimiters\<close>

definition cut_byte :: "crc8 \<Rightarrow> u8 \<Rightarrow> bytes option \<Rightarrow> bytes option \<times> bytes list" where
  "cut_byte crc8_ccitt byte held =
     (if byte = 0 then (Some [], (case held of None \<Rightarrow> [] | Some stuffed \<Rightarrow> frame_payload crc8_ccitt stuffed))
      else
        (case held of
           None \<Rightarrow> None
         | Some stuffed \<Rightarrow>
             if length stuffed \<ge> WIRE_FRAME_MAX_ENCODED then None else Some (stuffed @ [byte]), []))"

lemma wire_frame_parser_byte_refines:
  assumes "parser_ok parser" and "wire_frame_parser_byte crc byte parser = (parser', delivered)"
  shows "parser_ok parser' \<and> cut_byte crc byte (pending parser) = (pending parser', delivered)"
proof (cases "byte = 0 \<and> \<not> discarding parser \<and> 0 < accumulator_length parser")
  case True
  then obtain p1 where p1: "deliver_frame crc parser = (p1, delivered)"
    and "parser' = p1\<lparr>accumulator_length := 0, discarding := False\<rparr>"
    using assms(2) by (auto simp: wire_frame_parser_byte_def split: prod.splits)
  then show ?thesis
    using deliver_frame_refines [OF assms(1) _ p1] True assms(1)
    by (simp add: parser_ok_def pending_def cut_byte_def)
next
  case False
  then show ?thesis
    using assms
    by (auto simp: wire_frame_parser_byte_def parser_ok_def pending_def cut_byte_def
        frame_payload_def take_Suc_conv_app_nth split: if_splits)
qed

fun cut_bytes :: "crc8 \<Rightarrow> bytes option \<Rightarrow> bytes \<Rightarrow> bytes option \<times> bytes list" where
  "cut_bytes crc8_ccitt held [] = (held, [])"
| "cut_bytes crc8_ccitt held (byte # bytes) =
     (let (held, delivered) = cut_byte crc8_ccitt byte held;
          (held, later) = cut_bytes crc8_ccitt held bytes
      in (held, delivered @ later))"

lemma wire_frame_parser_ingest_refines:
  assumes "parser_ok parser" and "wire_frame_parser_ingest crc parser bytes = (parser', delivered)"
  shows "parser_ok parser' \<and> cut_bytes crc (pending parser) bytes = (pending parser', delivered)"
  using assms
proof (induction bytes arbitrary: parser delivered)
  case Nil
  then show ?case by simp
next
  case (Cons byte bytes)
  obtain p1 d1 where b: "wire_frame_parser_byte crc byte parser = (p1, d1)" by fastforce
  obtain d2 where i: "wire_frame_parser_ingest crc p1 bytes = (parser', d2)" "delivered = d1 @ d2"
    using Cons.prems(2) b by (auto split: prod.splits)
  show ?case
    using wire_frame_parser_byte_refines [OF Cons.prems(1) b] Cons.IH [OF _ i(1)] i(2) by auto
qed

lemma wire_frame_parser_ingest_append:
  "wire_frame_parser_ingest crc parser (xs @ ys) =
     (let (parser, delivered) = wire_frame_parser_ingest crc parser xs;
          (parser, later) = wire_frame_parser_ingest crc parser ys
      in (parser, delivered @ later))"
  by (induction xs arbitrary: parser) (auto split: prod.splits)

lemma wire_frame_parser_ingest_split:
  assumes "wire_frame_parser_ingest crc parser xs = (parser1, d1)"
    and "wire_frame_parser_ingest crc parser (xs @ ys) = (parser2, delivered)"
  shows "\<exists>later. wire_frame_parser_ingest crc parser1 ys = (parser2, later) \<and> delivered = d1 @ later"
  using assms by (auto simp: wire_frame_parser_ingest_append split: prod.splits)

lemma cut_bytes_append:
  "cut_bytes crc held (xs @ ys) =
     (let (held, delivered) = cut_bytes crc held xs; (held, later) = cut_bytes crc held ys
      in (held, delivered @ later))"
  by (induction xs arbitrary: held) (auto split: prod.splits)

lemma cut_bytes_discarding: "0 \<notin> set stuffed \<Longrightarrow> cut_bytes crc None stuffed = (None, [])"
  by (induction stuffed) (auto simp: cut_byte_def)

lemma cut_bytes_segment:
  assumes "0 \<notin> set stuffed" and "length held \<le> WIRE_FRAME_MAX_ENCODED"
  shows "cut_bytes crc (Some held) stuffed =
    (if length (held @ stuffed) \<le> WIRE_FRAME_MAX_ENCODED then Some (held @ stuffed) else None, [])"
  using assms
proof (induction stuffed arbitrary: held)
  case Nil
  then show ?case by simp
next
  case (Cons b stuffed)
  show ?case
  proof (cases "length held < WIRE_FRAME_MAX_ENCODED")
    case True
    then have "cut_byte crc b (Some held) = (Some (held @ [b]), [])"
      using Cons.prems by (auto simp: cut_byte_def)
    then show ?thesis
      using Cons.IH [of "held @ [b]"] Cons.prems True by auto
  next
    case False
    then have "cut_byte crc b (Some held) = (None, [])"
      using Cons.prems by (auto simp: cut_byte_def)
    then show ?thesis
      using cut_bytes_discarding [of stuffed] Cons.prems False by auto
  qed
qed

text \<open>The payloads of one delimited segment: an oversized one is dropped whole.\<close>

definition segment_payloads :: "crc8 \<Rightarrow> bytes \<Rightarrow> bytes list" where
  "segment_payloads crc8_ccitt stuffed =
     (if length stuffed \<le> WIRE_FRAME_MAX_ENCODED then frame_payload crc8_ccitt stuffed else [])"

abbreviation delimited :: "bytes list \<Rightarrow> bytes" where
  "delimited segments \<equiv> concat (map (\<lambda>s. s @ [WIRE_FRAME_DELIMITER]) segments)"

lemma cut_bytes_delimited:
  assumes "\<forall>s \<in> set segments. 0 \<notin> set s"
  shows "cut_bytes crc (Some []) (delimited segments) =
    (Some [], concat (map (segment_payloads crc) segments))"
  using assms
  by (induction segments)
     (simp_all add: cut_bytes_append cut_bytes_segment cut_byte_def segment_payloads_def)

lemma cut_bytes_resync:
  "\<exists>delivered. cut_bytes crc held (bytes @ [0]) = (Some [], delivered)"
  by (auto simp: cut_bytes_append cut_byte_def split: prod.splits)

lemma wire_frame_encode_frame:
  assumes "wire_frame_encode crc (Some payload) (length payload) output_capacity = Inr framed"
  shows "\<exists>stuffed. framed = stuffed @ [0] \<and> 0 \<notin> set stuffed \<and>
    segment_payloads crc stuffed = [payload] \<and> length framed \<le> WIRE_FRAME_MAX_ENCODED"
proof -
  define plain where "plain = payload @ [crc 0 payload]"
  have len: "length payload \<le> 128"
    using assms by (auto simp: wire_frame_encode_def WIRE_FRAME_MAX_PAYLOAD_def split: if_splits)
  have "cobs_encode plain output_capacity = Inr framed"
    using assms by (auto simp: wire_frame_encode_def plain_def Let_def split: if_splits)
  from cobs_encode_frame [OF this] obtain stuffed where st: "framed = stuffed @ [0]"
    "0 \<notin> set stuffed" "stuffed \<noteq> []" "cobs_unstuff stuffed = Some plain"
    "length framed \<le> COBS_MAX_ENCODED (length plain)" by auto
  have "COBS_MAX_ENCODED (length plain) \<le> 131"
    using len by (simp add: COBS_MAX_ENCODED_def plain_def)
  then show ?thesis
    using st by (auto simp: segment_payloads_def frame_payload_def plain_def)
qed

lemma delimited_frames:
  assumes "list_all2 (\<lambda>payload framed.
    wire_frame_encode crc (Some payload) (length payload) output_capacity = Inr framed) payloads frames"
  shows "\<exists>segments. concat frames = delimited segments \<and> (\<forall>s \<in> set segments. 0 \<notin> set s) \<and>
    concat (map (segment_payloads crc) segments) = payloads"
  using assms
proof (induction payloads frames rule: list_all2_induct)
  case Nil
  show ?case by (intro exI [of _ "[]"]) simp
next
  case (Cons p ps f fs)
  obtain stuffed where "f = stuffed @ [0]" "0 \<notin> set stuffed" "segment_payloads crc stuffed = [p]"
    using wire_frame_encode_frame [OF Cons.hyps(1)] by blast
  moreover obtain segments where "concat fs = delimited segments" "\<forall>s \<in> set segments. 0 \<notin> set s"
    "concat (map (segment_payloads crc) segments) = ps"
    using Cons.IH by blast
  ultimately show ?case
    by (intro exI [of _ "stuffed # segments"]) simp
qed

section \<open>Properties of the codec\<close>

text \<open>
  Claim C35: the parser delivers, for any byte stream and however it is chunked, exactly the
  payloads of the delimited segments that fit the accumulator, unstuff and carry the right
  CRC, in order, and never writes outside its accumulator.
\<close>

theorem wire_frame_parser_ingest_correct:
  assumes "parser_ok parser" and "pending parser = Some []"
    and "\<forall>s \<in> set segments. 0 \<notin> set s" and "0 \<notin> set rest"
    and "wire_frame_parser_ingest crc parser (delimited segments @ rest) = (parser', delivered)"
  shows "delivered = concat (map (segment_payloads crc) segments) \<and> parser_ok parser' \<and>
    pending parser' = (if length rest \<le> WIRE_FRAME_MAX_ENCODED then Some rest else None)"
  using wire_frame_parser_ingest_refines [OF assms(1,5)] cut_bytes_delimited [OF assms(3), of crc]
    cut_bytes_segment [OF assms(4), of "[]" crc] assms(2)
  by (auto simp: cut_bytes_append split: if_splits)

theorem wire_frame_parser_ingest_correct_witness:
  "snd (wire_frame_parser_ingest (\<lambda>i bs. i) parser_reset (delimited [[2, 5, 1]] @ [3])) =
     concat (map (segment_payloads (\<lambda>i bs. i)) [[2, 5, 1]]) \<and>
   segment_payloads (\<lambda>i bs. i) [2, 5, 1] = [[5]]"
proof -
  obtain parser' delivered where
    "wire_frame_parser_ingest (\<lambda>i bs. i) parser_reset (delimited [[2, 5, 1]] @ [3]) = (parser', delivered)"
    by fastforce
  then show ?thesis
    using wire_frame_parser_ingest_correct [of parser_reset "[[2, 5, 1]]" "[3]" "\<lambda>i bs. i" parser' delivered]
    by (simp add: segment_payloads_def frame_payload_def cobs_unstuff.simps Let_def)
qed

text \<open>One call for each chunk that was read, the parser keeping its state in between.\<close>

fun ingest_chunks :: "crc8 \<Rightarrow> wire_frame_parser \<Rightarrow> bytes list \<Rightarrow> wire_frame_parser \<times> bytes list" where
  "ingest_chunks crc8_ccitt parser [] = (parser, [])"
| "ingest_chunks crc8_ccitt parser (chunk # chunks) =
     (let (parser, delivered) = wire_frame_parser_ingest crc8_ccitt parser chunk;
          (parser, later) = ingest_chunks crc8_ccitt parser chunks
      in (parser, delivered @ later))"

lemma ingest_chunks_concat: "ingest_chunks crc parser chunks = wire_frame_parser_ingest crc parser (concat chunks)"
  by (induction chunks arbitrary: parser) (auto simp: wire_frame_parser_ingest_append split: prod.splits)

text \<open>
  Claim C12: frames written by the encoder survive the wire, whatever the chunks their bytes are
  read in and wherever the cuts fall. Whatever the parser saw before, once a delimiter has passed
  it delivers the payloads of the following frames, all of them, once each, in order, after what
  the noise itself held.
\<close>

theorem wire_frame_stream_roundtrip:
  assumes "parser_ok parser"
    and "list_all2 (\<lambda>payload framed.
      wire_frame_encode crc (Some payload) (length payload) output_capacity = Inr framed) payloads frames"
    and "wire_frame_parser_ingest crc parser (noise @ [0]) = (parser1, heard)"
    and "concat chunks = (noise @ [0]) @ concat frames"
    and "ingest_chunks crc parser chunks = (parser2, delivered)"
  shows "delivered = heard @ payloads \<and> parser_ok parser2 \<and> pending parser2 = Some []"
proof -
  have "wire_frame_parser_ingest crc parser ((noise @ [0]) @ concat frames) = (parser2, delivered)"
    using assms(4,5) by (simp only: ingest_chunks_concat)
  then obtain later where later: "wire_frame_parser_ingest crc parser1 (concat frames) = (parser2, later)"
    "delivered = heard @ later"
    using wire_frame_parser_ingest_split [OF assms(3)] by blast
  have one: "parser_ok parser1" "pending parser1 = Some []"
    using wire_frame_parser_ingest_refines [OF assms(1,3)] cut_bytes_resync [of crc "pending parser" noise]
    by auto
  obtain segments where "concat frames = delimited segments" "\<forall>s \<in> set segments. 0 \<notin> set s"
    "concat (map (segment_payloads crc) segments) = payloads"
    using delimited_frames [OF assms(2)] by blast
  then show ?thesis
    using wire_frame_parser_ingest_refines [OF one(1) later(1)] one(2) later(2)
      cut_bytes_delimited [of segments crc] by auto
qed

theorem wire_frame_stream_roundtrip_witness:
  "snd (ingest_chunks (\<lambda>i bs. i) parser_reset [[7], [0, 2], [5, 1], [0]]) =
     snd (wire_frame_parser_ingest (\<lambda>i bs. i) parser_reset ([7] @ [0])) @ [[5]]"
proof -
  have enc: "wire_frame_encode (\<lambda>i bs. i) (Some [5]) (length [5 :: u8]) 4 = Inr [2, 5, 1, 0]"
    by (simp add: wire_frame_encode_def WIRE_FRAME_MAX_PAYLOAD_def cobs_encode_def
        COBS_MAX_ENCODED_def cobs_start_def cobs_encode_byte_def close_block_def)
  obtain p1 d1 p2 d2 where noise: "wire_frame_parser_ingest (\<lambda>i bs. i) parser_reset ([7] @ [0]) = (p1, d1)"
    and chunks: "ingest_chunks (\<lambda>i bs. i) parser_reset [[7], [0, 2], [5, 1], [0]] = (p2, d2)"
    by (metis surj_pair)
  show ?thesis
    using wire_frame_stream_roundtrip [OF parser_ok_reset(1) _ noise _ chunks, of 4 "[[5]]" "[[2, 5, 1, 0]]"] enc
    unfolding noise chunks by simp
qed

end
