(* ===== verification/Wire_Link.thy ===== *)
theory Wire_Link
  imports Wire_Frame
begin

text \<open>
  The UART link between two split peripherals (\<open>src/wire_link.c\<close>): the receive ring
  and its thread, the three transmit rings and the interrupt handler that drains them, the
  peer timeout. The ring buffers and the UART are Zephyr's: a ring is the list of its bytes
  with the capacity the code declares, and what the UART hands over or takes in one
  interrupt is an argument of \<open>wire_uart_isr\<close>.
\<close>

definition WIRE_LINK_RX_RING_BYTES :: nat where
  "WIRE_LINK_RX_RING_BYTES = WIRE_FRAME_MAX_ENCODED * 2"

definition WIRE_LINK_CHUNK_BYTES :: nat where
  "WIRE_LINK_CHUNK_BYTES = 64"

datatype tx_ring = Event_ring | Input_ring | Keepalive_ring

fun ring_capacity :: "tx_ring \<Rightarrow> nat" where
  "ring_capacity Event_ring = WIRE_FRAME_MAX_ENCODED * 2"
| "ring_capacity Input_ring = WIRE_FRAME_MAX_ENCODED * 2"
| "ring_capacity Keepalive_ring = WIRE_FRAME_MAX_ENCODED"

text \<open>The order in which the handler prefers the rings between two frames.\<close>

primrec ring_rank :: "tx_ring \<Rightarrow> nat" where
  "ring_rank Event_ring = 0"
| "ring_rank Input_ring = 1"
| "ring_rank Keepalive_ring = 2"

instantiation tx_ring :: linorder
begin

definition less_eq_tx_ring :: "tx_ring \<Rightarrow> tx_ring \<Rightarrow> bool" where
  "ring \<le> ring' \<longleftrightarrow> ring_rank ring \<le> ring_rank ring'"

definition less_tx_ring :: "tx_ring \<Rightarrow> tx_ring \<Rightarrow> bool" where
  "ring < ring' \<longleftrightarrow> ring_rank ring < ring_rank ring'"

instance
proof
  fix ring ring' :: tx_ring
  assume "ring \<le> ring'" "ring' \<le> ring"
  then show "ring = ring'" by (cases ring; cases ring') (simp_all add: less_eq_tx_ring_def)
qed (auto simp: less_eq_tx_ring_def less_tx_ring_def)

end

lemmas ring_order = less_eq_tx_ring_def less_tx_ring_def

text \<open>\<open>wire-mode\<close> of the devicetree, and the build options the link reads.\<close>

record wire_config =
  simplex :: bool
  transport_wire :: bool
  wire_timeout_ms :: u32

record wire_link =
  wire_rx_ring :: bytes
  wire_tx_rings :: "tx_ring \<Rightarrow> bytes"
  wire_tx_frame_ring :: "tx_ring option"
  wire_parser :: wire_frame_parser
  wire_peer_last_rx_uptime :: u32
  wire_subscribed :: bool
  uart_rx_irq :: bool
  uart_tx_irq :: bool
  wire_keepalive_scheduled :: bool

section \<open>Receive side\<close>

definition wire_on_frame :: "wire_link \<Rightarrow> bytes \<Rightarrow> bytes list" where
  "wire_on_frame link payload =
     (if length payload = 0 then [] else if wire_subscribed link then [payload] else [])"

text \<open>The payloads handed to the subscription are the second result.\<close>

function wire_process_ring :: "crc8 \<Rightarrow> wire_link \<Rightarrow> wire_link \<times> bytes list" where
  "wire_process_ring crc8_ccitt link =
     (let chunk = take WIRE_LINK_CHUNK_BYTES (wire_rx_ring link);
          link = link\<lparr>wire_rx_ring := drop WIRE_LINK_CHUNK_BYTES (wire_rx_ring link)\<rparr>
      in if chunk = [] then (link, [])
         else
           let (parser, payloads) = wire_frame_parser_ingest crc8_ccitt (wire_parser link) chunk;
               handed = concat (map (wire_on_frame link) payloads);
               (link, later) = wire_process_ring crc8_ccitt (link\<lparr>wire_parser := parser\<rparr>)
           in (link, handed @ later))"
  by pat_completeness auto

termination
  by (relation "measure (\<lambda>(crc, link). length (wire_rx_ring link))")
     (auto simp: WIRE_LINK_CHUNK_BYTES_def)

declare wire_process_ring.simps [simp del]

definition wire_link_can_transmit :: "wire_config \<Rightarrow> bool" where
  "wire_link_can_transmit config = (if \<not> simplex config then True else transport_wire config)"

definition wire_link_can_receive :: "wire_config \<Rightarrow> bool" where
  "wire_link_can_receive config = (if \<not> simplex config then True else \<not> transport_wire config)"

definition wire_link_register_rx :: "bool \<Rightarrow> wire_link \<Rightarrow> wire_link" where
  "wire_link_register_rx subscription link = link\<lparr>wire_subscribed := subscription\<rparr>"

text \<open>\<open>now\<close> is \<open>k_uptime_get_32()\<close>.\<close>

definition wire_link_is_up :: "wire_config \<Rightarrow> u32 \<Rightarrow> wire_link \<Rightarrow> bool" where
  "wire_link_is_up config now link =
     (let last_rx = wire_peer_last_rx_uptime link
      in if last_rx = 0 then False else now - last_rx \<le> wire_timeout_ms config)"

section \<open>Transmit side\<close>

definition wire_tx_pick_ring :: "wire_link \<Rightarrow> tx_ring" where
  "wire_tx_pick_ring link =
     (case wire_tx_frame_ring link of
        Some ring \<Rightarrow> ring
      | None \<Rightarrow>
          if wire_tx_rings link Event_ring \<noteq> [] then Event_ring
          else if wire_tx_rings link Input_ring \<noteq> [] then Input_ring
          else Keepalive_ring)"

text \<open>The loop over the bytes the UART took, in \<open>sent\<close>.\<close>

fun wire_tx_track_frame :: "tx_ring \<Rightarrow> bytes \<Rightarrow> tx_ring option \<Rightarrow> tx_ring option" where
  "wire_tx_track_frame ring [] frame_ring = frame_ring"
| "wire_tx_track_frame ring (byte # sent) frame_ring =
     wire_tx_track_frame ring sent (if byte = WIRE_FRAME_DELIMITER then None else Some ring)"

text \<open>One pass of the transmit loop. \<open>contiguous\<close> is what the ring can hand out
  without wrapping and \<open>fill\<close> the result of \<open>uart_fifo_fill\<close>. The results
  are the link, the bytes put on the wire and whether the loop goes on.\<close>

definition wire_tx_pass :: "nat \<Rightarrow> int \<Rightarrow> wire_link \<Rightarrow> wire_link \<times> bytes \<times> bool" where
  "wire_tx_pass contiguous fill link =
     (let active = wire_tx_pick_ring link;
          chunk = take (min WIRE_LINK_CHUNK_BYTES contiguous) (wire_tx_rings link active);
          claim = length chunk
      in if claim = 0 then (link\<lparr>uart_tx_irq := False\<rparr>, [], False)
         else
           let sent = take (nat fill) chunk;
               consumed = nat (max fill 0)
           in (link\<lparr>wire_tx_frame_ring := wire_tx_track_frame active sent (wire_tx_frame_ring link),
                    wire_tx_rings := (wire_tx_rings link)
                      (active := drop consumed (wire_tx_rings link active))\<rparr>,
               sent, \<not> fill < int claim))"

fun wire_tx_drain :: "(nat \<times> int) list \<Rightarrow> wire_link \<Rightarrow> wire_link \<times> bytes" where
  "wire_tx_drain [] link = (link, [])"
| "wire_tx_drain ((contiguous, fill) # fills) link =
     (let (link, sent, again) = wire_tx_pass contiguous fill link
      in if again then
           let (link, later) = wire_tx_drain fills link in (link, sent @ later)
         else (link, sent))"

text \<open>\<open>ring_buf_put\<close> stores what fits. A read of nothing ends the receive loop.\<close>

fun wire_rx_fill :: "bytes list \<Rightarrow> wire_link \<Rightarrow> wire_link \<times> bool" where
  "wire_rx_fill [] link = (link, False)"
| "wire_rx_fill (buffer # reads) link =
     (if buffer = [] then (link, False)
      else
        let space = WIRE_LINK_RX_RING_BYTES - length (wire_rx_ring link)
        in (fst (wire_rx_fill reads (link\<lparr>wire_rx_ring := wire_rx_ring link @ take space buffer\<rparr>)),
            True))"

text \<open>One interrupt: \<open>reads\<close> are the results of \<open>uart_fifo_read\<close> while
  \<open>uart_irq_rx_ready\<close> holds, \<open>fills\<close> those of the transmit loop while
  \<open>uart_irq_tx_ready\<close> holds. The second result is what was put on the wire.\<close>

definition wire_uart_isr ::
  "bool \<Rightarrow> bytes list \<Rightarrow> (nat \<times> int) list \<Rightarrow> u32 \<Rightarrow> wire_link \<Rightarrow> wire_link \<times> bytes" where
  "wire_uart_isr updated reads fills now link =
     (if \<not> updated then (link, [])
      else
        let (link, got_rx) = wire_rx_fill reads link;
            link = (if got_rx then link\<lparr>wire_peer_last_rx_uptime := now\<rparr> else link)
        in wire_tx_drain fills link)"

definition wire_link_enqueue ::
  "crc8 \<Rightarrow> wire_config \<Rightarrow> tx_ring \<Rightarrow> bytes option \<Rightarrow> nat \<Rightarrow> wire_link \<Rightarrow> wire_link \<times> status" where
  "wire_link_enqueue crc8_ccitt config ring payload payload_length link =
     (if \<not> wire_link_can_transmit config then (link, Err ENOTSUP)
      else
        case wire_frame_encode crc8_ccitt payload payload_length WIRE_FRAME_MAX_ENCODED of
          Inl e \<Rightarrow> (link, Err e)
        | Inr framed \<Rightarrow>
            if ring_capacity ring - length (wire_tx_rings link ring) < length framed
            then (link, Err ENOBUFS)
            else (link\<lparr>wire_tx_rings := (wire_tx_rings link)(ring := wire_tx_rings link ring @ framed),
                       uart_tx_irq := True\<rparr>, Ok))"

definition wire_link_send ::
  "crc8 \<Rightarrow> wire_config \<Rightarrow> tx_ring \<Rightarrow> bytes option \<Rightarrow> nat \<Rightarrow> wire_link \<Rightarrow> wire_link \<times> status" where
  "wire_link_send crc8_ccitt config ring payload payload_length link =
     (if payload_length > WIRE_FRAME_MAX_PAYLOAD then (link, Err EMSGSIZE)
      else wire_link_enqueue crc8_ccitt config ring payload payload_length link)"

definition wire_link_send_event ::
  "crc8 \<Rightarrow> wire_config \<Rightarrow> bytes \<Rightarrow> wire_link \<Rightarrow> wire_link \<times> status" where
  "wire_link_send_event crc8_ccitt config payload =
     wire_link_send crc8_ccitt config Event_ring (Some payload) (length payload)"

definition wire_link_send_input ::
  "crc8 \<Rightarrow> wire_config \<Rightarrow> bytes \<Rightarrow> wire_link \<Rightarrow> wire_link \<times> status" where
  "wire_link_send_input crc8_ccitt config payload =
     wire_link_send crc8_ccitt config Input_ring (Some payload) (length payload)"

text \<open>The payload is \<^const>\<open>None\<close> for the NULL of the keepalive tick.\<close>

definition wire_link_send_keepalive ::
  "crc8 \<Rightarrow> wire_config \<Rightarrow> bytes option \<Rightarrow> wire_link \<Rightarrow> wire_link \<times> status" where
  "wire_link_send_keepalive crc8_ccitt config payload =
     wire_link_send crc8_ccitt config Keepalive_ring payload
       (case payload of None \<Rightarrow> 0 | Some bytes \<Rightarrow> length bytes)"

definition wire_keepalive_fire :: "crc8 \<Rightarrow> wire_config \<Rightarrow> wire_link \<Rightarrow> wire_link" where
  "wire_keepalive_fire crc8_ccitt config link =
     (fst (wire_link_send_keepalive crc8_ccitt config None link))\<lparr>wire_keepalive_scheduled := True\<rparr>"

text \<open>The state of the file's static variables before \<open>wire_link_init\<close>.\<close>

definition wire_link_boot :: wire_link where
  "wire_link_boot = \<lparr>wire_rx_ring = [], wire_tx_rings = (\<lambda>_. []), wire_tx_frame_ring = None,
     wire_parser = parser_reset, wire_peer_last_rx_uptime = 0, wire_subscribed = False,
     uart_rx_irq = False, uart_tx_irq = False, wire_keepalive_scheduled = False\<rparr>"

definition wire_link_init :: "wire_config \<Rightarrow> bool \<Rightarrow> wire_link \<Rightarrow> wire_link \<times> status" where
  "wire_link_init config uart_ready link =
     (if \<not> uart_ready then (link, Err ENODEV)
      else
        let link = link\<lparr>uart_rx_irq := False, uart_tx_irq := False\<rparr>;
            link = (if wire_link_can_receive config then link\<lparr>uart_rx_irq := True\<rparr> else link);
            link = (if wire_link_can_transmit config then link\<lparr>wire_keepalive_scheduled := True\<rparr>
                    else link)
        in (link, Ok))"

section \<open>The receive ring\<close>

lemma wire_rx_fill_bounded:
  "length (wire_rx_ring link) \<le> WIRE_LINK_RX_RING_BYTES \<Longrightarrow>
   length (wire_rx_ring (fst (wire_rx_fill reads link))) \<le> WIRE_LINK_RX_RING_BYTES"
  by (induction reads link rule: wire_rx_fill.induct) (auto simp: Let_def)

text \<open>Draining the ring in chunks is one ingest of its contents.\<close>

lemma wire_process_ring_ingest:
  assumes "wire_process_ring crc link = (link', payloads)"
    and "wire_frame_parser_ingest crc (wire_parser link) (wire_rx_ring link) = (parser, delivered)"
  shows "link' = link\<lparr>wire_rx_ring := [], wire_parser := parser\<rparr> \<and>
    payloads = concat (map (wire_on_frame link) delivered)"
  using assms
proof (induction crc link arbitrary: link' payloads delivered rule: wire_process_ring.induct)
  case (1 crc link)
  define chunk where "chunk = take WIRE_LINK_CHUNK_BYTES (wire_rx_ring link)"
  define rest where "rest = drop WIRE_LINK_CHUNK_BYTES (wire_rx_ring link)"
  have split: "wire_rx_ring link = chunk @ rest"
    by (simp add: chunk_def rest_def)
  show ?case
  proof (cases "chunk = []")
    case True
    then have "wire_rx_ring link = []"
      by (auto simp: chunk_def WIRE_LINK_CHUNK_BYTES_def)
    then show ?thesis
      using "1.prems" by (cases link) (auto simp: wire_process_ring.simps)
  next
    case False
    obtain p1 d1 where i1: "wire_frame_parser_ingest crc (wire_parser link) chunk = (p1, d1)"
      by fastforce
    obtain d2 where i2: "wire_frame_parser_ingest crc p1 rest = (parser, d2)" "delivered = d1 @ d2"
      using wire_frame_parser_ingest_split [OF i1, of rest parser delivered] "1.prems"(2) split by auto
    define link1 where "link1 = link\<lparr>wire_rx_ring := rest, wire_parser := p1\<rparr>"
    obtain link2 later where r: "wire_process_ring crc link1 = (link2, later)" by fastforce
    have eq: "link' = link2" "payloads = concat (map (wire_on_frame link) d1) @ later"
      using "1.prems"(1) False i1 r
      by (auto simp: wire_process_ring.simps [of crc link] Let_def chunk_def [symmetric]
          rest_def [symmetric] link1_def wire_on_frame_def [abs_def] cong: if_cong)
    have "link2 = link1\<lparr>wire_rx_ring := [], wire_parser := parser\<rparr> \<and>
        later = concat (map (wire_on_frame link1) d2)"
    proof -
      have i1': "(p1, d1) = wire_frame_parser_ingest crc
          (wire_parser (link\<lparr>wire_rx_ring := drop WIRE_LINK_CHUNK_BYTES (wire_rx_ring link)\<rparr>))
          (take WIRE_LINK_CHUNK_BYTES (wire_rx_ring link))"
        using i1 by (simp add: chunk_def)
      show ?thesis
        using "1.IH" [OF refl refl _ refl i1' refl, of link2 later d2] False r i2
        by (simp add: chunk_def rest_def link1_def)
    qed
    then show ?thesis
      using eq i2(2) by (simp add: link1_def wire_on_frame_def [abs_def] cong: if_cong)
  qed
qed

section \<open>Frames on the wire\<close>

text \<open>A frame on the wire: its delimiter is its last byte and nowhere else.\<close>

definition is_frame :: "bytes \<Rightarrow> bool" where
  "is_frame framed \<longleftrightarrow> (\<exists>stuffed. framed = stuffed @ [0] \<and> 0 \<notin> set stuffed)"

text \<open>The frame the link sends for a payload it accepted.\<close>

definition framed_payload :: "crc8 \<Rightarrow> bytes \<Rightarrow> bytes" where
  "framed_payload crc8_ccitt payload =
     (case wire_frame_encode crc8_ccitt (Some payload) (length payload) WIRE_FRAME_MAX_ENCODED of
        Inl _ \<Rightarrow> [] | Inr framed \<Rightarrow> framed)"

text \<open>The transmit side as a transition system: senders enqueue frames, interrupts put
  bytes on the wire, in any order. The trace keeps what each ring accepted and what the
  wire carried.\<close>

record wire_trace =
  trace_link :: wire_link
  accepted :: "tx_ring \<Rightarrow> bytes list"
  on_wire :: bytes

definition trace_init :: wire_trace where
  "trace_init = \<lparr>trace_link = wire_link_boot, accepted = (\<lambda>_. []), on_wire = []\<rparr>"

inductive wire_step :: "crc8 \<Rightarrow> wire_config \<Rightarrow> wire_trace \<Rightarrow> wire_trace \<Rightarrow> bool"
  for crc config where
  Enqueue: "wire_link_send crc config ring (Some payload) (length payload) (trace_link t) = (link, Ok) \<Longrightarrow>
    wire_step crc config t (t\<lparr>trace_link := link,
      accepted := (accepted t)(ring := accepted t ring @ [payload])\<rparr>)"
| Pass: "wire_tx_pass contiguous fill (trace_link t) = (link, sent, again) \<Longrightarrow>
    fill \<le> int (min WIRE_LINK_CHUNK_BYTES contiguous) \<Longrightarrow>
    fill \<le> int (length (wire_tx_rings (trace_link t) (wire_tx_pick_ring (trace_link t)))) \<Longrightarrow> 0 < contiguous \<Longrightarrow>
    wire_step crc config t (t\<lparr>trace_link := link, on_wire := on_wire t @ sent\<rparr>)"
| Receive: "wire_rx_fill reads (trace_link t) = (link, got) \<Longrightarrow>
    wire_step crc config t (t\<lparr>trace_link := link\<lparr>wire_peer_last_rx_uptime := now\<rparr>\<rparr>)"

inductive_cases wire_stepE: "wire_step crc config t t'"

text \<open>What the wire carried is whole frames, each ring's in the order it accepted them,
  then the part of one frame. The frame in flight is of the ring the handler remembers.\<close>

definition wire_log_ok :: "crc8 \<Rightarrow> (tx_ring \<times> bytes) list \<Rightarrow> bytes \<Rightarrow> wire_trace \<Rightarrow> bool" where
  "wire_log_ok crc log partial t \<longleftrightarrow>
     on_wire t = concat (map snd log) @ partial \<and>
     (\<forall>entry \<in> set log. is_frame (snd entry)) \<and> 0 \<notin> set partial \<and>
     (wire_tx_frame_ring (trace_link t) = None \<longleftrightarrow> partial = []) \<and>
     (\<forall>ring. (\<forall>payload \<in> set (accepted t ring).
         is_frame (framed_payload crc payload) \<and>
         segment_payloads crc (butlast (framed_payload crc payload)) = [payload]) \<and>
       concat (map (framed_payload crc) (accepted t ring)) =
         concat (map snd (filter (\<lambda>entry. fst entry = ring) log)) @
         (if wire_tx_frame_ring (trace_link t) = Some ring then partial else []) @
         wire_tx_rings (trace_link t) ring)"

lemma wire_link_send_frame:
  assumes "wire_link_send crc config ring (Some payload) (length payload) link = (link', Ok)"
  shows "link' = link\<lparr>wire_tx_rings := (wire_tx_rings link)
             (ring := wire_tx_rings link ring @ framed_payload crc payload), uart_tx_irq := True\<rparr> \<and>
    is_frame (framed_payload crc payload) \<and>
    segment_payloads crc (butlast (framed_payload crc payload)) = [payload] \<and>
    length (wire_tx_rings link' ring) \<le> ring_capacity ring"
proof -
  obtain framed where "wire_frame_encode crc (Some payload) (length payload) WIRE_FRAME_MAX_ENCODED = Inr framed"
    using assms by (auto simp: wire_link_send_def wire_link_enqueue_def split: if_splits sum.splits)
  moreover from wire_frame_encode_frame [OF this] obtain stuffed where
    "framed = stuffed @ [0]" "0 \<notin> set stuffed" "segment_payloads crc stuffed = [payload]"
    by blast
  ultimately show ?thesis
    using assms
    by (auto simp: wire_link_send_def wire_link_enqueue_def is_frame_def framed_payload_def
        split: if_splits)
qed

text \<open>One byte at a time keeps the log: it extends the frame in flight or closes it.\<close>

lemma wire_log_byte:
  assumes ok: "wire_log_ok crc log partial t" and ring: "wire_tx_rings (trace_link t) ring = byte # rest"
    and pick: "wire_tx_frame_ring (trace_link t) = None \<or> wire_tx_frame_ring (trace_link t) = Some ring"
  shows "\<exists>log partial. wire_log_ok crc log partial (t\<lparr>
    trace_link := (trace_link t)\<lparr>
      wire_tx_frame_ring := (if byte = WIRE_FRAME_DELIMITER then None else Some ring),
      wire_tx_rings := (wire_tx_rings (trace_link t))(ring := rest)\<rparr>,
    on_wire := on_wire t @ [byte]\<rparr>)"
proof (cases "byte = 0")
  case True
  then show ?thesis
    using assms
    by (intro exI [of _ "log @ [(ring, partial @ [0])]"] exI [of _ "[]"])
       (auto simp: wire_log_ok_def is_frame_def)
next
  case False
  then show ?thesis
    using assms
    by (intro exI [of _ log] exI [of _ "partial @ [byte]"]) (auto simp: wire_log_ok_def)
qed

lemma wire_log_bytes:
  assumes "wire_log_ok crc log partial t" and "wire_tx_rings (trace_link t) ring = sent @ rest"
    and "wire_tx_frame_ring (trace_link t) = None \<or> wire_tx_frame_ring (trace_link t) = Some ring"
  shows "\<exists>log partial. wire_log_ok crc log partial (t\<lparr>
    trace_link := (trace_link t)\<lparr>
      wire_tx_frame_ring := wire_tx_track_frame ring sent (wire_tx_frame_ring (trace_link t)),
      wire_tx_rings := (wire_tx_rings (trace_link t))(ring := rest)\<rparr>,
    on_wire := on_wire t @ sent\<rparr>)"
  using assms
proof (induction sent arbitrary: log partial t)
  case Nil
  then show ?case by (intro exI [of _ log] exI [of _ partial]) (auto simp: wire_log_ok_def)
next
  case (Cons byte sent)
  define frame_ring where "frame_ring = (if byte = WIRE_FRAME_DELIMITER then None else Some ring)"
  define t1 where "t1 = t\<lparr>
    trace_link := (trace_link t)\<lparr>
      wire_tx_frame_ring := frame_ring,
      wire_tx_rings := (wire_tx_rings (trace_link t))(ring := sent @ rest)\<rparr>,
    on_wire := on_wire t @ [byte]\<rparr>"
  obtain log1 partial1 where "wire_log_ok crc log1 partial1 t1"
    using wire_log_byte [OF Cons.prems(1), of ring byte "sent @ rest"] Cons.prems(2,3)
    by (auto simp: t1_def frame_ring_def)
  moreover have "frame_ring = None \<or> frame_ring = Some ring"
    by (simp add: frame_ring_def)
  ultimately show ?case
    using Cons.IH [of log1 partial1 t1] by (simp add: t1_def frame_ring_def [symmetric] cong: if_cong)
qed

lemma wire_tx_pick_ring_least:
  assumes "wire_tx_frame_ring link = None"
  shows "ring < wire_tx_pick_ring link \<Longrightarrow> wire_tx_rings link ring = []"
  using assms by (cases ring) (auto simp: wire_tx_pick_ring_def ring_order split: if_splits)

lemma wire_tx_pick_ring_keeps_frame:
  "wire_tx_frame_ring link = None \<or> wire_tx_frame_ring link = Some (wire_tx_pick_ring link)"
  by (auto simp: wire_tx_pick_ring_def split: option.splits)

lemma wire_log_pass:
  assumes ok: "wire_log_ok crc log partial t"
    and pass: "wire_tx_pass contiguous fill (trace_link t) = (link, sent, again)"
    and fill: "fill \<le> int (min WIRE_LINK_CHUNK_BYTES contiguous)"
      "fill \<le> int (length (wire_tx_rings (trace_link t) (wire_tx_pick_ring (trace_link t))))"
  shows "\<exists>log partial. wire_log_ok crc log partial (t\<lparr>trace_link := link, on_wire := on_wire t @ sent\<rparr>)"
proof -
  define ring where "ring = wire_tx_pick_ring (trace_link t)"
  define content where "content = wire_tx_rings (trace_link t) ring"
  define chunk where "chunk = take (min WIRE_LINK_CHUNK_BYTES contiguous) content"
  show ?thesis
  proof (cases "chunk = []")
    case True
    then have "link = (trace_link t)\<lparr>uart_tx_irq := False\<rparr>" "sent = []"
      using pass by (auto simp: wire_tx_pass_def Let_def chunk_def content_def ring_def)
    then show ?thesis
      using ok by (intro exI [of _ log] exI [of _ partial]) (simp add: wire_log_ok_def)
  next
    case False
    have sent: "sent = take (nat fill) content"
      and link: "link = (trace_link t)\<lparr>
        wire_tx_frame_ring := wire_tx_track_frame ring (take (nat fill) content) (wire_tx_frame_ring (trace_link t)),
        wire_tx_rings := (wire_tx_rings (trace_link t))(ring := drop (nat fill) content)\<rparr>"
      using pass False fill
      by (auto simp: wire_tx_pass_def Let_def chunk_def content_def ring_def min_def max_def
          split: if_splits)
    show ?thesis
      using wire_log_bytes [OF ok, of ring "take (nat fill) content" "drop (nat fill) content"]
        wire_tx_pick_ring_keeps_frame [of "trace_link t"]
      by (simp add: sent link content_def ring_def)
  qed
qed

lemma wire_log_enqueue:
  assumes "wire_log_ok crc log partial t"
    and "wire_link_send crc config ring (Some payload) (length payload) (trace_link t) = (link, Ok)"
  shows "wire_log_ok crc log partial (t\<lparr>trace_link := link,
    accepted := (accepted t)(ring := accepted t ring @ [payload])\<rparr>)"
  using wire_link_send_frame [OF assms(2)] assms(1) by (auto simp: wire_log_ok_def)

lemma wire_rx_fill_tx:
  "wire_rx_fill reads link = (link', got) \<Longrightarrow>
   wire_tx_rings link' = wire_tx_rings link \<and> wire_tx_frame_ring link' = wire_tx_frame_ring link \<and>
   uart_tx_irq link' = uart_tx_irq link"
proof (induction reads link arbitrary: link' got rule: wire_rx_fill.induct)
  case (2 buffer reads link)
  then show ?case
    by (cases "wire_rx_fill reads (link\<lparr>wire_rx_ring := wire_rx_ring link @
          take (WIRE_LINK_RX_RING_BYTES - length (wire_rx_ring link)) buffer\<rparr>)")
       (auto simp: Let_def split: if_splits)
qed simp

lemma wire_log_step:
  assumes "wire_step crc config t t'" and "wire_log_ok crc log partial t"
  shows "\<exists>log partial. wire_log_ok crc log partial t'"
  using assms(1)
proof (cases rule: wire_step.cases)
  case (Enqueue ring payload link)
  then show ?thesis using wire_log_enqueue [OF assms(2)] by blast
next
  case (Pass contiguous fill link sent again)
  then show ?thesis using wire_log_pass [OF assms(2)] by blast
next
  case (Receive reads link got now)
  then show ?thesis
    using assms(2) wire_rx_fill_tx
    by (intro exI [of _ log] exI [of _ partial]) (auto simp: wire_log_ok_def)
qed

lemma wire_log_init: "wire_log_ok crc [] [] trace_init"
  by (simp add: wire_log_ok_def trace_init_def wire_link_boot_def)

lemma wire_log_reachable:
  assumes "(wire_step crc config)\<^sup>*\<^sup>* trace_init t"
  shows "\<exists>log partial. wire_log_ok crc log partial t"
  using assms
proof (induction rule: rtranclp_induct)
  case base
  then show ?case using wire_log_init by blast
next
  case (step t t')
  then show ?case using wire_log_step by blast
qed

text \<open>A stream cut at the delimiters has one reading.\<close>

lemma frames_prefix:
  assumes "concat fs = concat gs @ rest" "\<forall>f \<in> set fs. is_frame f" "\<forall>g \<in> set gs. is_frame g"
  shows "\<exists>k. gs = take k fs \<and> rest = concat (drop k fs)"
  using assms
proof (induction gs arbitrary: fs)
  case Nil
  then show ?case by (intro exI [of _ 0]) simp
next
  case (Cons g gs)
  obtain sg where sg: "g = sg @ [0]" "0 \<notin> set sg"
    using Cons.prems(3) by (auto simp: is_frame_def)
  obtain f fs' where fs: "fs = f # fs'"
    using Cons.prems(1) sg by (cases fs) auto
  obtain sf where sf: "f = sf @ [0]" "0 \<notin> set sf"
    using Cons.prems(2) fs by (auto simp: is_frame_def)
  have cut: "sf @ 0 # concat fs' = sg @ 0 # (concat gs @ rest)"
    using Cons.prems(1) fs sf sg by simp
  have before: "takeWhile (\<lambda>b. b \<noteq> 0) (xs @ 0 # ys) = xs" if "0 \<notin> set xs" for xs ys :: bytes
    using that by (induction xs) auto
  have "sf = sg"
    using before [of sf "concat fs'"] before [of sg "concat gs @ rest"] cut sf sg by simp
  then have "sf = sg" "concat fs' = concat gs @ rest"
    using cut by auto
  with Cons.IH [of fs'] Cons.prems fs sf sg obtain k where "gs = take k fs'" "rest = concat (drop k fs')"
    by auto
  then show ?case
    using fs sf sg \<open>sf = sg\<close> by (intro exI [of _ "Suc k"]) simp
qed

lemma wire_log_rings:
  assumes ok: "wire_log_ok crc log partial t"
  shows "\<exists>k. map snd (filter (\<lambda>entry. fst entry = ring) log) =
      take k (map (framed_payload crc) (accepted t ring)) \<and>
    (wire_tx_rings (trace_link t) ring = [] \<longrightarrow> wire_tx_frame_ring (trace_link t) \<noteq> Some ring \<longrightarrow>
      take k (accepted t ring) = accepted t ring)"
proof -
  define fs where "fs = map (framed_payload crc) (accepted t ring)"
  define gs where "gs = map snd (filter (\<lambda>entry. fst entry = ring) log)"
  define rest where "rest = (if wire_tx_frame_ring (trace_link t) = Some ring then partial else []) @
    wire_tx_rings (trace_link t) ring"
  have "concat fs = concat gs @ rest" and frames: "\<forall>f \<in> set fs. is_frame f" "\<forall>g \<in> set gs. is_frame g"
    using ok by (auto simp: wire_log_ok_def fs_def gs_def rest_def)
  then obtain k where k: "gs = take k fs" "rest = concat (drop k fs)"
    using frames_prefix by blast
  have "take k (accepted t ring) = accepted t ring" if "rest = []"
  proof -
    have "\<forall>f \<in> set (drop k fs). f = [] \<and> is_frame f"
      using k(2) that frames(1) by (auto dest: in_set_dropD)
    then have "drop k fs = []"
      by (cases "drop k fs") (auto simp: is_frame_def)
    then show ?thesis by (simp add: fs_def)
  qed
  then show ?thesis
    using k by (intro exI [of _ k]) (auto simp: fs_def gs_def rest_def)
qed

lemma delimited_stuffed:
  assumes "\<forall>f \<in> set fs. is_frame f"
  shows "concat fs = delimited (map butlast fs) \<and> (\<forall>s \<in> set (map butlast fs). 0 \<notin> set s)"
  using assms by (induction fs) (auto simp: is_frame_def)

text \<open>Each frame of the log is one payload to the parser.\<close>

lemma wire_log_payload:
  assumes ok: "wire_log_ok crc log partial t" and "entry \<in> set log"
  shows "segment_payloads crc (butlast (snd entry)) = [hd (segment_payloads crc (butlast (snd entry)))]"
proof -
  obtain ring f where entry: "entry = (ring, f)" by (cases entry)
  have "f \<in> set (map snd (filter (\<lambda>entry. fst entry = ring) log))"
    using assms(2) entry by force
  then obtain k where "f \<in> set (take k (map (framed_payload crc) (accepted t ring)))"
    using wire_log_rings [OF ok, of ring] by metis
  then obtain payload where "payload \<in> set (accepted t ring)" "f = framed_payload crc payload"
    by (metis in_set_takeD imageE set_map)
  then show ?thesis using ok by (auto simp: wire_log_ok_def entry)
qed

text \<open>The payloads of a ring's frames are those the ring accepted.\<close>

lemma wire_log_accepted:
  assumes ok: "wire_log_ok crc log partial t"
  shows "\<exists>k. map (\<lambda>f. hd (segment_payloads crc (butlast f))) (map snd (filter (\<lambda>entry. fst entry = ring) log)) =
      take k (accepted t ring) \<and>
    (wire_tx_rings (trace_link t) ring = [] \<longrightarrow> wire_tx_frame_ring (trace_link t) \<noteq> Some ring \<longrightarrow>
      take k (accepted t ring) = accepted t ring)"
proof -
  obtain k where k: "map snd (filter (\<lambda>entry. fst entry = ring) log) = take k (map (framed_payload crc) (accepted t ring))"
    "wire_tx_rings (trace_link t) ring = [] \<longrightarrow> wire_tx_frame_ring (trace_link t) \<noteq> Some ring \<longrightarrow>
      take k (accepted t ring) = accepted t ring"
    using wire_log_rings [OF ok, of ring] by blast
  have "map (\<lambda>f. hd (segment_payloads crc (butlast f))) (take k (map (framed_payload crc) (accepted t ring))) =
      take k (accepted t ring)"
    using ok by (auto simp: wire_log_ok_def take_map intro!: map_idI dest!: in_set_takeD)
  then show ?thesis using k by (intro exI [of _ k]) simp
qed

lemma wire_log_delivered:
  assumes ok: "wire_log_ok crc log partial t"
    and "wire_frame_parser_ingest crc parser_reset (on_wire t) = (parser, delivered)"
  shows "\<exists>log'. delivered = map snd log' \<and> (\<forall>ring. map snd (filter (\<lambda>e. fst e = ring) log') =
    map (\<lambda>f. hd (segment_payloads crc (butlast f))) (map snd (filter (\<lambda>e. fst e = ring) log)))"
proof -
  define payload_of where "payload_of f = hd (segment_payloads crc (butlast f))" for f
  have one: "segment_payloads crc (butlast f) = [payload_of f]" if "(ring, f) \<in> set log" for ring f
    using wire_log_payload [OF ok that] by (simp add: payload_of_def)
  have frames: "\<forall>f \<in> set (map snd log). is_frame f" and partial: "0 \<notin> set partial"
    and wire: "on_wire t = concat (map snd log) @ partial"
    using ok by (auto simp: wire_log_ok_def)
  have "delivered = concat (map (segment_payloads crc) (map butlast (map snd log)))"
    using wire_frame_parser_ingest_refines [OF parser_ok_reset(1) assms(2)] wire partial
      delimited_stuffed [OF frames] cut_bytes_delimited [of "map butlast (map snd log)" crc]
      cut_bytes_segment [OF partial, of "[]" crc]
    by (auto simp: cut_bytes_append split: if_splits)
  also have "\<dots> = concat (map (\<lambda>e. [payload_of (snd e)]) log)"
    using one by (intro arg_cong [where f = concat]) (auto simp: case_prod_beta)
  also have "\<dots> = map snd (map (\<lambda>(ring, f). (ring, payload_of f)) log)"
    by (induction log) auto
  finally show ?thesis
    by (intro exI [of _ "map (\<lambda>(ring, f). (ring, payload_of f)) log"])
       (auto simp: filter_map o_def case_prod_beta payload_of_def)
qed

text \<open>Interrupts and senders interleaving in any order never splice two frames: at every
  reachable state the peer's parser, fed what the wire carried, has delivered an interleaving of
  payloads in which each transmit ring's payloads are a prefix of those it accepted, in order,
  and all of them once the ring is drained.\<close>

lemma wire_link_delivers:
  assumes "(wire_step crc config)\<^sup>*\<^sup>* trace_init t"
    and "wire_frame_parser_ingest crc parser_reset (on_wire t) = (parser, delivered)"
  shows "\<exists>log. delivered = map snd log \<and>
    (\<forall>ring. \<exists>k. map snd (filter (\<lambda>entry. fst entry = ring) log) = take k (accepted t ring) \<and>
      (wire_tx_rings (trace_link t) ring = [] \<longrightarrow> wire_tx_frame_ring (trace_link t) \<noteq> Some ring \<longrightarrow>
        map snd (filter (\<lambda>entry. fst entry = ring) log) = accepted t ring))"
proof -
  obtain log partial where ok: "wire_log_ok crc log partial t"
    using wire_log_reachable [OF assms(1)] by blast
  from wire_log_delivered [OF ok assms(2)] obtain log' where
    d: "delivered = map snd log'" "\<forall>ring. map snd (filter (\<lambda>e. fst e = ring) log') =
      map (\<lambda>f. hd (segment_payloads crc (butlast f))) (map snd (filter (\<lambda>e. fst e = ring) log))"
    by blast
  show ?thesis
  proof (intro exI [of _ log'] conjI allI)
    fix ring
    obtain k where "map snd (filter (\<lambda>entry. fst entry = ring) log') = take k (accepted t ring)"
      "wire_tx_rings (trace_link t) ring = [] \<longrightarrow> wire_tx_frame_ring (trace_link t) \<noteq> Some ring \<longrightarrow>
        take k (accepted t ring) = accepted t ring"
      using wire_log_accepted [OF ok, of ring] d(2) by auto
    then show "\<exists>k. map snd (filter (\<lambda>entry. fst entry = ring) log') = take k (accepted t ring) \<and>
      (wire_tx_rings (trace_link t) ring = [] \<longrightarrow> wire_tx_frame_ring (trace_link t) \<noteq> Some ring \<longrightarrow>
        map snd (filter (\<lambda>entry. fst entry = ring) log') = accepted t ring)"
      by (intro exI [of _ k]) simp
  qed (rule d(1))
qed

end
