(* ===== verification/Wire_Loss.thy ===== *)
theory Wire_Loss
  imports Wire_Link "HOL-Library.Sublist"
begin

text \<open>
  What the receiver of \<open>src/wire_link.c\<close> makes of a stream of frames when its receive ring
  overflows: \<open>ring_buf_put\<close> keeps what fits and the rest of the interrupt's bytes is gone. Each
  overrun splices at most one segment that was never sent; the others are frames of the sender, in
  its order, each at most once. No definition here models code.
\<close>

section \<open>Streams cut at the delimiters\<close>

lemma cut_exists:
  "\<exists>segments rest. bytes = delimited segments @ rest \<and> (\<forall>s \<in> set segments. 0 \<notin> set s) \<and> 0 \<notin> set rest \<and>
     length segments = count_list bytes 0"
proof (induction bytes rule: rev_induct)
  case Nil
  show ?case by (intro exI [of _ "[]"]) simp
next
  case (snoc b bytes)
  then obtain segments rest where cut: "bytes = delimited segments @ rest" "\<forall>s \<in> set segments. 0 \<notin> set s" "0 \<notin> set rest"
    "length segments = count_list bytes 0" by blast
  show ?case
  proof (cases "b = 0")
    case True
    then show ?thesis
      using cut by (intro exI [of _ "segments @ [rest]"] exI [of _ "[]"]) auto
  next
    case False
    then show ?thesis
      using cut by (intro exI [of _ segments] exI [of _ "rest @ [b]"]) auto
  qed
qed

lemma delimited_prefix:
  assumes "delimited xs @ x = delimited ys @ y" and "\<forall>s \<in> set xs. 0 \<notin> set s" "\<forall>s \<in> set ys. 0 \<notin> set s" "0 \<notin> set x"
  shows "\<exists>k. ys = take k xs \<and> y = delimited (drop k xs) @ x"
  using assms
proof (induction ys arbitrary: xs)
  case Nil
  then show ?case by (intro exI [of _ 0]) simp
next
  case (Cons s ys)
  then obtain s' xs' where xs: "xs = s' # xs'" by (cases xs) auto
  have before: "takeWhile (\<lambda>b. b \<noteq> 0) (z @ 0 # zs) = z" if "0 \<notin> set z" for z zs :: bytes
    using that by (induction z) auto
  have "s' @ 0 # (delimited xs' @ x) = s @ 0 # (delimited ys @ y)" "0 \<notin> set s'" "0 \<notin> set s"
    using Cons.prems by (simp_all add: xs)
  then have "s' = s" using before by metis
  then have "delimited xs' @ x = delimited ys @ y" using Cons.prems(1) by (simp add: xs)
  then obtain k where "ys = take k xs'" "y = delimited (drop k xs') @ x"
    using Cons.IH [of xs'] Cons.prems xs by auto
  then show ?case
    using \<open>s' = s\<close> by (intro exI [of _ "Suc k"]) (simp add: xs)
qed

section \<open>A stream with bytes lost\<close>

text \<open>The bytes carried, those of them that survived, the overruns and the bytes they lost.\<close>

inductive carries :: "bytes \<Rightarrow> bytes \<Rightarrow> nat \<Rightarrow> nat \<Rightarrow> bool" where
  Nothing: "carries [] [] 0 0"
| Kept: "carries carried survived overruns lost \<Longrightarrow> carries (carried @ bytes) (survived @ bytes) overruns lost"
| Overrun: "carries carried survived overruns lost \<Longrightarrow> bytes \<noteq> [] \<Longrightarrow>
    carries (carried @ bytes) survived (Suc overruns) (lost + length bytes)"

lemma carries_intact:
  assumes "carries carried survived overruns lost"
  shows "overruns = 0 \<longrightarrow> survived = carried \<and> lost = 0"
  using assms by (induction rule: carries.induct) simp_all

text \<open>The segments that survived, each with whether it is a segment carried: those that are make a
  subsequence of the segments carried, and the spliced ones number no more than the overruns, the
  open one among them where it differs from the one being carried.\<close>

definition spliced_ok :: "bytes \<Rightarrow> bytes \<Rightarrow> nat \<Rightarrow> nat \<Rightarrow> (bool \<times> bytes) list \<Rightarrow> bytes \<Rightarrow> bytes list \<Rightarrow> bytes \<Rightarrow> bool" where
  "spliced_ok carried survived overruns lost tagged open_kept segments open_carried \<longleftrightarrow>
     survived = delimited (map snd tagged) @ open_kept \<and> (\<forall>s \<in> snd ` set tagged. 0 \<notin> set s) \<and> 0 \<notin> set open_kept \<and>
     carried = delimited segments @ open_carried \<and> (\<forall>s \<in> set segments. 0 \<notin> set s) \<and> 0 \<notin> set open_carried \<and>
     subseq (map snd (filter fst tagged)) segments \<and>
     length (filter (\<lambda>t. \<not> fst t) tagged) + (if open_kept = open_carried then 0 else 1) \<le> overruns \<and>
     length segments \<le> length tagged + lost"

lemma spliced_byte:
  assumes "spliced_ok carried survived overruns lost tagged open_kept segments open_carried"
  shows "\<exists>tagged open_kept segments open_carried.
    spliced_ok (carried @ [b]) (survived @ [b]) overruns lost tagged open_kept segments open_carried"
proof (cases "b = 0")
  case True
  define tag where "tag = (open_kept = open_carried, open_kept)"
  have "subseq (map snd (filter fst (tagged @ [tag]))) (segments @ [open_carried])"
    using assms by (auto simp: spliced_ok_def tag_def intro: subseq_rev_drop_many)
  then show ?thesis
    using assms True unfolding spliced_ok_def
    by (intro exI [of _ "tagged @ [tag]"] exI [of _ "[]"] exI [of _ "segments @ [open_carried]"])
      (auto simp: tag_def split: if_splits)
next
  case False
  then show ?thesis
    using assms unfolding spliced_ok_def
    by (intro exI [of _ tagged] exI [of _ "open_kept @ [b]"] exI [of _ segments] exI [of _ "open_carried @ [b]"])
      (auto split: if_splits)
qed

lemma spliced_kept:
  assumes "spliced_ok carried survived overruns lost tagged open_kept segments open_carried"
  shows "\<exists>tagged open_kept segments open_carried.
    spliced_ok (carried @ bytes) (survived @ bytes) overruns lost tagged open_kept segments open_carried"
proof (induction bytes rule: rev_induct)
  case Nil
  then show ?case using assms by auto
next
  case (snoc b bytes)
  then obtain tagged open_kept segments open_carried where
    "spliced_ok (carried @ bytes) (survived @ bytes) overruns lost tagged open_kept segments open_carried" by blast
  from spliced_byte [OF this, of b] show ?case by simp
qed

lemma spliced_overrun:
  assumes "spliced_ok carried survived overruns lost tagged open_kept segments open_carried"
  shows "\<exists>segments open_carried.
    spliced_ok (carried @ bytes) survived (Suc overruns) (lost + length bytes) tagged open_kept segments open_carried"
proof -
  obtain more rest where cut: "open_carried @ bytes = delimited more @ rest" "\<forall>s \<in> set more. 0 \<notin> set s" "0 \<notin> set rest"
    "length more = count_list (open_carried @ bytes) 0"
    using cut_exists by blast
  have "count_list open_carried 0 = 0"
    using assms by (simp add: spliced_ok_def count_list_0_iff)
  then have "length more \<le> length bytes"
    using cut(4) count_le_length [of bytes 0] by simp
  then show ?thesis
    using assms cut(1-3) unfolding spliced_ok_def
    by (intro exI [of _ "segments @ more"] exI [of _ rest]) (auto intro: subseq_rev_drop_many split: if_splits)
qed

lemma carries_spliced:
  assumes "carries carried survived overruns lost"
  shows "\<exists>tagged open_kept segments open_carried.
    spliced_ok carried survived overruns lost tagged open_kept segments open_carried"
  using assms
proof (induction rule: carries.induct)
  case Nothing
  show ?case by (intro exI [of _ "[]"]) (simp add: spliced_ok_def)
next
  case (Kept carried survived overruns lost bytes)
  then show ?case using spliced_kept by blast
next
  case (Overrun carried survived overruns lost bytes)
  then show ?case using spliced_overrun by blast
qed

section \<open>What the parser delivers of it\<close>

text \<open>The frames a prefix of the survivors holds, and the payloads the parser makes of them: those
  of frames sent carry their ring, those of spliced segments none.\<close>

lemma segment_payloads_few: "length (segment_payloads crc s) \<le> 1"
  by (auto simp: segment_payloads_def frame_payload_def split: option.splits)

lemma filter_tags [simp]:
  "filter (\<lambda>e. fst e = None) (map (Pair None) ps) = map (Pair None) ps"
  "filter (\<lambda>e. fst e \<noteq> None) (map (Pair None) ps) = []"
  by (induction ps) simp_all

lemma tag_payloads:
  assumes "map (\<lambda>entry. butlast (snd entry)) log = map snd (filter fst tagged)"
    and "\<forall>entry \<in> set log. segment_payloads crc (butlast (snd entry)) = [payload_of (snd entry)]"
  shows "\<exists>got :: (tx_ring option \<times> bytes) list. map snd got = concat (map (segment_payloads crc) (map snd tagged)) \<and>
    length (filter (\<lambda>e. fst e = None) got) \<le> length (filter (\<lambda>t. \<not> fst t) tagged) \<and>
    filter (\<lambda>e. fst e \<noteq> None) got = map (\<lambda>(ring, framed). (Some ring, payload_of framed)) log"
  using assms
proof (induction tagged arbitrary: log)
  case Nil
  then show ?case by (intro exI [of _ "[]"]) simp
next
  case (Cons tag tagged)
  obtain genuine s where tag: "tag = (genuine, s)" by (cases tag)
  show ?case
  proof (cases genuine)
    case True
    then obtain ring framed log' where log: "log = (ring, framed) # log'" "butlast framed = s"
      using Cons.prems(1) by (cases log) (auto simp: tag)
    then obtain got where "map snd got = concat (map (segment_payloads crc) (map snd tagged))"
      "length (filter (\<lambda>e. fst e = None) got) \<le> length (filter (\<lambda>t. \<not> fst t) tagged)"
      "filter (\<lambda>e. fst e \<noteq> None) got = map (\<lambda>(ring, framed). (Some ring, payload_of framed)) log'"
      using Cons.IH [of log'] Cons.prems True by (auto simp: tag)
    then show ?thesis
      using Cons.prems(2) True log by (intro exI [of _ "(Some ring, payload_of framed) # got"]) (simp add: tag)
  next
    case False
    then obtain got where "map snd got = concat (map (segment_payloads crc) (map snd tagged))"
      "length (filter (\<lambda>e. fst e = None) got) \<le> length (filter (\<lambda>t. \<not> fst t) tagged)"
      "filter (\<lambda>e. fst e \<noteq> None) got = map (\<lambda>(ring, framed). (Some ring, payload_of framed)) log"
      using Cons.IH [of log] Cons.prems by (auto simp: tag)
    then show ?thesis
      using False segment_payloads_few [of crc s]
      by (intro exI [of _ "map (Pair None) (segment_payloads crc s) @ got"]) (simp add: tag o_def)
  qed
qed

end
