(* ===== verification/Wire_Path.thy ===== *)
theory Wire_Path
  imports Wire_Loss
begin

text \<open>
  Both ends of the wire (\<open>src/wire_link.c\<close>): the sender's trace, the bytes of it the
  receiver's interrupts read, its receive ring and thread, and what the subscription got, in
  every interleaving. Both ends run the same code; what the receiver sends is steps of its own
  that do not touch its receive side.
\<close>

record wire_pair =
  pair_sender :: wire_trace
  pair_carried :: nat
  pair_receiver :: wire_link
  handed_over :: "bytes list"
  pair_overruns :: nat
  pair_dropped :: nat

definition pair_init :: wire_pair where
  "pair_init = \<lparr>pair_sender = trace_init, pair_carried = 0,
     pair_receiver = wire_link_register_rx True wire_link_boot, handed_over = [], pair_overruns = 0, pair_dropped = 0\<rparr>"

text \<open>The bytes on the wire the receiver has not read.\<close>

definition in_flight :: "wire_pair \<Rightarrow> bytes" where
  "in_flight w = drop (pair_carried w) (on_wire (pair_sender w))"

text \<open>The bytes an interrupt drops: \<open>ring_buf_put\<close> takes what fits.\<close>

definition rx_lost :: "bytes list \<Rightarrow> wire_link \<Rightarrow> bytes" where
  "rx_lost reads link = drop (WIRE_LINK_RX_RING_BYTES - length (wire_rx_ring link)) (concat reads)"

text \<open>An interrupt of the receiver reads the next bytes in flight; a read of nothing ends its loop.
  Where the ring has no room for them all the rest is gone, an overrun.\<close>

inductive pair_step :: "crc8 \<Rightarrow> wire_config \<Rightarrow> wire_config \<Rightarrow> wire_pair \<Rightarrow> wire_pair \<Rightarrow> bool"
  for crc config receiver_config where
  Sender: "wire_step crc config (pair_sender w) t \<Longrightarrow>
    pair_step crc config receiver_config w (w\<lparr>pair_sender := t\<rparr>)"
| Carry: "wire_rx_fill reads (pair_receiver w) = (link, got) \<Longrightarrow> [] \<notin> set reads \<Longrightarrow>
    in_flight w = concat reads @ later \<Longrightarrow>
    pair_step crc config receiver_config w (w\<lparr>pair_carried := pair_carried w + length (concat reads),
      pair_receiver := if got then link\<lparr>wire_peer_last_rx_uptime := now\<rparr> else link,
      pair_overruns := pair_overruns w + (if rx_lost reads (pair_receiver w) = [] then 0 else 1),
      pair_dropped := pair_dropped w + length (rx_lost reads (pair_receiver w))\<rparr>)"
| Drain: "wire_process_ring crc (pair_receiver w) = (link, payloads) \<Longrightarrow>
    pair_step crc config receiver_config w (w\<lparr>pair_receiver := link, handed_over := handed_over w @ payloads\<rparr>)"
| Answer: "wire_link_send crc receiver_config ring payload payload_length (pair_receiver w) = (link, result) \<Longrightarrow>
    pair_step crc config receiver_config w (w\<lparr>pair_receiver := link\<rparr>)"
| Transmit: "wire_tx_pass contiguous fill (pair_receiver w) = (link, sent, again) \<Longrightarrow>
    pair_step crc config receiver_config w (w\<lparr>pair_receiver := link\<rparr>)"

section \<open>The receive side\<close>

lemma wire_rx_fill_take:
  assumes "[] \<notin> set reads" and "length (wire_rx_ring link) \<le> WIRE_LINK_RX_RING_BYTES"
  shows "fst (wire_rx_fill reads link) =
    link\<lparr>wire_rx_ring := take WIRE_LINK_RX_RING_BYTES (wire_rx_ring link @ concat reads)\<rparr>"
  using assms
proof (induction reads arbitrary: link)
  case (Cons buffer reads)
  define room where "room = WIRE_LINK_RX_RING_BYTES - length (wire_rx_ring link)"
  define link1 where "link1 = link\<lparr>wire_rx_ring := wire_rx_ring link @ take room buffer\<rparr>"
  have "length (wire_rx_ring link1) \<le> WIRE_LINK_RX_RING_BYTES"
    using Cons.prems(2) by (simp add: link1_def room_def)
  moreover have "fst (wire_rx_fill (buffer # reads) link) = fst (wire_rx_fill reads link1)"
    using Cons.prems(1) by (auto simp: link1_def room_def Let_def)
  moreover have "take WIRE_LINK_RX_RING_BYTES (wire_rx_ring link1 @ concat reads) =
      take WIRE_LINK_RX_RING_BYTES (wire_rx_ring link @ concat (buffer # reads))"
    using Cons.prems(2) by (cases "length buffer \<le> room") (simp_all add: link1_def room_def)
  ultimately show ?case
    using Cons.IH [of link1] Cons.prems(1) by (simp add: link1_def)
qed simp

lemma wire_rx_fill_split:
  assumes "[] \<notin> set reads" and "length (wire_rx_ring link) \<le> WIRE_LINK_RX_RING_BYTES"
  obtains kept where "concat reads = kept @ rx_lost reads link"
    and "fst (wire_rx_fill reads link) = link\<lparr>wire_rx_ring := wire_rx_ring link @ kept\<rparr>"
    and "length (wire_rx_ring link @ kept) \<le> WIRE_LINK_RX_RING_BYTES"
proof
  define room where "room = WIRE_LINK_RX_RING_BYTES - length (wire_rx_ring link)"
  show "concat reads = take room (concat reads) @ rx_lost reads link"
    by (simp add: rx_lost_def room_def)
  show "fst (wire_rx_fill reads link) = link\<lparr>wire_rx_ring := wire_rx_ring link @ take room (concat reads)\<rparr>"
    using wire_rx_fill_take [OF assms] assms(2) by (simp add: room_def)
  show "length (wire_rx_ring link @ take room (concat reads)) \<le> WIRE_LINK_RX_RING_BYTES"
    using assms(2) by (simp add: room_def)
qed

lemma wire_on_frame_subscribed:
  "wire_subscribed link \<Longrightarrow> concat (map (wire_on_frame link) payloads) = filter (\<lambda>payload. payload \<noteq> []) payloads"
  by (induction payloads) (auto simp: wire_on_frame_def)

lemma wire_link_send_receive:
  assumes "wire_link_send crc config ring payload payload_length link = (link', result)"
  shows "wire_rx_ring link' = wire_rx_ring link" "wire_parser link' = wire_parser link"
    "wire_subscribed link' = wire_subscribed link"
  using assms by (auto simp: wire_link_send_def wire_link_enqueue_def split: if_splits sum.splits)

lemma wire_tx_pass_receive:
  assumes "wire_tx_pass contiguous fill link = (link', sent, again)"
  shows "wire_rx_ring link' = wire_rx_ring link" "wire_parser link' = wire_parser link"
    "wire_subscribed link' = wire_subscribed link"
  using assms by (auto simp: wire_tx_pass_def Let_def split: if_splits)

lemma wire_step_on_wire: "wire_step crc config t t' \<Longrightarrow> \<exists>sent. on_wire t' = on_wire t @ sent"
  by (auto elim: wire_stepE)

text \<open>What the receiver's parser took and what is left in its ring are the bytes it read, less those
  its overruns lost.\<close>

definition pair_ok :: "crc8 \<Rightarrow> wire_config \<Rightarrow> wire_pair \<Rightarrow> bool" where
  "pair_ok crc config w \<longleftrightarrow> (wire_step crc config)\<^sup>*\<^sup>* trace_init (pair_sender w) \<and>
     wire_subscribed (pair_receiver w) \<and> pair_carried w \<le> length (on_wire (pair_sender w)) \<and>
     length (wire_rx_ring (pair_receiver w)) \<le> WIRE_LINK_RX_RING_BYTES \<and>
     (\<exists>drained delivered.
        wire_frame_parser_ingest crc parser_reset drained = (wire_parser (pair_receiver w), delivered) \<and>
        carries (take (pair_carried w) (on_wire (pair_sender w))) (drained @ wire_rx_ring (pair_receiver w))
          (pair_overruns w) (pair_dropped w) \<and>
        handed_over w = filter (\<lambda>payload. payload \<noteq> []) delivered)"

lemma pair_ok_init: "pair_ok crc config pair_init"
  by (auto simp: pair_ok_def pair_init_def in_flight_def trace_init_def wire_link_boot_def wire_link_register_rx_def
      carries.Nothing intro!: exI [of _ "[]"])

lemma pair_ok_receiver:
  assumes "pair_ok crc config w" and "wire_rx_ring link = wire_rx_ring (pair_receiver w)"
    and "wire_parser link = wire_parser (pair_receiver w)" "wire_subscribed link = wire_subscribed (pair_receiver w)"
  shows "pair_ok crc config (w\<lparr>pair_receiver := link\<rparr>)"
  using assms by (simp add: pair_ok_def in_flight_def)

lemma pair_ok_step:
  assumes "pair_step crc config receiver_config w w'" and ok: "pair_ok crc config w"
  shows "pair_ok crc config w'"
  using assms(1)
proof cases
  case (Sender t)
  obtain sent where "on_wire t = on_wire (pair_sender w) @ sent"
    using wire_step_on_wire [OF Sender(2)] by blast
  then show ?thesis
    using ok rtranclp.rtrancl_into_rtrancl [of "wire_step crc config" trace_init "pair_sender w" t] Sender(2)
    by (simp add: Sender(1) pair_ok_def)
next
  case (Carry reads link got later now)
  obtain drained delivered where old:
    "wire_frame_parser_ingest crc parser_reset drained = (wire_parser (pair_receiver w), delivered)"
    "carries (take (pair_carried w) (on_wire (pair_sender w))) (drained @ wire_rx_ring (pair_receiver w))
      (pair_overruns w) (pair_dropped w)"
    "handed_over w = filter (\<lambda>payload. payload \<noteq> []) delivered"
    using ok by (auto simp: pair_ok_def)
  have "length (wire_rx_ring (pair_receiver w)) \<le> WIRE_LINK_RX_RING_BYTES"
    using ok by (simp add: pair_ok_def)
  from wire_rx_fill_split [OF Carry(3) this] obtain kept where kept: "concat reads = kept @ rx_lost reads (pair_receiver w)"
    "link = (pair_receiver w)\<lparr>wire_rx_ring := wire_rx_ring (pair_receiver w) @ kept\<rparr>"
    "length (wire_rx_ring (pair_receiver w) @ kept) \<le> WIRE_LINK_RX_RING_BYTES"
    using Carry(2) by auto
  have "take (length (concat reads)) (in_flight w) = concat reads" "length (concat reads) \<le> length (in_flight w)"
    using Carry(4) by simp_all
  then have more: "take (pair_carried w + length (concat reads)) (on_wire (pair_sender w)) =
      (take (pair_carried w) (on_wire (pair_sender w)) @ kept) @ rx_lost reads (pair_receiver w)"
    "pair_carried w + length (concat reads) \<le> length (on_wire (pair_sender w))"
    using ok kept(1) by (simp_all only: take_add in_flight_def append_assoc) (auto simp: pair_ok_def)
  have "carries (take (pair_carried w + length (concat reads)) (on_wire (pair_sender w)))
      (drained @ wire_rx_ring (pair_receiver w) @ kept)
      (pair_overruns w + (if rx_lost reads (pair_receiver w) = [] then 0 else 1))
      (pair_dropped w + length (rx_lost reads (pair_receiver w)))"
    unfolding more(1) using carries.Overrun [OF carries.Kept [OF old(2), of kept], of "rx_lost reads (pair_receiver w)"]
      carries.Kept [OF old(2), of kept] by simp
  moreover define rx where "rx = (if got then link\<lparr>wire_peer_last_rx_uptime := now\<rparr> else link)"
  moreover have "wire_rx_ring rx = wire_rx_ring (pair_receiver w) @ kept" "wire_parser rx = wire_parser (pair_receiver w)"
    "wire_subscribed rx = wire_subscribed (pair_receiver w)"
    by (simp_all add: rx_def kept(2))
  ultimately show ?thesis
    using ok old(1,3) more(2) kept(3) unfolding Carry(1) pair_ok_def
    by (intro conjI exI [of _ drained] exI [of _ delivered]) (simp_all split del: if_split)
next
  case (Drain link payloads)
  obtain drained delivered where old:
    "wire_frame_parser_ingest crc parser_reset drained = (wire_parser (pair_receiver w), delivered)"
    "carries (take (pair_carried w) (on_wire (pair_sender w))) (drained @ wire_rx_ring (pair_receiver w))
      (pair_overruns w) (pair_dropped w)"
    "handed_over w = filter (\<lambda>payload. payload \<noteq> []) delivered"
    using ok by (auto simp: pair_ok_def)
  obtain parser more where ingest:
    "wire_frame_parser_ingest crc (wire_parser (pair_receiver w)) (wire_rx_ring (pair_receiver w)) = (parser, more)"
    by fastforce
  have link: "link = (pair_receiver w)\<lparr>wire_rx_ring := [], wire_parser := parser\<rparr>"
    "payloads = filter (\<lambda>payload. payload \<noteq> []) more"
    using wire_process_ring_ingest [OF Drain(2) ingest] ok wire_on_frame_subscribed by (auto simp: pair_ok_def)
  have "wire_frame_parser_ingest crc parser_reset (drained @ wire_rx_ring (pair_receiver w)) = (parser, delivered @ more)"
    using old(1) ingest by (simp add: wire_frame_parser_ingest_append)
  then show ?thesis
    using ok old(2,3) unfolding Drain(1) pair_ok_def link
    by (intro conjI exI [of _ "drained @ wire_rx_ring (pair_receiver w)"] exI [of _ "delivered @ more"]) simp_all
next
  case (Answer ring payload payload_length link result)
  then show ?thesis using pair_ok_receiver [OF ok] wire_link_send_receive [OF Answer(2)] by simp
next
  case (Transmit contiguous fill link sent again)
  then show ?thesis using pair_ok_receiver [OF ok] wire_tx_pass_receive [OF Transmit(2)] by simp
qed

lemma pair_ok_reaches: "(pair_step crc config receiver_config)\<^sup>*\<^sup>* pair_init w \<Longrightarrow> pair_ok crc config w"
  by (induction rule: rtranclp_induct) (auto intro: pair_ok_init pair_ok_step)

section \<open>From queue to subscription\<close>

lemma filter_take: "filter P (take n xs) = take (length (filter P (take n xs))) (filter P xs)"
  by (metis append_eq_conv_conj append_take_drop_id filter_append)

text \<open>With no overrun the subscription got a prefix of what each ring accepted.\<close>

lemma wire_handed_over_intact:
  assumes "pair_ok crc config w" and "pair_overruns w = 0"
  shows "\<exists>log. handed_over w = filter (\<lambda>payload. payload \<noteq> []) (map snd log) \<and>
    (\<forall>ring. \<exists>k. map snd (filter (\<lambda>entry. fst entry = ring) log) = take k (accepted (pair_sender w) ring) \<and>
      (in_flight w = [] \<longrightarrow> wire_rx_ring (pair_receiver w) = [] \<longrightarrow>
        wire_tx_rings (trace_link (pair_sender w)) ring = [] \<longrightarrow>
        wire_tx_frame_ring (trace_link (pair_sender w)) \<noteq> Some ring \<longrightarrow>
        map snd (filter (\<lambda>entry. fst entry = ring) log) = accepted (pair_sender w) ring))"
proof -
  obtain drained delivered where ok: "(wire_step crc config)\<^sup>*\<^sup>* trace_init (pair_sender w)"
    "wire_frame_parser_ingest crc parser_reset drained = (wire_parser (pair_receiver w), delivered)"
    "carries (take (pair_carried w) (on_wire (pair_sender w))) (drained @ wire_rx_ring (pair_receiver w))
      (pair_overruns w) (pair_dropped w)"
    "handed_over w = filter (\<lambda>payload. payload \<noteq> []) delivered"
    using assms(1) by (auto simp: pair_ok_def)
  have "drained @ wire_rx_ring (pair_receiver w) = take (pair_carried w) (on_wire (pair_sender w))"
    using carries_intact [OF ok(3)] assms(2) by simp
  then have wire: "on_wire (pair_sender w) = drained @ (wire_rx_ring (pair_receiver w) @ in_flight w)"
    by (metis append_assoc append_take_drop_id in_flight_def)
  obtain parser whole where whole: "wire_frame_parser_ingest crc parser_reset (on_wire (pair_sender w)) = (parser, whole)"
    by fastforce
  obtain later where later: "wire_frame_parser_ingest crc (wire_parser (pair_receiver w))
      (wire_rx_ring (pair_receiver w) @ in_flight w) = (parser, later)" "whole = delivered @ later"
    using wire_frame_parser_ingest_split [OF ok(2) whole [unfolded wire]] by blast
  obtain log where log: "delivered @ later = map snd log"
    "\<And>ring. \<exists>k. map snd (filter (\<lambda>entry. fst entry = ring) log) = take k (accepted (pair_sender w) ring) \<and>
      (wire_tx_rings (trace_link (pair_sender w)) ring = [] \<longrightarrow> wire_tx_frame_ring (trace_link (pair_sender w)) \<noteq> Some ring \<longrightarrow>
        map snd (filter (\<lambda>entry. fst entry = ring) log) = accepted (pair_sender w) ring)"
    using wire_link_delivers [OF ok(1) whole] later(2) by auto
  define n where "n = length delivered"
  have handed: "handed_over w = filter (\<lambda>payload. payload \<noteq> []) (map snd (take n log))"
    using arg_cong [OF log(1), of "take n"] ok(4) by (simp add: n_def take_map)
  have prefix: "\<exists>k. map snd (filter (\<lambda>entry. fst entry = ring) (take n log)) = take k (accepted (pair_sender w) ring)" for ring
  proof -
    define m where "m = length (filter (\<lambda>entry. fst entry = ring) (take n log))"
    obtain k where k: "map snd (filter (\<lambda>entry. fst entry = ring) log) = take k (accepted (pair_sender w) ring)"
      using log(2) [of ring] by blast
    have "map snd (filter (\<lambda>entry. fst entry = ring) (take n log)) = map snd (take m (filter (\<lambda>entry. fst entry = ring) log))"
      unfolding m_def using filter_take by metis
    then show ?thesis
      using k by (intro exI [of _ "min m k"]) (simp add: take_map [symmetric])
  qed
  have all: "take n log = log" if "in_flight w = []" "wire_rx_ring (pair_receiver w) = []"
  proof -
    have "later = []" using later(1) that by simp
    then show ?thesis using log(1) by (metis append_Nil2 length_map n_def take_all_iff order_refl)
  qed
  show ?thesis
  proof (intro exI [of _ "take n log"] conjI allI)
    fix ring
    show "\<exists>k. map snd (filter (\<lambda>entry. fst entry = ring) (take n log)) = take k (accepted (pair_sender w) ring) \<and>
      (in_flight w = [] \<longrightarrow> wire_rx_ring (pair_receiver w) = [] \<longrightarrow>
        wire_tx_rings (trace_link (pair_sender w)) ring = [] \<longrightarrow>
        wire_tx_frame_ring (trace_link (pair_sender w)) \<noteq> Some ring \<longrightarrow>
        map snd (filter (\<lambda>entry. fst entry = ring) (take n log)) = accepted (pair_sender w) ring)"
      using prefix [of ring] log(2) [of ring] all by (cases "in_flight w = [] \<and> wire_rx_ring (pair_receiver w) = []") auto
  qed (rule handed)
qed

section \<open>Overruns\<close>

text \<open>The wire at rest: all that was accepted has left, arrived and been drained.\<close>

definition wire_at_rest :: "wire_pair \<Rightarrow> bool" where
  "wire_at_rest w \<longleftrightarrow> in_flight w = [] \<and> wire_rx_ring (pair_receiver w) = [] \<and>
     (\<forall>ring. wire_tx_rings (trace_link (pair_sender w)) ring = []) \<and> wire_tx_frame_ring (trace_link (pair_sender w)) = None"

definition accepted_count :: "wire_trace \<Rightarrow> nat" where
  "accepted_count t = length (accepted t Event_ring) + length (accepted t Input_ring) + length (accepted t Keepalive_ring)"

lemma log_count:
  "length log = length (filter (\<lambda>e. fst e = Event_ring) log) + length (filter (\<lambda>e. fst e = Input_ring) log) +
     length (filter (\<lambda>e. fst e = Keepalive_ring) log)" for log :: "(tx_ring \<times> bytes) list"
proof (induction log)
  case (Cons e log)
  then show ?case by (cases "fst e") simp_all
qed simp

lemma subseq_of_map:
  assumes "subseq ys (map f xs)" obtains zs where "subseq zs xs" "ys = map f zs"
  using assms by (metis nths_map subseq_conv_nths)

text \<open>The segments the parser has seen: survivors of the sender's frames, in its order, and the
  spliced ones.\<close>

lemma pair_segments:
  assumes ok: "pair_ok crc config w" and log: "wire_log_ok crc log partial (pair_sender w)"
  obtains tagged kept drained delivered where
    "wire_frame_parser_ingest crc parser_reset drained = (wire_parser (pair_receiver w), delivered)"
    "handed_over w = filter (\<lambda>payload. payload \<noteq> []) delivered"
    "delivered = concat (map (segment_payloads crc) (map snd tagged))"
    "subseq kept log" "map (\<lambda>entry. butlast (snd entry)) kept = map snd (filter fst tagged)"
    "length (filter (\<lambda>t. \<not> fst t) tagged) \<le> pair_overruns w"
    "in_flight w = [] \<Longrightarrow> wire_rx_ring (pair_receiver w) = [] \<Longrightarrow> length log \<le> length tagged + pair_dropped w"
proof -
  define carried where "carried = take (pair_carried w) (on_wire (pair_sender w))"
  define ring where "ring = wire_rx_ring (pair_receiver w)"
  obtain drained delivered where ingest:
    "wire_frame_parser_ingest crc parser_reset drained = (wire_parser (pair_receiver w), delivered)"
    "handed_over w = filter (\<lambda>payload. payload \<noteq> []) delivered"
    and "carries carried (drained @ ring) (pair_overruns w) (pair_dropped w)"
    using ok by (auto simp: pair_ok_def carried_def ring_def)
  then obtain tagged open_kept segments open_carried where
    spliced: "spliced_ok carried (drained @ ring) (pair_overruns w) (pair_dropped w) tagged open_kept segments open_carried"
    using carries_spliced by blast
  define frames where "frames = map (\<lambda>entry. butlast (snd entry)) log"
  have frames: "concat (map snd log) = delimited frames" "\<forall>s \<in> set frames. 0 \<notin> set s" "0 \<notin> set partial"
    using log delimited_stuffed [of "map snd log"] by (auto simp: wire_log_ok_def frames_def o_def)
  have "delimited frames @ partial = delimited segments @ (open_carried @ in_flight w)"
    using log spliced frames(1) append_take_drop_id [of "pair_carried w" "on_wire (pair_sender w)"]
    by (simp add: wire_log_ok_def spliced_ok_def carried_def in_flight_def)
  from delimited_prefix [OF this frames(2) _ frames(3)] spliced obtain k where
    k: "segments = take k frames" "open_carried @ in_flight w = delimited (drop k frames) @ partial"
    unfolding spliced_ok_def by blast
  obtain dsegments drest where cut: "drained = delimited dsegments @ drest" "\<forall>s \<in> set dsegments. 0 \<notin> set s" "0 \<notin> set drest"
    using cut_exists by blast
  have "delimited (map snd tagged) @ open_kept = delimited dsegments @ (drest @ ring)"
    using spliced cut(1) by (simp add: spliced_ok_def)
  from delimited_prefix [OF this _ cut(2)] spliced obtain j where
    j: "dsegments = take j (map snd tagged)" "drest @ ring = delimited (drop j (map snd tagged)) @ open_kept"
    unfolding spliced_ok_def by auto
  define seen where "seen = take j tagged"
  have "filter fst tagged = filter fst seen @ filter fst (drop j tagged)"
    unfolding seen_def by (metis append_take_drop_id filter_append)
  then have "subseq (map snd (filter fst seen)) (map snd (filter fst tagged))"
    by (simp add: subseq_rev_drop_many)
  moreover have "subseq segments frames"
    unfolding k(1) by (metis append_take_drop_id subseq_order.order_refl subseq_rev_drop_many)
  ultimately have "subseq (map snd (filter fst seen)) frames"
    using spliced unfolding spliced_ok_def by (meson subseq_order.order_trans)
  then obtain kept where kept: "subseq kept log" "map snd (filter fst seen) = map (\<lambda>entry. butlast (snd entry)) kept"
    unfolding frames_def by (rule subseq_of_map)
  have "delivered = concat (map (segment_payloads crc) dsegments)"
    using wire_frame_parser_ingest_refines [OF parser_ok_reset(1) ingest(1)] cut_bytes_delimited [OF cut(2), of crc]
      cut_bytes_segment [OF cut(3), of "[]" crc]
    by (auto simp: cut(1) cut_bytes_append split: if_splits)
  then have delivered: "delivered = concat (map (segment_payloads crc) (map snd seen))"
    by (simp add: j(1) seen_def take_map)
  have few: "length (filter (\<lambda>t. \<not> fst t) seen) \<le> pair_overruns w"
  proof -
    have "filter (\<lambda>t. \<not> fst t) tagged = filter (\<lambda>t. \<not> fst t) seen @ filter (\<lambda>t. \<not> fst t) (drop j tagged)"
      unfolding seen_def by (metis append_take_drop_id filter_append)
    then show ?thesis using spliced by (simp add: spliced_ok_def)
  qed
  have count: "length log \<le> length seen + pair_dropped w" if "in_flight w = []" "ring = []"
  proof -
    have "0 \<notin> set (delimited (drop k frames))" "0 \<notin> set (delimited (drop j (map snd tagged)))"
      using arg_cong [OF k(2), of set] arg_cong [OF j(2), of set] that spliced cut(3) by (auto simp: spliced_ok_def)
    then have "drop k frames = []" "drop j (map snd tagged) = []"
      by (cases "drop k frames"; cases "drop j (map snd tagged)"; simp)+
    then have "segments = frames" "seen = tagged"
      using k(1) by (simp_all add: seen_def)
    then show ?thesis using spliced by (simp add: spliced_ok_def frames_def)
  qed
  show thesis
    using that [OF ingest delivered kept(1) kept(2) [symmetric] few] count by (simp add: ring_def)
qed

lemma wire_handed_over_lossy:
  assumes "pair_ok crc config w"
  shows "\<exists>log. handed_over w = filter (\<lambda>payload. payload \<noteq> []) (map snd log) \<and>
    length (filter (\<lambda>entry. fst entry = None) log) \<le> pair_overruns w \<and>
    (\<forall>ring. subseq (map snd (filter (\<lambda>entry. fst entry = Some ring) log)) (accepted (pair_sender w) ring)) \<and>
    (wire_at_rest w \<longrightarrow> accepted_count (pair_sender w) \<le>
      length (filter (\<lambda>entry. fst entry \<noteq> None) log) + pair_overruns w + pair_dropped w)"
proof -
  have "(wire_step crc config)\<^sup>*\<^sup>* trace_init (pair_sender w)" using assms by (simp add: pair_ok_def)
  then obtain flog partial where flog: "wire_log_ok crc flog partial (pair_sender w)"
    using wire_log_reachable by blast
  obtain tagged kept drained delivered where seen: "handed_over w = filter (\<lambda>payload. payload \<noteq> []) delivered"
    "delivered = concat (map (segment_payloads crc) (map snd tagged))"
    and kept: "subseq kept flog" "map (\<lambda>entry. butlast (snd entry)) kept = map snd (filter fst tagged)"
    and few: "length (filter (\<lambda>t. \<not> fst t) tagged) \<le> pair_overruns w"
    and count: "in_flight w = [] \<Longrightarrow> wire_rx_ring (pair_receiver w) = [] \<Longrightarrow> length flog \<le> length tagged + pair_dropped w"
    using pair_segments [OF assms flog] by metis
  define payload_of where "payload_of f = hd (segment_payloads crc (butlast f))" for f
  have "set kept \<subseteq> set flog"
    using kept(1) by (metis set_nths_subset subseq_conv_nths)
  then have "\<forall>entry \<in> set kept. segment_payloads crc (butlast (snd entry)) = [payload_of (snd entry)]"
    unfolding payload_of_def using wire_log_payload [OF flog] by blast
  from tag_payloads [OF kept(2) this] obtain got where got: "map snd got = delivered"
    "length (filter (\<lambda>e. fst e = None) got) \<le> length (filter (\<lambda>t. \<not> fst t) tagged)"
    "filter (\<lambda>e. fst e \<noteq> None) got = map (\<lambda>(ring, framed). (Some ring, payload_of framed)) kept"
    unfolding seen(2) by blast
  have rings: "subseq (map snd (filter (\<lambda>e. fst e = Some ring) got)) (accepted (pair_sender w) ring)" for ring
  proof -
    have "filter (\<lambda>e. fst e = Some ring) got = filter (\<lambda>e. fst e = Some ring) (filter (\<lambda>e. fst e \<noteq> None) got)"
      by (simp add: conj_commute) (intro filter_cong, auto)
    then have mine: "map snd (filter (\<lambda>e. fst e = Some ring) got) = map payload_of (map snd (filter (\<lambda>e. fst e = ring) kept))"
      unfolding got(3) by (simp add: filter_map o_def case_prod_beta)
    have "subseq (map payload_of (map snd (filter (\<lambda>e. fst e = ring) kept))) (map payload_of (map snd (filter (\<lambda>e. fst e = ring) flog)))"
      by (intro subseq_map subseq_filter kept(1))
    moreover obtain k where "map payload_of (map snd (filter (\<lambda>e. fst e = ring) flog)) = take k (accepted (pair_sender w) ring)"
      using wire_log_accepted [OF flog, of ring] unfolding payload_of_def by blast
    ultimately show ?thesis
      unfolding mine by (metis append_take_drop_id subseq_rev_drop_many)
  qed
  have arrived: "accepted_count (pair_sender w) \<le> length (filter (\<lambda>e. fst e \<noteq> None) got) + pair_overruns w + pair_dropped w"
    if "wire_at_rest w"
  proof -
    have "length (filter (\<lambda>e. fst e = ring) flog) = length (accepted (pair_sender w) ring)" for ring
    proof -
      have "map (\<lambda>f. hd (segment_payloads crc (butlast f))) (map snd (filter (\<lambda>e. fst e = ring) flog)) = accepted (pair_sender w) ring"
        using wire_log_accepted [OF flog, of ring] that by (auto simp: wire_at_rest_def)
      then show ?thesis by (metis length_map)
    qed
    then have "length flog = accepted_count (pair_sender w)"
      unfolding accepted_count_def by (subst log_count) simp
    moreover have "length tagged = length (filter fst tagged) + length (filter (\<lambda>t. \<not> fst t) tagged)"
      using sum_length_filter_compl [of fst tagged] by simp
    moreover have "length (filter fst tagged) = length kept"
      using arg_cong [OF kept(2), of length] by simp
    moreover have "length (filter (\<lambda>e. fst e \<noteq> None) got) = length kept"
      using arg_cong [OF got(3), of length] by simp
    ultimately show ?thesis
      using count few that by (simp add: wire_at_rest_def)
  qed
  show ?thesis
    using seen(1) got(1,2) few rings arrived by (intro exI [of _ got]) auto
qed


text \<open>One payload, from one end to the other.\<close>

definition wire_config_example :: wire_config where
  "wire_config_example = \<lparr>simplex = False, transport_wire = True, wire_timeout_ms = 500\<rparr>"

definition plain_crc :: crc8 where
  "plain_crc initial data = initial"

definition sent_example :: wire_trace where
  "sent_example = \<lparr>trace_link = wire_link_boot\<lparr>uart_tx_irq := True\<rparr>,
     accepted = (\<lambda>_. [])(Input_ring := [[5]]), on_wire = [2, 5, 1, 0]\<rparr>"

lemma frame_example: "wire_frame_encode plain_crc (Some [5]) (Suc 0) 131 = Inr [2, 5, 1, 0]"
  by (simp add: wire_frame_encode_def WIRE_FRAME_MAX_PAYLOAD_def cobs_encode_def plain_crc_def
      COBS_MAX_ENCODED_def cobs_start_def cobs_encode_byte_def close_block_def)

definition queued_example :: wire_trace where
  "queued_example = \<lparr>trace_link = wire_link_boot\<lparr>wire_tx_rings := (\<lambda>_. [])(Input_ring := [2, 5, 1, 0]), uart_tx_irq := True\<rparr>,
     accepted = (\<lambda>_. [])(Input_ring := [[5]]), on_wire = []\<rparr>"

lemma queued_example_reached: "(wire_step plain_crc wire_config_example)\<^sup>*\<^sup>* trace_init queued_example"
proof -
  have send: "wire_link_send plain_crc wire_config_example Input_ring (Some [5]) (length [5 :: u8]) (trace_link trace_init) =
      (trace_link queued_example, Ok)"
    using frame_example
    by (simp add: queued_example_def wire_link_send_def wire_link_enqueue_def wire_link_can_transmit_def wire_config_example_def
        WIRE_FRAME_MAX_PAYLOAD_def trace_init_def wire_link_boot_def)
  have "trace_init\<lparr>trace_link := trace_link queued_example,
      accepted := (accepted trace_init)(Input_ring := accepted trace_init Input_ring @ [[5]])\<rparr> = queued_example"
    by (simp add: queued_example_def trace_init_def)
  with wire_step.Enqueue [OF send] show ?thesis
    by (metis r_into_rtranclp)
qed

lemma sent_example_reached: "(wire_step plain_crc wire_config_example)\<^sup>*\<^sup>* trace_init sent_example"
proof -
  have pass: "wire_tx_pass 4 4 (trace_link queued_example) = (trace_link sent_example, [2, 5, 1, 0], True)"
    by (simp add: queued_example_def sent_example_def wire_tx_pass_def wire_tx_pick_ring_def wire_link_boot_def
        WIRE_LINK_CHUNK_BYTES_def fun_upd_idem Let_def)
  have "wire_step plain_crc wire_config_example queued_example (queued_example\<lparr>trace_link := trace_link sent_example,
      on_wire := on_wire queued_example @ [2, 5, 1, 0]\<rparr>)"
    by (rule wire_step.Pass [OF pass])
      (auto simp: queued_example_def wire_link_boot_def wire_tx_pick_ring_def WIRE_LINK_CHUNK_BYTES_def)
  moreover have "queued_example\<lparr>trace_link := trace_link sent_example, on_wire := on_wire queued_example @ [2, 5, 1, 0]\<rparr> =
      sent_example"
    by (simp add: queued_example_def sent_example_def trace_init_def)
  ultimately show ?thesis
    using queued_example_reached by (metis rtranclp.rtrancl_into_rtrancl)
qed

lemma pair_sender_steps:
  "(wire_step crc config)\<^sup>*\<^sup>* t t' \<Longrightarrow>
   (pair_step crc config receiver_config)\<^sup>*\<^sup>* (w\<lparr>pair_sender := t\<rparr>) (w\<lparr>pair_sender := t'\<rparr>)"
proof (induction rule: rtranclp_induct)
  case (step t t')
  then show ?case
    using pair_step.Sender [of crc config "w\<lparr>pair_sender := t\<rparr>" t' receiver_config]
    by (simp add: rtranclp.rtrancl_into_rtrancl)
qed simp


section \<open>The transmitter never wedges\<close>

definition wire_backlog :: "wire_link \<Rightarrow> nat" where
  "wire_backlog link = length (wire_tx_rings link Event_ring) + length (wire_tx_rings link Input_ring) +
     length (wire_tx_rings link Keepalive_ring)"

text \<open>Passes of the transmit loop in which the ring hands out \<open>contiguous\<close> bytes at most
  and the UART has \<open>room\<close> for some.\<close>

definition wire_tx_take :: "nat \<times> nat \<Rightarrow> wire_link \<Rightarrow> wire_link \<times> bytes" where
  "wire_tx_take = (\<lambda>(contiguous, room) link.
     (let offered = min (min WIRE_LINK_CHUNK_BYTES contiguous) (length (wire_tx_rings link (wire_tx_pick_ring link)));
          (link, sent, again) = wire_tx_pass contiguous (int (min room offered)) link
      in (link, sent)))"

fun wire_tx_takes :: "(nat \<times> nat) list \<Rightarrow> wire_trace \<Rightarrow> wire_trace" where
  "wire_tx_takes [] t = t"
| "wire_tx_takes (pass # passes) t =
     (let (link, sent) = wire_tx_take pass (trace_link t)
      in wire_tx_takes passes (t\<lparr>trace_link := link, on_wire := on_wire t @ sent\<rparr>))"

text \<open>A frame in flight has bytes left in its ring: a whole frame is put at once.\<close>

lemma wire_frame_pending:
  assumes ok: "wire_log_ok crc log partial t" and ring: "wire_tx_frame_ring (trace_link t) = Some ring"
  shows "wire_tx_rings (trace_link t) ring \<noteq> []"
proof
  assume empty: "wire_tx_rings (trace_link t) ring = []"
  define fs where "fs = map (framed_payload crc) (accepted t ring)"
  define gs where "gs = map snd (filter (\<lambda>entry. fst entry = ring) log)"
  have "concat fs = concat gs @ partial" and frames: "\<forall>f \<in> set fs. is_frame f" "\<forall>g \<in> set gs. is_frame g"
    using ok ring empty by (auto simp: wire_log_ok_def fs_def gs_def)
  then obtain k where k: "partial = concat (drop k fs)"
    using frames_prefix by blast
  have partial: "partial \<noteq> []" "0 \<notin> set partial"
    using ok ring by (auto simp: wire_log_ok_def)
  then obtain f where "f \<in> set (drop k fs)" using k by (cases "drop k fs") auto
  then have "is_frame f" "set f \<subseteq> set partial"
    using frames(1) k by (auto dest: in_set_dropD)
  then show False using partial(2) by (auto simp: is_frame_def)
qed

lemma wire_pick_pending:
  assumes "wire_log_ok crc log partial t" and "wire_backlog (trace_link t) \<noteq> 0"
  shows "wire_tx_rings (trace_link t) (wire_tx_pick_ring (trace_link t)) \<noteq> []"
  using assms wire_frame_pending [OF assms(1)]
  by (auto simp: wire_tx_pick_ring_def wire_backlog_def split: option.splits)

lemma wire_backlog_take:
  assumes "wire_tx_rings link (wire_tx_pick_ring link) \<noteq> []" and "1 \<le> contiguous" "1 \<le> room"
  shows "wire_backlog (fst (wire_tx_take (contiguous, room) link)) < wire_backlog link"
proof -
  define ring where "ring = wire_tx_pick_ring link"
  define fill where "fill = min room (min (min WIRE_LINK_CHUNK_BYTES contiguous) (length (wire_tx_rings link ring)))"
  have fill: "1 \<le> fill" "fill \<le> length (wire_tx_rings link ring)"
    using assms by (auto simp: fill_def ring_def WIRE_LINK_CHUNK_BYTES_def Suc_le_eq)
  have chunk: "(min (length (wire_tx_rings link ring)) (min WIRE_LINK_CHUNK_BYTES contiguous) = 0) = False"
    using assms by (auto simp: ring_def WIRE_LINK_CHUNK_BYTES_def min_def)
  have "wire_tx_rings (fst (wire_tx_take (contiguous, room) link)) =
      (wire_tx_rings link)(ring := drop fill (wire_tx_rings link ring))"
    by (simp only: wire_tx_take_def wire_tx_pass_def prod.case ring_def [symmetric] fill_def [symmetric] Let_def)
      (simp add: chunk)
  then show ?thesis
    using fill by (cases ring) (auto simp: wire_backlog_def)
qed

lemma wire_log_take:
  assumes "wire_log_ok crc log partial t" and "wire_tx_take pass (trace_link t) = (link, sent)"
  shows "\<exists>log partial. wire_log_ok crc log partial (t\<lparr>trace_link := link, on_wire := on_wire t @ sent\<rparr>)"
proof -
  obtain contiguous room where pass: "pass = (contiguous, room)" by (cases pass)
  define fill where "fill = int (min room (min (min WIRE_LINK_CHUNK_BYTES contiguous)
      (length (wire_tx_rings (trace_link t) (wire_tx_pick_ring (trace_link t))))))"
  obtain again where "wire_tx_pass contiguous fill (trace_link t) = (link, sent, again)"
    using assms(2) by (auto simp: pass wire_tx_take_def fill_def [symmetric] Let_def split: prod.splits)
  then show ?thesis
    by (rule wire_log_pass [OF assms(1)]) (auto simp: fill_def)
qed

lemma wire_tx_takes_drain:
  assumes "wire_log_ok crc log partial t" and "\<forall>(contiguous, room) \<in> set passes. 1 \<le> contiguous \<and> 1 \<le> room"
    and "wire_backlog (trace_link t) \<le> length passes"
  shows "wire_backlog (trace_link (wire_tx_takes passes t)) = 0 \<and>
    wire_tx_frame_ring (trace_link (wire_tx_takes passes t)) = None"
  using assms
proof (induction passes arbitrary: t log partial)
  case Nil
  then have "wire_tx_rings (trace_link t) ring = []" for ring by (cases ring) (auto simp: wire_backlog_def)
  then show ?case
    using Nil wire_frame_pending [OF Nil.prems(1)] by (cases "wire_tx_frame_ring (trace_link t)") auto
next
  case (Cons pass passes)
  obtain link sent where take: "wire_tx_take pass (trace_link t) = (link, sent)" by fastforce
  obtain contiguous room where pass: "pass = (contiguous, room)" by (cases pass)
  define t1 where "t1 = t\<lparr>trace_link := link, on_wire := on_wire t @ sent\<rparr>"
  obtain log1 partial1 where ok: "wire_log_ok crc log1 partial1 t1"
    using wire_log_take [OF Cons.prems(1) take] by (auto simp: t1_def)
  have "wire_backlog link \<le> length passes"
  proof (cases "wire_backlog (trace_link t) = 0")
    case True
    then have "wire_tx_rings (trace_link t) ring = []" for ring by (cases ring) (auto simp: wire_backlog_def)
    then have "link = (trace_link t)\<lparr>uart_tx_irq := False\<rparr>"
      using take by (simp add: pass wire_tx_take_def wire_tx_pass_def)
    then show ?thesis using True by (simp add: wire_backlog_def)
  next
    case False
    have "wire_backlog link < wire_backlog (trace_link t)"
      using wire_backlog_take [OF wire_pick_pending [OF Cons.prems(1) False], of contiguous room] Cons.prems(2) take pass
      by simp
    then show ?thesis using Cons.prems(3) by simp
  qed
  then show ?case
    using Cons.IH [OF ok] Cons.prems(2) take by (simp add: t1_def)
qed

text \<open>From between two frames the rings leave in their order of preference: while a ring is
  being sent, every ring before it is empty.\<close>

definition wire_urgent :: "wire_link \<Rightarrow> bool" where
  "wire_urgent link \<longleftrightarrow> (\<forall>ring < wire_tx_pick_ring link. wire_tx_rings link ring = [])"

definition wire_queued :: "wire_link \<Rightarrow> bytes" where
  "wire_queued link = concat (map (wire_tx_rings link) [Event_ring, Input_ring, Keepalive_ring])"

lemma max_0_nat_int: "nat (max (int n) 0) = n"
  by simp

lemma wire_tx_take_queue:
  assumes "wire_tx_take pass link = (link', sent)"
  obtains fill where "sent = take fill (wire_tx_rings link (wire_tx_pick_ring link))"
    and "wire_tx_rings link' =
      (wire_tx_rings link)(wire_tx_pick_ring link := drop fill (wire_tx_rings link (wire_tx_pick_ring link)))"
    and "wire_tx_frame_ring link' = wire_tx_track_frame (wire_tx_pick_ring link) sent (wire_tx_frame_ring link)"
proof -
  obtain contiguous room where pass: "pass = (contiguous, room)" by (cases pass)
  define ring where "ring = wire_tx_pick_ring link"
  define chunk where "chunk = take (min WIRE_LINK_CHUNK_BYTES contiguous) (wire_tx_rings link ring)"
  define fill where "fill = min room (length chunk)"
  have taken: "take fill chunk = take fill (wire_tx_rings link ring)"
    by (auto simp: chunk_def fill_def min_def)
  have pass_eq: "wire_tx_take pass link = (let (link, sent, again) = wire_tx_pass contiguous (int fill) link in (link, sent))"
    by (simp add: wire_tx_take_def pass fill_def chunk_def ring_def min.commute)
  have pass_step: "wire_tx_pass contiguous (int fill) link =
      (if chunk = [] then (link\<lparr>uart_tx_irq := False\<rparr>, [], False)
       else (link\<lparr>wire_tx_frame_ring := wire_tx_track_frame ring (take fill chunk) (wire_tx_frame_ring link),
           wire_tx_rings := (wire_tx_rings link)(ring := drop fill (wire_tx_rings link ring))\<rparr>,
         take fill chunk, \<not> int fill < int (length chunk)))"
    by (simp only: wire_tx_pass_def Let_def ring_def [symmetric] chunk_def [symmetric] length_0_conv nat_int max_0_nat_int)
  show thesis
    using assms
    by (cases "chunk = []") (auto simp: pass_eq pass_step taken ring_def [symmetric] intro: that [of 0] that [of fill])
qed

lemma wire_track_frame_ring:
  "wire_tx_track_frame ring sent frame_ring = (if sent = [] then frame_ring else
     if List.last sent = WIRE_FRAME_DELIMITER then None else Some ring)"
  by (induction sent arbitrary: frame_ring) auto

lemma wire_urgent_take:
  assumes "wire_urgent link" and "wire_tx_take pass link = (link', sent)"
  shows "wire_urgent link'" and "sent @ wire_queued link' = wire_queued link"
proof -
  define ring where "ring = wire_tx_pick_ring link"
  obtain fill where sent: "sent = take fill (wire_tx_rings link ring)"
    and rings: "wire_tx_rings link' = (wire_tx_rings link)(ring := drop fill (wire_tx_rings link ring))"
    and frame: "wire_tx_frame_ring link' = wire_tx_track_frame ring sent (wire_tx_frame_ring link)"
    using wire_tx_take_queue [OF assms(2)] unfolding ring_def by metis
  have before: "wire_tx_rings link r = []" if "r < ring" for r
    using assms(1) that by (simp add: wire_urgent_def ring_def)
  have below: "wire_tx_rings link' r = []" if "r < ring" for r
    using before [OF that] that by (auto simp: rings)
  show "wire_urgent link'"
  proof (cases "wire_tx_frame_ring link'")
    case None
    then show ?thesis by (auto simp: wire_urgent_def intro: wire_tx_pick_ring_least)
  next
    case (Some r)
    then have "r = ring"
      using wire_tx_pick_ring_keeps_frame [of link]
      by (auto simp: frame wire_track_frame_ring ring_def split: if_splits)
    then show ?thesis using Some below by (simp add: wire_urgent_def wire_tx_pick_ring_def)
  qed
  show "sent @ wire_queued link' = wire_queued link"
    using before [of Event_ring] before [of Input_ring]
    by (cases ring) (auto simp: wire_queued_def rings sent ring_order)
qed

lemma wire_urgent_takes:
  "wire_urgent (trace_link t) \<Longrightarrow>
   on_wire (wire_tx_takes passes t) @ wire_queued (trace_link (wire_tx_takes passes t)) = on_wire t @ wire_queued (trace_link t)"
proof (induction passes arbitrary: t)
  case (Cons pass passes)
  obtain link sent where take: "wire_tx_take pass (trace_link t) = (link, sent)" by fastforce
  show ?case
    using Cons.IH [of "t\<lparr>trace_link := link, on_wire := on_wire t @ sent\<rparr>"] wire_urgent_take [OF Cons.prems take]
    by (simp add: take)
qed simp

text \<open>The transmit interrupt stays enabled while anything is queued: a send enables it after it has
  put its frame, and only a pass that found every ring empty disables it.\<close>

lemma wire_irq_armed:
  assumes "(wire_step crc config)\<^sup>*\<^sup>* trace_init t"
  shows "wire_backlog (trace_link t) \<noteq> 0 \<longrightarrow> uart_tx_irq (trace_link t)"
  using assms
proof (induction rule: rtranclp_induct)
  case base
  show ?case by (simp add: trace_init_def wire_link_boot_def wire_backlog_def)
next
  case (step t t')
  obtain log partial where ok: "wire_log_ok crc log partial t"
    using wire_log_reachable [OF step.hyps(1)] by blast
  from step.hyps(2) show ?case
  proof (cases rule: wire_step.cases)
    case (Enqueue ring payload link)
    then show ?thesis using wire_link_send_frame [OF Enqueue(2)] by simp
  next
    case (Pass contiguous fill link sent again)
    show ?thesis
    proof (cases "wire_tx_rings (trace_link t) (wire_tx_pick_ring (trace_link t)) = []")
      case True
      then have "wire_backlog (trace_link t) = 0" using wire_pick_pending [OF ok] by blast
      moreover have "link = (trace_link t)\<lparr>uart_tx_irq := False\<rparr>"
        using Pass(2) True by (simp add: wire_tx_pass_def)
      ultimately show ?thesis using Pass(1) by (simp add: wire_backlog_def)
    next
      case False
      then have "uart_tx_irq (trace_link t)"
        using step.IH by (cases "wire_tx_pick_ring (trace_link t)") (auto simp: wire_backlog_def)
      moreover have "uart_tx_irq link = uart_tx_irq (trace_link t)"
        using Pass(2,5) False by (auto simp: wire_tx_pass_def Let_def WIRE_LINK_CHUNK_BYTES_def split: if_splits)
      ultimately show ?thesis using Pass(1) by simp
    qed
  next
    case (Receive reads link got now)
    then show ?thesis using step.IH wire_rx_fill_tx [OF Receive(2)] by (simp add: wire_backlog_def)
  qed
qed

text \<open>
  Claim C11: the transmitter never wedges: at every reachable state, if the UART takes at least
  one byte a pass, as many passes as bytes are queued put them all on the wire and leave no
  frame open; and from between two frames everything leaves in the order of urgency, key and
  sensor events first, then input events, then the keepalive. The interrupt that makes the passes
  is enabled whenever a byte is queued.
\<close>

theorem wire_rings_drain:
  assumes "(wire_step crc config)\<^sup>*\<^sup>* trace_init t" and "\<forall>(contiguous, room) \<in> set passes. 1 \<le> contiguous \<and> 1 \<le> room"
    and "wire_backlog (trace_link t) \<le> length passes"
  shows "wire_backlog (trace_link (wire_tx_takes passes t)) = 0 \<and>
    wire_tx_frame_ring (trace_link (wire_tx_takes passes t)) = None \<and>
    (wire_tx_frame_ring (trace_link t) = None \<longrightarrow> on_wire (wire_tx_takes passes t) =
      on_wire t @ concat (map (wire_tx_rings (trace_link t)) [Event_ring, Input_ring, Keepalive_ring])) \<and>
    (wire_backlog (trace_link t) \<noteq> 0 \<longrightarrow> uart_tx_irq (trace_link t))"
proof -
  have drained: "wire_backlog (trace_link (wire_tx_takes passes t)) = 0"
    "wire_tx_frame_ring (trace_link (wire_tx_takes passes t)) = None"
    using wire_log_reachable [OF assms(1)] wire_tx_takes_drain [OF _ assms(2,3)] by blast+
  then have "wire_queued (trace_link (wire_tx_takes passes t)) = []"
    by (simp add: wire_backlog_def wire_queued_def)
  moreover have "wire_urgent (trace_link t)" if "wire_tx_frame_ring (trace_link t) = None"
    using wire_tx_pick_ring_least [OF that] by (simp add: wire_urgent_def)
  ultimately show ?thesis
    using drained wire_urgent_takes [of t passes] wire_irq_armed [OF assms(1)] by (auto simp: wire_queued_def)
qed

theorem wire_rings_drain_witness:
  "wire_backlog (trace_link queued_example) = 4 \<and>
    wire_backlog (trace_link (wire_tx_takes [(64, 2), (64, 2), (1, 9), (64, 1)] queued_example)) = 0 \<and>
    on_wire (wire_tx_takes [(64, 2), (64, 2), (1, 9), (64, 1)] queued_example) = [2, 5, 1, 0]"
  using wire_rings_drain [OF queued_example_reached, of "[(64, 2), (64, 2), (1, 9), (64, 1)]"]
  by (simp add: wire_backlog_def queued_example_def wire_link_boot_def)

end
