(* ===== verification/Esb_Wire.thy ===== *)
theory Esb_Wire
  imports Prelude
begin

text \<open>
  The compact on-air codec of peripheral events (\<open>src/esb_wire.c\<close>). The event struct
  is ZMK's: its type codes, the sizes of its union members and their memory layout are a
  parameter, the record \<open>zmk_abi\<close>, with what the codec needs of them in
  \<open>abi_ok\<close> and a concrete instance in \<open>abi_example\<close>. Input events are
  packed by the repository's own \<open>struct input_wire\<close>, little-endian as its targets.
\<close>

datatype event =
    Key_position (key_position: u8) (key_pressed: bool)
  | Sensor_event (sensor_index: u8) (sensor_channel: u8) (sensor_val1: i32) (sensor_val2: i32)
  | is_Input_event: Input_event (input_reg: u8) (input_sync: u8) (input_type: u8) (input_code: u16) (input_value: i32)
  | Battery_event (battery_level: u8)
  | Other_event (other_type: u8)

text \<open>\<open>enum zmk_split_transport_connections_status\<close>\<close>

datatype connections = Disconnected | Some_connected | All_connected

record zmk_abi =
  key_tag :: u8
  sensor_tag :: u8
  input_tag :: u8
  battery_tag :: u8
  key_size :: u8
  sensor_size :: u8
  battery_size :: u8
  union_size :: nat
  member_bytes :: "event \<Rightarrow> bytes"
  member_event :: "u8 \<Rightarrow> bytes \<Rightarrow> event"

text \<open>\<open>(uint8_t)event->type\<close>\<close>

fun event_type :: "zmk_abi \<Rightarrow> event \<Rightarrow> u8" where
  "event_type abi (Key_position _ _) = key_tag abi"
| "event_type abi (Sensor_event _ _ _ _) = sensor_tag abi"
| "event_type abi (Input_event _ _ _ _ _) = input_tag abi"
| "event_type abi (Battery_event _) = battery_tag abi"
| "event_type abi (Other_event t) = t"

definition ESB_WIRE_INPUT_EVENT_SIZE :: nat where
  "ESB_WIRE_INPUT_EVENT_SIZE = 10"

definition ESB_WIRE_INPUT_SYNC :: u8 where
  "ESB_WIRE_INPUT_SYNC = 1"

definition ESB_WIRE_INPUT_TOTAL :: u8 where
  "ESB_WIRE_INPUT_TOTAL = 2"

text \<open>Zephyr's input event types.\<close>

definition INPUT_EV_KEY :: u8 where "INPUT_EV_KEY = 0x01"
definition INPUT_EV_REL :: u8 where "INPUT_EV_REL = 0x02"

text \<open>The largest encoded event: its type byte and ZMK's whole union.\<close>

definition ESB_WIRE_MAX_EVENT_SIZE :: "zmk_abi \<Rightarrow> nat" where
  "ESB_WIRE_MAX_EVENT_SIZE abi = 1 + union_size abi"

definition sizeof_input_wire :: u8 where
  "sizeof_input_wire = 9"

text \<open>The table \<open>payload_size\<close>, 0 for a slot it leaves out.\<close>

definition payload_size :: "zmk_abi \<Rightarrow> u8 \<Rightarrow> u8" where
  "payload_size abi type =
     (if type = key_tag abi then key_size abi
      else if type = sensor_tag abi then sensor_size abi
      else if type = input_tag abi then sizeof_input_wire
      else if type = battery_tag abi then battery_size abi
      else 0)"

definition is_input :: "zmk_abi \<Rightarrow> u8 \<Rightarrow> bool" where
  "is_input abi type \<longleftrightarrow> type = input_tag abi"

text \<open>The memory of a packed \<open>struct input_wire\<close>.\<close>

definition input_wire_bytes :: "event \<Rightarrow> bytes" where
  "input_wire_bytes event = [input_reg event, input_sync event, input_type event] @
     put_le16 (input_code event) @ put_le32 (input_value event)"

definition input_wire_event :: "bytes \<Rightarrow> event" where
  "input_wire_event wire = Input_event (wire ! 0) (wire ! 1) (wire ! 2) (get_le16 (drop 3 wire)) (get_le32 (drop 5 wire))"

text \<open>The bytes appended to the output, none when the event has no encoding or does not fit.\<close>

definition esb_wire_encode_event :: "zmk_abi \<Rightarrow> nat \<Rightarrow> event \<Rightarrow> bytes" where
  "esb_wire_encode_event abi out_cap event =
     (let type = event_type abi event; size = payload_size abi type
      in if size = 0 then []
         else if out_cap < 1 + unat size then []
         else if is_input abi type then type # input_wire_bytes event
         else type # take (unat size) (member_bytes abi event))"

text \<open>The event and the bytes consumed, \<^const>\<open>None\<close> for the result 0.\<close>

definition esb_wire_decode_event :: "zmk_abi \<Rightarrow> bytes \<Rightarrow> (event \<times> nat) option" where
  "esb_wire_decode_event abi bytes =
     (let avail = length bytes
      in if avail < 1 then None
         else
           let type = bytes ! 0; size = payload_size abi type
           in if size = 0 then None
              else if avail < 1 + unat size then None
              else
                let payload = take (unat size) (drop 1 bytes)
                in Some (if is_input abi type then input_wire_event payload
                         else member_event abi type payload, 1 + unat size))"

section \<open>What the codec needs of ZMK\<close>

text \<open>The type codes are distinct and stay clear of the uplink control tags, no member is
  empty or longer than the union, and a member's memory denotes the event it was copied from.\<close>

definition has_encoding :: "event \<Rightarrow> bool" where
  "has_encoding event \<longleftrightarrow> (\<forall>t. event \<noteq> Other_event t)"

definition ESB_RELAY_POLL_TAG :: u8 where
  "ESB_RELAY_POLL_TAG = 0xFB"

definition abi_ok :: "zmk_abi \<Rightarrow> bool" where
  "abi_ok abi \<longleftrightarrow>
     distinct [key_tag abi, sensor_tag abi, input_tag abi, battery_tag abi] \<and>
     (\<forall>tag \<in> {key_tag abi, sensor_tag abi, input_tag abi, battery_tag abi}. tag < ESB_RELAY_POLL_TAG) \<and>
     (\<forall>size \<in> {key_size abi, sensor_size abi, battery_size abi}. size \<noteq> 0 \<and> unat size \<le> union_size abi) \<and>
     9 \<le> union_size abi \<and>
     (\<forall>event. has_encoding event \<longrightarrow> event_type abi event \<noteq> input_tag abi \<longrightarrow>
       length (member_bytes abi event) = unat (payload_size abi (event_type abi event)) \<and>
       member_event abi (event_type abi event) (member_bytes abi event) = event) \<and>
     (\<forall>tag payload. tag \<noteq> input_tag abi \<longrightarrow> payload_size abi tag \<noteq> 0 \<longrightarrow>
       length payload = unat (payload_size abi tag) \<longrightarrow>
       has_encoding (member_event abi tag payload) \<and> event_type abi (member_event abi tag payload) = tag)"

definition abi_example :: zmk_abi where
  "abi_example = \<lparr>key_tag = 0, sensor_tag = 1, input_tag = 2, battery_tag = 3,
     key_size = 2, sensor_size = 10, battery_size = 1, union_size = 12,
     member_bytes = (\<lambda>event. case event of
         Key_position position pressed \<Rightarrow> [position, if pressed then 1 else 0]
       | Sensor_event index channel val1 val2 \<Rightarrow> put_le32 val1 @ put_le32 val2 @ [channel, index]
       | Battery_event level \<Rightarrow> [level]
       | _ \<Rightarrow> []),
     member_event = (\<lambda>type payload.
       if type = 0 then Key_position (payload ! 0) (payload ! 1 \<noteq> 0)
       else if type = 1 then
         Sensor_event (payload ! 9) (payload ! 8) (get_le32 payload) (get_le32 (drop 4 payload))
       else Battery_event (payload ! 0))\<rparr>"

lemma abi_example_ok: "abi_ok abi_example"
proof -
  have "length (member_bytes abi_example event) = unat (payload_size abi_example (event_type abi_example event)) \<and>
      member_event abi_example (event_type abi_example event) (member_bytes abi_example event) = event"
    if "has_encoding event" "event_type abi_example event \<noteq> input_tag abi_example" for event
    using that
    by (cases event) (auto simp: abi_example_def has_encoding_def payload_size_def nth_append)
  then show ?thesis
    by (auto simp: abi_ok_def) (auto simp: abi_example_def ESB_RELAY_POLL_TAG_def payload_size_def
        has_encoding_def split: if_splits)
qed

section \<open>Round trip\<close>

lemma length_input_wire_bytes [simp]: "length (input_wire_bytes event) = 9"
  by (simp add: input_wire_bytes_def)

lemma input_wire_roundtrip:
  "input_wire_event (input_wire_bytes (Input_event r s t c v)) = Input_event r s t c v"
  by (simp add: input_wire_event_def input_wire_bytes_def)

lemma is_input_iff: "abi_ok abi \<Longrightarrow> has_encoding event \<Longrightarrow>
  event_type abi event = input_tag abi \<longleftrightarrow> (\<exists>r s t c v. event = Input_event r s t c v)"
  by (cases event) (auto simp: abi_ok_def has_encoding_def)

text \<open>An event encodes to its type byte and a payload of the table's size.\<close>

lemma encode_event_cases:
  assumes "abi_ok abi" and "has_encoding event"
  shows "esb_wire_encode_event abi out_cap event =
      (if out_cap < 1 + unat (payload_size abi (event_type abi event)) then []
       else event_type abi event # (if event_type abi event = input_tag abi then input_wire_bytes event
              else member_bytes abi event)) \<and>
    0 < payload_size abi (event_type abi event) \<and>
    length (if event_type abi event = input_tag abi then input_wire_bytes event
            else member_bytes abi event) = unat (payload_size abi (event_type abi event))"
proof -
  have size: "payload_size abi (event_type abi event) \<noteq> 0"
    using assms by (cases event) (auto simp: abi_ok_def payload_size_def has_encoding_def sizeof_input_wire_def)
  have len: "length (if event_type abi event = input_tag abi then input_wire_bytes event
      else member_bytes abi event) = unat (payload_size abi (event_type abi event))"
    using assms by (auto simp: abi_ok_def payload_size_def sizeof_input_wire_def)
  show ?thesis
    using size len
    by (auto simp: esb_wire_encode_event_def Let_def is_input_def word_neq_0_conv split: if_splits)
qed

lemma decode_encode_event:
  assumes "abi_ok abi" and "has_encoding event" and "esb_wire_encode_event abi out_cap event = wire"
    and "wire \<noteq> []"
  shows "esb_wire_decode_event abi (wire @ rest) = Some (event, length wire)"
proof -
  define body where "body = (if event_type abi event = input_tag abi then input_wire_bytes event
    else member_bytes abi event)"
  have w: "wire = event_type abi event # body" "length body = unat (payload_size abi (event_type abi event))"
    "payload_size abi (event_type abi event) \<noteq> 0"
    using encode_event_cases [OF assms(1,2), of out_cap] assms(3,4)
    by (auto simp: body_def word_neq_0_conv split: if_splits)
  have e: "(if is_input abi (event_type abi event) then input_wire_event body
      else member_event abi (event_type abi event) body) = event"
    using assms(1,2) is_input_iff [OF assms(1,2)] input_wire_roundtrip
    by (auto simp: is_input_def body_def abi_ok_def)
  show ?thesis
    using w e by (simp add: esb_wire_decode_event_def Let_def)
qed

text \<open>
  An event that was encoded decodes to itself whatever follows it in the packet and
  consumes exactly its own bytes; its first byte never is one of the uplink control tags; and
  no event is longer than the largest size the packet buffers are checked against.
\<close>

theorem esb_wire_event_roundtrip:
  assumes "abi_ok abi" and "has_encoding event" and "esb_wire_encode_event abi out_cap event = wire"
    and "wire \<noteq> []"
  shows "esb_wire_decode_event abi (wire @ rest) = Some (event, length wire) \<and>
    hd wire < ESB_RELAY_POLL_TAG \<and> length wire \<le> out_cap \<and> length wire \<le> ESB_WIRE_MAX_EVENT_SIZE abi"
proof -
  have "hd wire = event_type abi event" "length wire = 1 + unat (payload_size abi (event_type abi event))"
    "length wire \<le> out_cap"
    using encode_event_cases [OF assms(1,2), of out_cap] assms(3,4) by (auto split: if_splits)
  moreover have "event_type abi event < ESB_RELAY_POLL_TAG \<and>
      unat (payload_size abi (event_type abi event)) \<le> union_size abi"
    using assms(1,2) by (cases event)
      (auto simp: abi_ok_def payload_size_def has_encoding_def sizeof_input_wire_def)
  ultimately show ?thesis
    using decode_encode_event [OF assms] by (simp add: ESB_WIRE_MAX_EVENT_SIZE_def)
qed

theorem esb_wire_event_roundtrip_witness:
  "esb_wire_decode_event abi_example ([2, 1, 3, 2, 8, 1, 5, 0, 0, 0] @ [9]) =
     Some (Input_event 1 3 2 0x108 5, 10)"
proof -
  have "esb_wire_encode_event abi_example 64 (Input_event 1 3 2 0x108 5) = [2, 1, 3, 2, 8, 1, 5, 0, 0, 0]"
    by (simp add: esb_wire_encode_event_def abi_example_def payload_size_def is_input_def
        sizeof_input_wire_def input_wire_bytes_def put_le16_def put_le32_def Let_def)
  from esb_wire_event_roundtrip [OF abi_example_ok _ this, of "[9]"] show ?thesis
    by (simp add: has_encoding_def)
qed

text \<open>What the decoder consumes lies inside the packet, and is never nothing.\<close>

lemma decode_event_bounds:
  "esb_wire_decode_event abi bytes = Some (event, consumed) \<Longrightarrow> 1 \<le> consumed \<and> consumed \<le> length bytes"
  by (auto simp: esb_wire_decode_event_def Let_def split: if_splits)

end
