(* ===== verification/Bit_Table.thy ===== *)
theory Bit_Table
  imports Prelude
begin

text \<open>
  The interface of the bitmaps kept in byte arrays: the active-channel masks of
  \<open>src/hop_policy.c\<close> and the pressed-position bitmap of \<open>src/esb_keepalive.c\<close>.
  The clients count, copy, diff and update bits through \<open>get\<close> and
  \<open>set\<close> alone; their lemmas are proved once here and reach both bitmaps
  through the interpretations in \<open>Hop_Policy\<close> and \<open>Keepalive\<close>.
\<close>

section \<open>A bit of a byte array\<close>

definition byte_bit :: "nat \<Rightarrow> u8" where
  "byte_bit i = push_bit (i mod 8) 1"

lemma byte_bit_get: "(b :: u8) AND byte_bit i \<noteq> 0 \<longleftrightarrow> bit b (i mod 8)"
proof -
  have "b AND push_bit n 1 = 0 \<longleftrightarrow> \<not> bit b n" if "n < 8" for n
    using and_exp_eq_0_iff_not_bit [of b n] by (simp add: push_bit_eq_mult)
  then show ?thesis by (simp add: byte_bit_def)
qed

lemma bit_byte_bit: "n < 8 \<Longrightarrow> bit (byte_bit i) n \<longleftrightarrow> n = i mod 8"
  by (auto simp: byte_bit_def bit_simps)

section \<open>The interface\<close>

locale bit_table =
  fixes valid :: "'t \<Rightarrow> nat \<Rightarrow> bool"
    and get :: "'t \<Rightarrow> nat \<Rightarrow> bool"
    and set_to :: "'t \<Rightarrow> nat \<Rightarrow> bool \<Rightarrow> 't"
  assumes get_set: "valid t i \<Longrightarrow> valid t j \<Longrightarrow> get (set_to t i b) j = (if i = j then b else get t j)"
    and valid_set: "valid (set_to t i b) j = valid t j"
begin

definition count :: "'t \<Rightarrow> nat \<Rightarrow> nat" where
  "count t n = length (filter (get t) [0..<n])"

lemma count_le: "count t n \<le> n"
  using length_filter_le [of "get t" "[0..<n]"] by (simp add: count_def)

lemma count_card: "count t n = card {i. i < n \<and> get t i}"
proof -
  have "{i. i < n \<and> get t i} = set (filter (get t) [0..<n])"
    by auto
  then show ?thesis
    by (metis count_def distinct_card distinct_filter distinct_upt)
qed

lemma count_clear:
  assumes "i < n" and "\<forall>j < n. valid t j" and "get t i"
  shows "count t n = Suc (count (set_to t i False) n)"
proof -
  have "{j. j < n \<and> get (set_to t i False) j} = {j. j < n \<and> get t j} - {i}"
    using assms by (auto simp: get_set split: if_splits)
  moreover have "i \<in> {j. j < n \<and> get t j}"
    using assms by simp
  ultimately show ?thesis
    by (metis card_Suc_Diff1 count_card finite_Collect_conjI finite_Collect_less_nat)
qed

lemma count_pos: "i < n \<Longrightarrow> get t i \<Longrightarrow> 0 < count t n"
  by (auto simp: count_def filter_empty_conv)

lemma count_all: "count t n = n \<longleftrightarrow> (\<forall>i < n. get t i)"
proof -
  have "count t n = n \<longleftrightarrow> filter (get t) [0..<n] = [0..<n]"
    using length_filter_less [of _ "[0..<n]" "get t"] unfolding count_def
    by (metis diff_zero filter_id_conv length_upt less_irrefl)
  then show ?thesis
    by (auto simp: filter_id_conv)
qed

text \<open>Setting the bits of a list of positions, one after another.\<close>

lemma get_fold_set:
  assumes "\<forall>i \<in> set is. valid t i" and "valid t j"
  shows "get (fold (\<lambda>i t. set_to t i b) is t) j = (if j \<in> set is then b else get t j) \<and>
    valid (fold (\<lambda>i t. set_to t i b) is t) = valid t"
  using assms
proof (induction "is" arbitrary: t)
  case Nil
  then show ?case by simp
next
  case (Cons i "is")
  have "valid (set_to t i b) = valid t"
    by (rule ext) (simp add: valid_set)
  then show ?case
    using Cons.IH [of "set_to t i b"] Cons.prems by (auto simp: get_set)
qed

end

end
