(* ===== verification/Keepalive.thy ===== *)
theory Keepalive
  imports Bit_Table
begin

text \<open>
  The uplink keepalive (\<open>src/esb_keepalive.c\<close>, \<open>src/esb_keepalive.h\<close>): a
  peripheral's state snapshot, its encoder and the accessors the central reads it with, the
  bitmap of pressed positions and the verdicts on live key events.
\<close>

definition ESB_KEEPALIVE_TAG :: u8 where "ESB_KEEPALIVE_TAG = 0xFF"
definition ESB_KEEPALIVE_IDLE :: u8 where "ESB_KEEPALIVE_IDLE = 0x00"
definition ESB_KEEPALIVE_ACTIVE :: u8 where "ESB_KEEPALIVE_ACTIVE = 0x01"
definition ESB_KEEPALIVE_BITMAP_OFFSET :: nat where "ESB_KEEPALIVE_BITMAP_OFFSET = 2"
definition ESB_KEEPALIVE_BITMAP_BYTES :: nat where "ESB_KEEPALIVE_BITMAP_BYTES = 8"
definition ESB_KEEPALIVE_POSITION_COUNT :: nat where
  "ESB_KEEPALIVE_POSITION_COUNT = ESB_KEEPALIVE_BITMAP_BYTES * 8"
definition ESB_KEEPALIVE_BATTERY_OFFSET :: nat where
  "ESB_KEEPALIVE_BATTERY_OFFSET = ESB_KEEPALIVE_BITMAP_OFFSET + ESB_KEEPALIVE_BITMAP_BYTES"
definition ESB_KEEPALIVE_BATTERY_UNKNOWN :: u8 where "ESB_KEEPALIVE_BATTERY_UNKNOWN = 0xFF"
definition ESB_KEEPALIVE_LINK_COST_OFFSET :: nat where
  "ESB_KEEPALIVE_LINK_COST_OFFSET = ESB_KEEPALIVE_BATTERY_OFFSET + 1"
definition ESB_KEEPALIVE_HELD_COUNT_OFFSET :: nat where
  "ESB_KEEPALIVE_HELD_COUNT_OFFSET = ESB_KEEPALIVE_LINK_COST_OFFSET + 1"
definition ESB_KEEPALIVE_HELD_OFFSET :: nat where
  "ESB_KEEPALIVE_HELD_OFFSET = ESB_KEEPALIVE_HELD_COUNT_OFFSET + 1"
definition ESB_KEEPALIVE_HELD_BYTES :: nat where "ESB_KEEPALIVE_HELD_BYTES = 3"
definition ESB_KEEPALIVE_MOTION_BYTES :: nat where "ESB_KEEPALIVE_MOTION_BYTES = 4"
definition ESB_KEEPALIVE_SENSOR_BYTES :: nat where "ESB_KEEPALIVE_SENSOR_BYTES = 8"

definition ESB_KEEPALIVE_MOTION_COUNT_OFFSET :: "nat \<Rightarrow> nat" where
  "ESB_KEEPALIVE_MOTION_COUNT_OFFSET held = ESB_KEEPALIVE_HELD_OFFSET + held * ESB_KEEPALIVE_HELD_BYTES"

definition ESB_KEEPALIVE_MOTION_OFFSET :: "nat \<Rightarrow> nat" where
  "ESB_KEEPALIVE_MOTION_OFFSET held = ESB_KEEPALIVE_MOTION_COUNT_OFFSET held + 1"

definition ESB_KEEPALIVE_SENSOR_OFFSET :: "nat \<Rightarrow> nat \<Rightarrow> nat" where
  "ESB_KEEPALIVE_SENSOR_OFFSET held motion =
     ESB_KEEPALIVE_MOTION_OFFSET held + motion * ESB_KEEPALIVE_MOTION_BYTES"

definition ESB_KEEPALIVE_LENGTH :: "nat \<Rightarrow> nat \<Rightarrow> nat \<Rightarrow> nat" where
  "ESB_KEEPALIVE_LENGTH held motion sensors =
     ESB_KEEPALIVE_SENSOR_OFFSET held motion + sensors * ESB_KEEPALIVE_SENSOR_BYTES"

definition ESB_KEEPALIVE_BASE_LENGTH :: nat where
  "ESB_KEEPALIVE_BASE_LENGTH = ESB_KEEPALIVE_LENGTH 0 0 0"

named_theorems keepalive_layout \<open>offsets of the keepalive\<close>

declare ESB_KEEPALIVE_BITMAP_OFFSET_def [keepalive_layout] ESB_KEEPALIVE_BITMAP_BYTES_def [keepalive_layout]
  ESB_KEEPALIVE_POSITION_COUNT_def [keepalive_layout] ESB_KEEPALIVE_BATTERY_OFFSET_def [keepalive_layout]
  ESB_KEEPALIVE_LINK_COST_OFFSET_def [keepalive_layout] ESB_KEEPALIVE_HELD_COUNT_OFFSET_def [keepalive_layout]
  ESB_KEEPALIVE_HELD_OFFSET_def [keepalive_layout] ESB_KEEPALIVE_HELD_BYTES_def [keepalive_layout]
  ESB_KEEPALIVE_MOTION_BYTES_def [keepalive_layout] ESB_KEEPALIVE_SENSOR_BYTES_def [keepalive_layout]
  ESB_KEEPALIVE_MOTION_COUNT_OFFSET_def [keepalive_layout] ESB_KEEPALIVE_MOTION_OFFSET_def [keepalive_layout]
  ESB_KEEPALIVE_SENSOR_OFFSET_def [keepalive_layout] ESB_KEEPALIVE_LENGTH_def [keepalive_layout]
  ESB_KEEPALIVE_BASE_LENGTH_def [keepalive_layout]

record esb_keepalive_held_key =
  held_reg :: u8
  held_code :: u16

record esb_keepalive_motion_total =
  motion_reg :: u8
  motion_code :: u8
  short_total :: "16 word"

text \<open>The counts of the C struct are the lengths of its arrays.\<close>

record esb_keepalive_snapshot =
  snap_state :: u8
  snap_link_cost_x10 :: u8
  snap_battery_level :: u8
  snap_position_bitmap :: bytes
  snap_held_keys :: "esb_keepalive_held_key list"
  snap_motion_totals :: "esb_keepalive_motion_total list"
  snap_sensor_totals :: "i64 list"

section \<open>Encoder\<close>

definition held_key_bytes :: "esb_keepalive_held_key \<Rightarrow> bytes" where
  "held_key_bytes key = held_reg key # put_le16 (held_code key)"

definition motion_total_bytes :: "esb_keepalive_motion_total \<Rightarrow> bytes" where
  "motion_total_bytes motion = motion_reg motion # motion_code motion # put_le16 (short_total motion)"

definition encode_held_keys :: "esb_keepalive_held_key list \<Rightarrow> bytes" where
  "encode_held_keys keys = of_nat (length keys) # concat (map held_key_bytes keys)"

definition encode_motion_totals :: "esb_keepalive_motion_total list \<Rightarrow> bytes" where
  "encode_motion_totals motions = of_nat (length motions) # concat (map motion_total_bytes motions)"

text \<open>The encoder writes its fields one after another, so what it leaves in the output is
  their concatenation; nothing when the output is too small.\<close>

definition esb_keepalive_encode :: "nat \<Rightarrow> esb_keepalive_snapshot \<Rightarrow> bytes" where
  "esb_keepalive_encode out_size snapshot =
     (let len = ESB_KEEPALIVE_LENGTH (length (snap_held_keys snapshot)) (length (snap_motion_totals snapshot))
            (length (snap_sensor_totals snapshot))
      in if out_size < len then []
         else
           [ESB_KEEPALIVE_TAG, snap_state snapshot] @
           take ESB_KEEPALIVE_BITMAP_BYTES (snap_position_bitmap snapshot) @
           [snap_battery_level snapshot, snap_link_cost_x10 snapshot] @
           encode_held_keys (snap_held_keys snapshot) @
           encode_motion_totals (snap_motion_totals snapshot) @
           concat (map put_le64 (snap_sensor_totals snapshot)))"

section \<open>Accessors\<close>

definition esb_keepalive_held_count :: "bytes \<Rightarrow> u8" where
  "esb_keepalive_held_count data = data ! ESB_KEEPALIVE_HELD_COUNT_OFFSET"

definition motion_count_offset :: "bytes \<Rightarrow> nat" where
  "motion_count_offset data = ESB_KEEPALIVE_MOTION_COUNT_OFFSET (unat (esb_keepalive_held_count data))"

definition esb_keepalive_motion_count :: "bytes \<Rightarrow> u8" where
  "esb_keepalive_motion_count data = data ! motion_count_offset data"

definition motion_entry_offset :: "nat \<Rightarrow> nat \<Rightarrow> nat" where
  "motion_entry_offset held_count index =
     ESB_KEEPALIVE_MOTION_OFFSET held_count + index * ESB_KEEPALIVE_MOTION_BYTES"

definition sensor_offset :: "bytes \<Rightarrow> nat" where
  "sensor_offset data = ESB_KEEPALIVE_SENSOR_OFFSET (unat (esb_keepalive_held_count data))
     (unat (esb_keepalive_motion_count data))"

text \<open>\<open>len\<close> is the packet length the caller passes, at most 255.\<close>

definition esb_keepalive_matches :: "bytes \<Rightarrow> nat \<Rightarrow> bool" where
  "esb_keepalive_matches data len =
     (if len < ESB_KEEPALIVE_BASE_LENGTH then False
      else if data ! 0 \<noteq> ESB_KEEPALIVE_TAG then False
      else if len \<le> motion_count_offset data then False
      else
        let totals_offset = sensor_offset data
        in if len < totals_offset then False
           else (len - totals_offset) mod ESB_KEEPALIVE_SENSOR_BYTES = 0)"

definition esb_keepalive_held_key_at :: "bytes \<Rightarrow> nat \<Rightarrow> esb_keepalive_held_key" where
  "esb_keepalive_held_key_at data index =
     (let entry = drop (ESB_KEEPALIVE_HELD_OFFSET + index * ESB_KEEPALIVE_HELD_BYTES) data
      in \<lparr>held_reg = entry ! 0, held_code = get_le16 (drop 1 entry)\<rparr>)"

definition esb_keepalive_motion_total_at :: "bytes \<Rightarrow> nat \<Rightarrow> esb_keepalive_motion_total" where
  "esb_keepalive_motion_total_at data index =
     (let entry = drop (motion_entry_offset (unat (esb_keepalive_held_count data)) index) data
      in \<lparr>motion_reg = entry ! 0, motion_code = entry ! 1, short_total = get_le16 (drop 2 entry)\<rparr>)"

definition esb_keepalive_sensor_count :: "bytes \<Rightarrow> nat \<Rightarrow> u8" where
  "esb_keepalive_sensor_count data len =
     (if len \<le> motion_count_offset data then 0
      else
        let totals_offset = sensor_offset data
        in if len < totals_offset then 0
           else of_nat ((len - totals_offset) div ESB_KEEPALIVE_SENSOR_BYTES))"

definition esb_keepalive_sensor_total_udeg :: "bytes \<Rightarrow> nat \<Rightarrow> i64" where
  "esb_keepalive_sensor_total_udeg data sensor_index =
     get_le64 (drop (sensor_offset data + sensor_index * ESB_KEEPALIVE_SENSOR_BYTES) data)"

definition esb_keepalive_state :: "bytes \<Rightarrow> u8" where
  "esb_keepalive_state data = data ! 1"

definition esb_keepalive_peripheral_state :: "bool \<Rightarrow> bool \<Rightarrow> u8" where
  "esb_keepalive_peripheral_state active searching =
     (if active \<and> searching then ESB_KEEPALIVE_ACTIVE else ESB_KEEPALIVE_IDLE)"

definition esb_keepalive_bitmap :: "bytes \<Rightarrow> bytes" where
  "esb_keepalive_bitmap data = drop ESB_KEEPALIVE_BITMAP_OFFSET data"

definition esb_keepalive_battery_level :: "bytes \<Rightarrow> u8" where
  "esb_keepalive_battery_level data = data ! ESB_KEEPALIVE_BATTERY_OFFSET"

definition esb_keepalive_link_cost_x10 :: "bytes \<Rightarrow> u8" where
  "esb_keepalive_link_cost_x10 data = data ! ESB_KEEPALIVE_LINK_COST_OFFSET"

section \<open>The position bitmap\<close>

definition esb_keepalive_bitmap_set :: "bytes \<Rightarrow> nat \<Rightarrow> bool \<Rightarrow> bytes" where
  "esb_keepalive_bitmap_set bitmap position pressed =
     (if position \<ge> ESB_KEEPALIVE_POSITION_COUNT then bitmap
      else if pressed then bitmap[position div 8 := bitmap ! (position div 8) OR byte_bit position]
      else bitmap[position div 8 := bitmap ! (position div 8) AND NOT (byte_bit position)])"

definition esb_keepalive_bitmap_get :: "bytes \<Rightarrow> nat \<Rightarrow> bool" where
  "esb_keepalive_bitmap_get bitmap position =
     (if position \<ge> ESB_KEEPALIVE_POSITION_COUNT then False
      else bitmap ! (position div 8) AND byte_bit position \<noteq> 0)"

datatype key_verdict = Key_forward | Key_drop_orphan_release | Key_heal_lost_release

definition esb_keepalive_key_verdict :: "bytes \<Rightarrow> nat \<Rightarrow> bool \<Rightarrow> key_verdict" where
  "esb_keepalive_key_verdict tracked_bitmap position pressed =
     (let tracked = esb_keepalive_bitmap_get tracked_bitmap position
      in if \<not> pressed \<and> \<not> tracked then Key_drop_orphan_release
         else if pressed \<and> tracked then Key_heal_lost_release
         else Key_forward)"

definition esb_keepalive_bitmap_diff_next :: "bytes \<Rightarrow> bytes \<Rightarrow> nat \<Rightarrow> nat" where
  "esb_keepalive_bitmap_diff_next tracked received position =
     (case first_index (\<lambda>p. esb_keepalive_bitmap_get tracked p \<noteq> esb_keepalive_bitmap_get received p)
        [position..<ESB_KEEPALIVE_POSITION_COUNT] of
        Some index \<Rightarrow> position + index
      | None \<Rightarrow> ESB_KEEPALIVE_POSITION_COUNT)"

lemma bitmap_get_bit:
  "esb_keepalive_bitmap_get bitmap p \<longleftrightarrow> p < 64 \<and> bit (bitmap ! (p div 8)) (p mod 8)"
  by (auto simp: esb_keepalive_bitmap_get_def byte_bit_get keepalive_layout)

interpretation positions: bit_table "\<lambda>bitmap p. 8 \<le> length bitmap \<and> p < ESB_KEEPALIVE_POSITION_COUNT" esb_keepalive_bitmap_get esb_keepalive_bitmap_set
proof
  fix bitmap :: bytes and i j b
  assume i: "8 \<le> length bitmap \<and> i < ESB_KEEPALIVE_POSITION_COUNT"
    and j: "8 \<le> length bitmap \<and> j < ESB_KEEPALIVE_POSITION_COUNT"
  have neq: "i \<noteq> j \<Longrightarrow> i div 8 = j div 8 \<Longrightarrow> i mod 8 \<noteq> j mod (8 :: nat)"
    by (metis div_mult_mod_eq)
  have "i div 8 < length bitmap" "j div 8 < length bitmap" "i < 64" "j < 64"
    using i j by (auto simp: keepalive_layout)
  then show "esb_keepalive_bitmap_get (esb_keepalive_bitmap_set bitmap i b) j =
      (if i = j then b else esb_keepalive_bitmap_get bitmap j)"
    using neq
    by (cases "i div 8 = j div 8")
       (auto simp: bitmap_get_bit esb_keepalive_bitmap_set_def keepalive_layout bit_simps bit_byte_bit
          nth_list_update)
qed (auto simp: esb_keepalive_bitmap_set_def)

lemma length_bitmap_set [simp]: "length (esb_keepalive_bitmap_set bitmap p b) = length bitmap"
  by (simp add: esb_keepalive_bitmap_set_def)

lemma bitmap_get_out [simp]: "ESB_KEEPALIVE_POSITION_COUNT \<le> p \<Longrightarrow> \<not> esb_keepalive_bitmap_get bitmap p"
  by (simp add: esb_keepalive_bitmap_get_def)

lemmas bitmap_get_set = positions.get_set

text \<open>The scan stops at the first differing position at or after its start.\<close>

lemma diff_next_cases:
  assumes "stop = esb_keepalive_bitmap_diff_next tracked received position"
    and "position \<le> ESB_KEEPALIVE_POSITION_COUNT"
  shows "position \<le> stop \<and> stop \<le> ESB_KEEPALIVE_POSITION_COUNT \<and>
    (\<forall>p. position \<le> p \<longrightarrow> p < stop \<longrightarrow>
      esb_keepalive_bitmap_get tracked p = esb_keepalive_bitmap_get received p) \<and>
    (stop < ESB_KEEPALIVE_POSITION_COUNT \<longrightarrow>
      esb_keepalive_bitmap_get tracked stop \<noteq> esb_keepalive_bitmap_get received stop)"
proof (cases "first_index (\<lambda>p. esb_keepalive_bitmap_get tracked p \<noteq> esb_keepalive_bitmap_get received p)
    [position..<ESB_KEEPALIVE_POSITION_COUNT]")
  case None
  then have same: "\<forall>p \<in> set [position..<ESB_KEEPALIVE_POSITION_COUNT].
      esb_keepalive_bitmap_get tracked p = esb_keepalive_bitmap_get received p"
    by (simp add: first_index_None)
  have "stop = ESB_KEEPALIVE_POSITION_COUNT"
    using assms(1) by (simp only: esb_keepalive_bitmap_diff_next_def None option.case)
  then show ?thesis
    using same assms(2) by simp
next
  case (Some index)
  have "stop = position + index"
    using assms(1) by (simp only: esb_keepalive_bitmap_diff_next_def Some option.case)
  then show ?thesis
    using first_index_upt [OF Some] by auto
qed

section \<open>Round trip\<close>

lemma length_encode_held: "length (concat (map held_key_bytes keys)) = 3 * length keys"
  by (induction keys) (simp_all add: held_key_bytes_def)

lemma length_encode_motion: "length (concat (map motion_total_bytes motions)) = 4 * length motions"
  by (induction motions) (simp_all add: motion_total_bytes_def)

lemma length_encode_sensors: "length (concat (map put_le64 totals)) = 8 * length totals"
  by (induction totals) simp_all

text \<open>Dropping whole entries of a table leaves the entries after them.\<close>

lemma drop_entries:
  assumes "\<And>x. length (f x) = width" and "i < length xs"
  shows "drop (i * width) (concat (map f xs) @ rest) = f (xs ! i) @ concat (map f (drop (Suc i) xs)) @ rest"
  using assms(2)
proof (induction xs arbitrary: i)
  case (Cons x xs)
  then show ?case
    using assms(1) by (cases i) simp_all
qed simp

lemma drop_entries_at:
  assumes "\<And>x. length (f x) = width" and "i < length xs" and "length front = offset"
  shows "drop (offset + i * width) (front @ concat (map f xs) @ rest) =
    f (xs ! i) @ concat (map f (drop (Suc i) xs)) @ rest"
  using drop_entries [OF assms(1,2), where rest = rest] assms(3)
  by (simp add: add.commute flip: drop_drop)

definition snapshot_ok :: "esb_keepalive_snapshot \<Rightarrow> bool" where
  "snapshot_ok snapshot \<longleftrightarrow>
     length (snap_position_bitmap snapshot) = ESB_KEEPALIVE_BITMAP_BYTES \<and>
     length (snap_held_keys snapshot) < 256 \<and> length (snap_motion_totals snapshot) < 256"

lemma encode_length:
  assumes "snapshot_ok snapshot" and "data = esb_keepalive_encode out_size snapshot" and "data \<noteq> []"
  shows "length data = ESB_KEEPALIVE_LENGTH (length (snap_held_keys snapshot))
    (length (snap_motion_totals snapshot)) (length (snap_sensor_totals snapshot)) \<and> length data \<le> out_size"
  using assms
  by (auto simp: esb_keepalive_encode_def Let_def snapshot_ok_def keepalive_layout encode_held_keys_def
      encode_motion_totals_def length_encode_held length_encode_motion length_encode_sensors split: if_splits)

lemma encode_parts:
  assumes "snapshot_ok snapshot" and "data = esb_keepalive_encode out_size snapshot" and "data \<noteq> []"
  shows "data = [ESB_KEEPALIVE_TAG, snap_state snapshot] @ snap_position_bitmap snapshot @
      [snap_battery_level snapshot, snap_link_cost_x10 snapshot, of_nat (length (snap_held_keys snapshot))] @
      concat (map held_key_bytes (snap_held_keys snapshot)) @
      of_nat (length (snap_motion_totals snapshot)) #
      concat (map motion_total_bytes (snap_motion_totals snapshot)) @
      concat (map put_le64 (snap_sensor_totals snapshot))"
  using assms
  by (auto simp: esb_keepalive_encode_def Let_def snapshot_ok_def encode_held_keys_def
      encode_motion_totals_def split: if_splits)

lemma encode_counts:
  assumes "snapshot_ok snapshot" and "data = esb_keepalive_encode out_size snapshot" and "data \<noteq> []"
  shows "unat (esb_keepalive_held_count data) = length (snap_held_keys snapshot)"
    and "unat (esb_keepalive_motion_count data) = length (snap_motion_totals snapshot)"
proof -
  note parts = encode_parts [OF assms]
  have bitmap: "length (snap_position_bitmap snapshot) = 8"
    using assms(1) by (simp add: snapshot_ok_def keepalive_layout)
  show held: "unat (esb_keepalive_held_count data) = length (snap_held_keys snapshot)"
    using assms(1) bitmap unfolding parts
    by (simp add: esb_keepalive_held_count_def keepalive_layout nth_append unat_of_nat_u8 snapshot_ok_def)
  have "data = ([ESB_KEEPALIVE_TAG, snap_state snapshot] @ snap_position_bitmap snapshot @
      [snap_battery_level snapshot, snap_link_cost_x10 snapshot, of_nat (length (snap_held_keys snapshot))] @
      concat (map held_key_bytes (snap_held_keys snapshot))) @
      of_nat (length (snap_motion_totals snapshot)) # concat (map motion_total_bytes (snap_motion_totals snapshot)) @
      concat (map put_le64 (snap_sensor_totals snapshot))"
    (is "_ = ?front @ ?count # _")
    unfolding parts by simp
  moreover have "length ?front = motion_count_offset data"
    using bitmap held by (simp add: motion_count_offset_def keepalive_layout length_encode_held)
  ultimately have "data ! motion_count_offset data = ?count"
    by (metis nth_append_length)
  then show "unat (esb_keepalive_motion_count data) = length (snap_motion_totals snapshot)"
    using assms(1) by (simp add: esb_keepalive_motion_count_def unat_of_nat_u8 snapshot_ok_def)
qed

lemma encode_tables:
  assumes "snapshot_ok snapshot" and "data = esb_keepalive_encode out_size snapshot" and "data \<noteq> []"
  shows "i < length (snap_held_keys snapshot) \<Longrightarrow>
      esb_keepalive_held_key_at data i = snap_held_keys snapshot ! i"
    and "i < length (snap_motion_totals snapshot) \<Longrightarrow>
      esb_keepalive_motion_total_at data i = snap_motion_totals snapshot ! i"
    and "i < length (snap_sensor_totals snapshot) \<Longrightarrow>
      esb_keepalive_sensor_total_udeg data i = snap_sensor_totals snapshot ! i"
proof -
  define fixed where "fixed = [ESB_KEEPALIVE_TAG, snap_state snapshot] @ snap_position_bitmap snapshot @
      [snap_battery_level snapshot, snap_link_cost_x10 snapshot, of_nat (length (snap_held_keys snapshot))]"
  define held where "held = concat (map held_key_bytes (snap_held_keys snapshot))"
  define count where "count = (of_nat (length (snap_motion_totals snapshot)) :: u8)"
  define motion where "motion = concat (map motion_total_bytes (snap_motion_totals snapshot))"
  define sensors where "sensors = concat (map put_le64 (snap_sensor_totals snapshot))"
  have data: "data = fixed @ held @ count # motion @ sensors"
    unfolding encode_parts [OF assms] by (simp add: fixed_def held_def count_def motion_def sensors_def)
  have len: "length fixed = 13" "length held = 3 * length (snap_held_keys snapshot)"
    "length motion = 4 * length (snap_motion_totals snapshot)"
    using assms(1)
    by (simp_all add: fixed_def held_def motion_def length_encode_held length_encode_motion snapshot_ok_def
        keepalive_layout)
  note counts = encode_counts [OF assms]
  show "esb_keepalive_held_key_at data i = snap_held_keys snapshot ! i" if "i < length (snap_held_keys snapshot)"
    using drop_entries_at [of held_key_bytes 3 i "snap_held_keys snapshot" fixed 13 "count # motion @ sensors"]
      that len(1)
    by (simp add: data esb_keepalive_held_key_at_def keepalive_layout held_def held_key_bytes_def Let_def)
  show "esb_keepalive_motion_total_at data i = snap_motion_totals snapshot ! i"
    if "i < length (snap_motion_totals snapshot)"
  proof -
    have "drop (motion_entry_offset (unat (esb_keepalive_held_count data)) i) data =
        motion_total_bytes (snap_motion_totals snapshot ! i) @
        concat (map motion_total_bytes (drop (Suc i) (snap_motion_totals snapshot))) @ sensors"
      using drop_entries_at [of motion_total_bytes 4 i "snap_motion_totals snapshot" "fixed @ held @ [count]"
          "14 + 3 * length (snap_held_keys snapshot)" sensors] that len counts
      by (simp add: data motion_entry_offset_def keepalive_layout motion_def motion_total_bytes_def
          add.assoc mult.commute)
    then show ?thesis
      by (simp add: esb_keepalive_motion_total_at_def motion_total_bytes_def Let_def)
  qed
  show "esb_keepalive_sensor_total_udeg data i = snap_sensor_totals snapshot ! i"
    if "i < length (snap_sensor_totals snapshot)"
  proof -
    have "drop (sensor_offset data + i * ESB_KEEPALIVE_SENSOR_BYTES) data =
        put_le64 (snap_sensor_totals snapshot ! i) @
        concat (map put_le64 (drop (Suc i) (snap_sensor_totals snapshot))) @ []"
      using drop_entries_at [of put_le64 8 i "snap_sensor_totals snapshot" "fixed @ held @ [count] @ motion"
          "14 + 3 * length (snap_held_keys snapshot) + 4 * length (snap_motion_totals snapshot)" "[]"]
        that len counts
      by (simp add: data sensor_offset_def keepalive_layout sensors_def add.assoc mult.commute)
    then show ?thesis
      by (simp add: esb_keepalive_sensor_total_udeg_def)
  qed
qed

lemma encode_offsets:
  assumes "snapshot_ok snapshot" and "data = esb_keepalive_encode out_size snapshot" and "data \<noteq> []"
  shows "length data = 14 + 3 * length (snap_held_keys snapshot) + 4 * length (snap_motion_totals snapshot) +
      8 * length (snap_sensor_totals snapshot)"
    and "motion_count_offset data = 13 + 3 * length (snap_held_keys snapshot)"
    and "sensor_offset data = 14 + 3 * length (snap_held_keys snapshot) + 4 * length (snap_motion_totals snapshot)"
  using encode_length [OF assms] encode_counts [OF assms]
  by (simp_all add: motion_count_offset_def sensor_offset_def keepalive_layout)

lemma encode_matches:
  assumes "snapshot_ok snapshot" and "data = esb_keepalive_encode out_size snapshot" and "data \<noteq> []"
  shows "esb_keepalive_matches data (length data)"
  using encode_offsets [OF assms] encode_parts [OF assms]
  by (simp add: esb_keepalive_matches_def Let_def keepalive_layout)

lemma encode_bitmap:
  assumes "snapshot_ok snapshot" and "data = esb_keepalive_encode out_size snapshot" and "data \<noteq> []"
  shows "take ESB_KEEPALIVE_BITMAP_BYTES (esb_keepalive_bitmap data) = snap_position_bitmap snapshot"
  using assms(1) unfolding encode_parts [OF assms]
  by (simp add: esb_keepalive_bitmap_def keepalive_layout snapshot_ok_def)

text \<open>
  Claim C36: a keepalive that was encoded is recognised, and every accessor the central uses
  reads back the field, held key, motion total or sensor total the peripheral put in.
\<close>

theorem esb_keepalive_roundtrip:
  assumes "snapshot_ok snapshot" and "data = esb_keepalive_encode out_size snapshot" and "data \<noteq> []"
    and "length (snap_sensor_totals snapshot) < 256"
  shows "esb_keepalive_matches data (length data) \<and>
    esb_keepalive_state data = snap_state snapshot \<and>
    esb_keepalive_battery_level data = snap_battery_level snapshot \<and>
    esb_keepalive_link_cost_x10 data = snap_link_cost_x10 snapshot \<and>
    take ESB_KEEPALIVE_BITMAP_BYTES (esb_keepalive_bitmap data) = snap_position_bitmap snapshot \<and>
    map (esb_keepalive_held_key_at data) [0..<unat (esb_keepalive_held_count data)] = snap_held_keys snapshot \<and>
    map (esb_keepalive_motion_total_at data) [0..<unat (esb_keepalive_motion_count data)] = snap_motion_totals snapshot \<and>
    map (esb_keepalive_sensor_total_udeg data) [0..<unat (esb_keepalive_sensor_count data (length data))] =
      snap_sensor_totals snapshot"
proof -
  note parts = encode_parts [OF assms(1-3)]
  note counts = encode_counts [OF assms(1-3)]
  note tables = encode_tables [OF assms(1-3)]
  have bitmap: "length (snap_position_bitmap snapshot) = 8"
    using assms(1) by (simp add: snapshot_ok_def keepalive_layout)
  note offsets = encode_offsets [OF assms(1-3)]
  note matches = encode_matches [OF assms(1-3)]
  have sensors: "unat (esb_keepalive_sensor_count data (length data)) = length (snap_sensor_totals snapshot)"
    using offsets assms(4)
    by (simp add: esb_keepalive_sensor_count_def Let_def keepalive_layout unat_of_nat_u8)
  have fields: "esb_keepalive_state data = snap_state snapshot"
    "esb_keepalive_battery_level data = snap_battery_level snapshot"
    "esb_keepalive_link_cost_x10 data = snap_link_cost_x10 snapshot"
    using bitmap unfolding parts
    by (simp_all add: esb_keepalive_state_def esb_keepalive_battery_level_def esb_keepalive_link_cost_x10_def
        keepalive_layout nth_append)
  show ?thesis
    using matches fields encode_bitmap [OF assms(1-3)] tables counts sensors
    by (intro conjI) (auto intro!: nth_equalityI)
qed

definition snapshot_example :: esb_keepalive_snapshot where
  "snapshot_example = \<lparr>snap_state = 1, snap_link_cost_x10 = 12, snap_battery_level = 87,
     snap_position_bitmap = [1, 0, 0, 0, 0, 0, 0, 0x80], snap_held_keys = [\<lparr>held_reg = 2, held_code = 0x110\<rparr>],
     snap_motion_totals = [\<lparr>motion_reg = 0, motion_code = 1, short_total = 0xFFFE\<rparr>],
     snap_sensor_totals = [90000000]\<rparr>"

lemma snapshot_example_encodes:
  "snapshot_ok snapshot_example" "esb_keepalive_encode 64 snapshot_example \<noteq> []"
  "length (snap_sensor_totals snapshot_example) < 256"
  by (simp_all add: snapshot_example_def snapshot_ok_def esb_keepalive_encode_def keepalive_layout Let_def)

theorem esb_keepalive_roundtrip_witness:
  "esb_keepalive_battery_level (esb_keepalive_encode 64 snapshot_example) = 87"
  using esb_keepalive_roundtrip [OF snapshot_example_encodes(1) refl snapshot_example_encodes(2,3)]
  by (simp add: snapshot_example_def)

text \<open>
  Claim C37: a packet the recogniser accepts is safe to read: every byte that an accessor looks
  at, for every index below the count it reports, lies inside the packet.
\<close>

theorem esb_keepalive_matches_bounds:
  assumes "esb_keepalive_matches data len" and "len \<le> length data" and "len < 256"
  shows "ESB_KEEPALIVE_BITMAP_OFFSET + ESB_KEEPALIVE_BITMAP_BYTES \<le> len \<and> motion_count_offset data < len \<and>
    (\<forall>i < unat (esb_keepalive_held_count data).
      ESB_KEEPALIVE_HELD_OFFSET + i * ESB_KEEPALIVE_HELD_BYTES + 3 \<le> len) \<and>
    (\<forall>i < unat (esb_keepalive_motion_count data).
      motion_entry_offset (unat (esb_keepalive_held_count data)) i + 4 \<le> len) \<and>
    (\<forall>i < unat (esb_keepalive_sensor_count data len).
      sensor_offset data + i * ESB_KEEPALIVE_SENSOR_BYTES + 8 \<le> len)"
proof -
  define held where "held = unat (esb_keepalive_held_count data)"
  define motion where "motion = unat (esb_keepalive_motion_count data)"
  define totals where "totals = 14 + 3 * held + 4 * motion"
  have m: "13 + 3 * held < len" "totals \<le> len" "14 \<le> len"
    using assms(1)
    by (auto simp: esb_keepalive_matches_def Let_def motion_count_offset_def sensor_offset_def keepalive_layout
        held_def [symmetric] motion_def [symmetric] totals_def split: if_splits)
  have "(len - totals) div 8 < 256"
    using assms(3) by linarith
  then have s: "unat (esb_keepalive_sensor_count data len) = (len - totals) div 8"
    using m by (simp add: esb_keepalive_sensor_count_def Let_def motion_count_offset_def sensor_offset_def
        keepalive_layout held_def [symmetric] motion_def [symmetric] totals_def unat_of_nat_u8)
  have "totals + i * 8 + 8 \<le> len" if "i < (len - totals) div 8" for i
    using that m(2) by linarith
  then show ?thesis
    using m unfolding s
    by (auto simp: motion_count_offset_def sensor_offset_def motion_entry_offset_def keepalive_layout
        held_def [symmetric] motion_def [symmetric] totals_def)
qed

theorem esb_keepalive_matches_bounds_witness:
  "motion_count_offset (0xFF # replicate 13 0) < 14"
  using esb_keepalive_matches_bounds [of "0xFF # replicate 13 0" 14]
  by (simp add: esb_keepalive_matches_def keepalive_layout ESB_KEEPALIVE_TAG_def motion_count_offset_def
      sensor_offset_def esb_keepalive_held_count_def esb_keepalive_motion_count_def Let_def)

end
