(* ===== verification/Delta_Track.thy ===== *)
theory Delta_Track
  imports Prelude
begin

text \<open>
  The interface of the running-total trackers: lossy pointer motion
  (\<open>src/esb_motion_total.h\<close>) and sensor rotation (\<open>src/esb_sensor_sync.c\<close>)
  both cross the air as cumulative totals, and the receiver forwards the difference to the
  last total it heard. A lost packet is covered by the next one: that is the telescoping
  lemma here, proved once for both trackers.
\<close>

locale delta_tracker =
  fixes base :: "'t \<Rightarrow> ('w :: ab_group_add) option"
    and adopt :: "'t \<Rightarrow> 'w \<Rightarrow> 't \<times> 'w option"
    and small :: "'w \<Rightarrow> bool"
  assumes base_adopt: "base (fst (adopt t tot)) = Some tot"
    and delta_adopt: "snd (adopt t tot) = (case base t of None \<Rightarrow> None
      | Some prev \<Rightarrow> if tot - prev \<noteq> 0 \<and> small (tot - prev) then Some (tot - prev) else None)"
begin

text \<open>The deltas forwarded for a sequence of totals, summed.\<close>

fun forwarded :: "'t \<Rightarrow> 'w list \<Rightarrow> 'w" where
  "forwarded t [] = 0"
| "forwarded t (tot # tots) =
     (let (t, delta) = adopt t tot
      in (case delta of None \<Rightarrow> 0 | Some d \<Rightarrow> d) + forwarded t tots)"

fun small_gaps :: "'w \<Rightarrow> 'w list \<Rightarrow> bool" where
  "small_gaps prev [] = True"
| "small_gaps prev (tot # tots) = ((tot = prev \<or> small (tot - prev)) \<and> small_gaps tot tots)"

text \<open>The gaps a tracker resyncs over instead of forwarding them, summed.\<close>

fun skipped :: "'w \<Rightarrow> 'w list \<Rightarrow> 'w" where
  "skipped prev [] = 0"
| "skipped prev (tot # tots) = (if small (tot - prev) \<or> tot = prev then 0 else tot - prev) + skipped tot tots"

text \<open>Whatever the gaps: what is forwarded and what is skipped make the whole difference.\<close>

lemma forwarded_exact:
  assumes "base t = Some first"
  shows "forwarded t tots + skipped first tots = last (first # tots) - first"
  using assms
proof (induction tots arbitrary: t first)
  case Nil
  then show ?case by simp
next
  case (Cons tot tots)
  obtain t' delta where a: "adopt t tot = (t', delta)" by fastforce
  have "base t' = Some tot"
    using base_adopt [of t tot] a by simp
  then have "forwarded t' tots + skipped tot tots = last (tot # tots) - tot"
    by (rule Cons.IH)
  moreover have "(case delta of None \<Rightarrow> 0 | Some d \<Rightarrow> d) = (if small (tot - first) then tot - first else 0)"
    using delta_adopt [of t tot] a Cons.prems by auto
  ultimately show ?case
    using a by (auto simp: algebra_simps)
qed

lemma skipped_none: "small_gaps first tots \<Longrightarrow> skipped first tots = 0"
  by (induction tots arbitrary: first) auto

lemma forwarded_telescopes:
  assumes "base t = Some first" and "small_gaps first tots"
  shows "forwarded t tots = last (first # tots) - first"
  using forwarded_exact [OF assms(1), of tots] unfolding skipped_none [OF assms(2)] add_0_right .

lemma skipped_append:
  "skipped first (tots @ [tot]) = skipped first tots + skipped (last (first # tots)) [tot]"
  by (induction tots arbitrary: first) (simp_all add: add.assoc)

lemma base_after:
  "tots \<noteq> [] \<Longrightarrow> base (fold (\<lambda>tot t. fst (adopt t tot)) tots t) = Some (last tots)"
  by (induction tots rule: rev_induct) (simp_all add: base_adopt)

text \<open>The first total of a fresh tracker only sets the baseline.\<close>

lemma forwarded_fresh:
  assumes "base t = None" and "small_gaps tot tots"
  shows "forwarded t (tot # tots) = last (tot # tots) - tot"
proof -
  obtain t' delta where a: "adopt t tot = (t', delta)" by fastforce
  have "base t' = Some tot" "delta = None"
    using base_adopt [of t tot] delta_adopt [of t tot] a assms(1) by simp_all
  then show ?thesis
    using forwarded_telescopes [of t' tot tots] a assms(2) by simp
qed

end

end
