(* ===== verification/Motion_Total.thy ===== *)
theory Motion_Total
  imports Delta_Track
begin

text \<open>
  Running totals of lossy input axes (\<open>src/esb_motion_total.h\<close>). Totals are 32-bit
  words that wrap; the keepalive carries their low 16 bits.
\<close>

definition ESB_MOTION_RESYNC_COUNTS :: int where
  "ESB_MOTION_RESYNC_COUNTS = 8192"

record esb_motion_track =
  last_total :: i32
  valid :: bool

definition motion_track_blank :: esb_motion_track where
  "motion_track_blank = \<lparr>last_total = 0, valid = False\<rparr>"

definition esb_motion_total_add :: "i32 \<Rightarrow> i32 \<Rightarrow> i32" where
  "esb_motion_total_add tot delta = tot + delta"

text \<open>The delta is the second result, \<^const>\<open>None\<close> where the C function returns
  false and leaves its output alone.\<close>

definition esb_motion_track_gap :: "esb_motion_track \<Rightarrow> i32 \<Rightarrow> esb_motion_track \<times> i32 option" where
  "esb_motion_track_gap track gap =
     (let track = track\<lparr>last_total := esb_motion_total_add (last_total track) gap\<rparr>
      in if gap = 0 \<or> sint gap > ESB_MOTION_RESYNC_COUNTS \<or> sint gap < - ESB_MOTION_RESYNC_COUNTS
         then (track, None) else (track, Some gap))"

definition esb_motion_track_delta :: "esb_motion_track \<Rightarrow> i32 \<Rightarrow> esb_motion_track \<times> i32 option" where
  "esb_motion_track_delta track tot =
     (if \<not> valid track then (track\<lparr>last_total := tot, valid := True\<rparr>, None)
      else esb_motion_track_gap track (tot - last_total track))"

definition esb_motion_track_short_delta ::
  "esb_motion_track \<Rightarrow> 16 word \<Rightarrow> esb_motion_track \<times> i32 option" where
  "esb_motion_track_short_delta track short_total =
     (if \<not> valid track then (track, None)
      else
        let gap = short_total - ucast (last_total track)
        in esb_motion_track_gap track (scast gap))"

definition esb_motion_quiet_enough :: "u32 \<Rightarrow> u32 \<Rightarrow> bool" where
  "esb_motion_quiet_enough quiet_ms hop_window_ms \<longleftrightarrow> quiet_ms \<ge> hop_window_ms"

definition motion_base :: "esb_motion_track \<Rightarrow> i32 option" where
  "motion_base track = (if valid track then Some (last_total track) else None)"

definition motion_small :: "i32 \<Rightarrow> bool" where
  "motion_small gap \<longleftrightarrow> \<bar>sint gap\<bar> \<le> ESB_MOTION_RESYNC_COUNTS"

interpretation motion: delta_tracker motion_base esb_motion_track_delta motion_small
  by unfold_locales
     (auto simp: motion_base_def motion_small_def esb_motion_track_delta_def esb_motion_track_gap_def
        esb_motion_total_add_def Let_def)

section \<open>Short totals\<close>

lemma sint_short: "sint (ucast (d :: i32) :: 16 word) = signed_take_bit 15 (sint d)"
  by transfer (simp add: signed_take_bit_take_bit)

lemma sint_widen: "sint (scast (x :: 16 word) :: i32) = sint x"
  by transfer simp

lemma short_diff: "ucast (x - y :: i32) = (ucast x - ucast y :: 16 word)"
proof transfer
  fix x y :: int
  have "take_bit 16 (take_bit 32 x - take_bit 32 y) =
      take_bit 16 (take_bit 16 (take_bit 32 x) - take_bit 16 (take_bit 32 y))"
    by (simp only: take_bit_diff)
  also have "\<dots> = take_bit 16 (x - y)"
    by (simp add: take_bit_take_bit take_bit_diff)
  finally show "take_bit LENGTH(16) (take_bit LENGTH(32) (x - y)) =
      take_bit LENGTH(16) (take_bit LENGTH(32) x - take_bit LENGTH(32) y)"
    by (simp add: take_bit_take_bit)
qed

lemma scast_ucast_small:
  assumes "\<bar>sint (d :: i32)\<bar> < 2 ^ 15"
  shows "scast (ucast d :: 16 word) = d"
proof (rule signed_word_eqI)
  show "sint (scast (ucast d :: 16 word) :: i32) = sint d"
    using assms by (simp add: sint_widen sint_short signed_take_bit_int_eq_self_iff abs_less_iff)
qed

lemma short_delta_adopts:
  assumes "valid track" and "\<bar>sint (tot - last_total track)\<bar> < 2 ^ 15"
  shows "esb_motion_track_short_delta track (ucast tot) = esb_motion_track_delta track tot"
proof -
  have "scast ((ucast tot :: 16 word) - ucast (last_total track)) = tot - last_total track"
    using scast_ucast_small [OF assms(2)] by (simp add: short_diff)
  then show ?thesis
    using assms(1) by (simp add: esb_motion_track_short_delta_def esb_motion_track_delta_def Let_def)
qed

text \<open>
  Lossy pointer motion is lossless in the end: whichever running totals reached the
  central, the deltas it forwards for them and the heal of the next keepalive, which carries
  only 16 bits of the final total, add up to every count the axis moved, across 32-bit
  wrap-around, as long as no gap passes the resync cap.
\<close>

theorem esb_motion_lossless:
  assumes "motion_base track = Some start" and "motion.small_gaps start heard"
    and "final = fold (\<lambda>move tot. esb_motion_total_add tot move) moves start"
    and "motion_small (final - last (start # heard))"
    and "track' = fold (\<lambda>tot track. fst (esb_motion_track_delta track tot)) heard track"
  shows "motion.forwarded track heard +
      (case snd (esb_motion_track_short_delta track' (ucast final)) of None \<Rightarrow> 0 | Some heal \<Rightarrow> heal) =
    sum_list moves"
proof -
  have final: "fold (\<lambda>move tot. esb_motion_total_add tot move) moves s = s + sum_list moves" for s
    by (induction moves arbitrary: s) (simp_all add: esb_motion_total_add_def)
  have base: "motion_base track' = Some (last (start # heard))"
    using assms(1) motion.base_after [of heard track] by (cases "heard = []") (simp_all add: assms(5))
  then have v: "valid track'" "last_total track' = last (start # heard)"
    by (auto simp: motion_base_def split: if_splits)
  have "\<bar>sint (final - last_total track')\<bar> < 2 ^ 15"
    using assms(4) v(2) by (simp add: motion_small_def ESB_MOTION_RESYNC_COUNTS_def)
  from short_delta_adopts [OF v(1) this]
  have "(case snd (esb_motion_track_short_delta track' (ucast final)) of None \<Rightarrow> 0 | Some heal \<Rightarrow> heal) =
      final - last (start # heard)"
    using motion.delta_adopt [of track' final] base assms(4) by simp
  then show ?thesis
    using motion.forwarded_telescopes [OF assms(1,2)] by (simp add: assms(3) final)
qed

theorem esb_motion_lossless_witness:
  "motion.forwarded \<lparr>last_total = 0xFFFFFFF0, valid = True\<rparr> [0xFFFFFFFA] +
     (case snd (esb_motion_track_short_delta \<lparr>last_total = 0xFFFFFFFA, valid = True\<rparr> (ucast (4 :: i32))) of
        None \<Rightarrow> 0 | Some heal \<Rightarrow> heal) = 20"
  using esb_motion_lossless [of "\<lparr>last_total = 0xFFFFFFF0, valid = True\<rparr>" "0xFFFFFFF0" "[0xFFFFFFFA]" 4
      "[10, 3, 7]" "\<lparr>last_total = 0xFFFFFFFA, valid = True\<rparr>"]
  by (simp add: motion_base_def motion_small_def ESB_MOTION_RESYNC_COUNTS_def esb_motion_total_add_def
      esb_motion_track_delta_def esb_motion_track_gap_def)

end
