(* ===== verification/Central_Input.thy ===== *)
theory Central_Input
  imports Esb_Wire Keepalive Motion_Total
begin

text \<open>
  Input split on the central (\<open>src/central_input.c\<close>): tracked input keys and motion
  tracks of one pipe, the live event path, the reconcile against a keepalive and the release
  of a silent pipe. The C arrays are indexed by pipe and no operation touches another pipe's
  slot, so the record below is one pipe's slice of them; \<open>Central\<close> keeps one per pipe.
  Calls into ZMK are the values of \<open>zmk_call\<close>, in order.
\<close>

definition CENTRAL_INPUT_REG_MAX :: nat where "CENTRAL_INPUT_REG_MAX = 32"
definition MOTION_TRACKS_MAX :: nat where "MOTION_TRACKS_MAX = 4"
definition ESB_LINK_PIPE_MAX :: nat where "ESB_LINK_PIPE_MAX = 8"

datatype zmk_call =
    Peripheral_event nat event
  | Input_split_disconnected nat
  | Battery_changed nat u8
  | Peripheral_changed nat bool
  | Status_changed bool connections
  | Process_indicators u8

record tracked_input_key =
  slot_held :: bool
  slot_key :: esb_keepalive_held_key

record tracked_motion =
  track_used :: bool
  track_reg :: u8
  track_code :: u8
  track :: esb_motion_track

record central_input =
  seen_input_regs :: u32
  tracked_keys :: "tracked_input_key list"
  tracked_motions :: "tracked_motion list"
  motion_heard_ms :: u32
  input_reset :: bool

definition blank_key_slot :: tracked_input_key where
  "blank_key_slot = \<lparr>slot_held = False, slot_key = \<lparr>held_reg = 0, held_code = 0\<rparr>\<rparr>"

definition blank_motion_slot :: tracked_motion where
  "blank_motion_slot = \<lparr>track_used = False, track_reg = 0, track_code = 0, track = motion_track_blank\<rparr>"

text \<open>\<open>keys_max\<close> is \<open>CENTRAL_INPUT_HELD_KEYS_MAX\<close>.\<close>

definition central_input_boot :: "nat \<Rightarrow> central_input" where
  "central_input_boot keys_max = \<lparr>seen_input_regs = 0, tracked_keys = replicate keys_max blank_key_slot,
     tracked_motions = replicate MOTION_TRACKS_MAX blank_motion_slot, motion_heard_ms = 0,
     input_reset = False\<rparr>"

section \<open>Tables\<close>

definition note_input_reg :: "u8 \<Rightarrow> central_input \<Rightarrow> central_input" where
  "note_input_reg reg ci =
     (if unat reg < CENTRAL_INPUT_REG_MAX
      then ci\<lparr>seen_input_regs := seen_input_regs ci OR push_bit (unat reg) 1\<rparr> else ci)"

definition input_keys_equal :: "esb_keepalive_held_key \<Rightarrow> esb_keepalive_held_key \<Rightarrow> bool" where
  "input_keys_equal left right =
     (if held_reg left \<noteq> held_reg right then False else held_code left = held_code right)"

definition find_tracked_input_key :: "esb_keepalive_held_key \<Rightarrow> tracked_input_key list \<Rightarrow> nat option" where
  "find_tracked_input_key key slots =
     first_index (\<lambda>slot. slot_held slot \<and> input_keys_equal (slot_key slot) key) slots"

text \<open>\<^const>\<open>None\<close> for \<open>-ENOMEM\<close>.\<close>

definition track_input_key ::
  "esb_keepalive_held_key \<Rightarrow> tracked_input_key list \<Rightarrow> tracked_input_key list option" where
  "track_input_key key slots =
     (case first_index (\<lambda>slot. \<not> slot_held slot) slots of
        Some index \<Rightarrow> Some (slots[index := \<lparr>slot_held = True, slot_key = key\<rparr>])
      | None \<Rightarrow> None)"

definition untrack_input_key ::
  "esb_keepalive_held_key \<Rightarrow> tracked_input_key list \<Rightarrow> tracked_input_key list" where
  "untrack_input_key key slots =
     (case find_tracked_input_key key slots of
        Some index \<Rightarrow> slots[index := (slots ! index)\<lparr>slot_held := False\<rparr>]
      | None \<Rightarrow> slots)"

definition apply_input_reset :: "central_input \<Rightarrow> central_input" where
  "apply_input_reset ci =
     (if \<not> input_reset ci then ci
      else ci\<lparr>input_reset := False,
              tracked_keys := map (\<lambda>slot. slot\<lparr>slot_held := False\<rparr>) (tracked_keys ci),
              tracked_motions := map (\<lambda>slot. slot\<lparr>track_used := False\<rparr>) (tracked_motions ci)\<rparr>)"

definition find_motion_track :: "u8 \<Rightarrow> u8 \<Rightarrow> tracked_motion list \<Rightarrow> nat option" where
  "find_motion_track reg code slots =
     first_index (\<lambda>slot. track_used slot \<and> track_reg slot = reg \<and> track_code slot = code) slots"

definition claim_motion_track :: "u8 \<Rightarrow> u8 \<Rightarrow> tracked_motion list \<Rightarrow> tracked_motion list \<times> nat option" where
  "claim_motion_track reg code slots =
     (case find_motion_track reg code slots of
        Some found \<Rightarrow> (slots, Some found)
      | None \<Rightarrow>
          case first_index (\<lambda>slot. \<not> track_used slot) slots of
            Some index \<Rightarrow>
              (slots[index := \<lparr>track_used = True, track_reg = reg, track_code = code, track = motion_track_blank\<rparr>],
               Some index)
          | None \<Rightarrow> (slots, None))"

section \<open>Live events\<close>

text \<open>\<open>now\<close> is \<open>k_uptime_get_32()\<close>.\<close>

definition motion_total_to_delta :: "u32 \<Rightarrow> event \<Rightarrow> central_input \<Rightarrow> central_input \<times> event" where
  "motion_total_to_delta now event ci =
     (let sync = input_sync event AND ESB_WIRE_INPUT_SYNC;
          ci = ci\<lparr>motion_heard_ms := now\<rparr>;
          (slots, found) = claim_motion_track (input_reg event) (ucast (input_code event)) (tracked_motions ci);
          ci = ci\<lparr>tracked_motions := slots\<rparr>
      in case found of
           None \<Rightarrow> (ci, Input_event (input_reg event) sync (input_type event) (input_code event) 0)
         | Some index \<Rightarrow>
             let (t, delta) = esb_motion_track_delta (track (slots ! index)) (input_value event);
                 ci = ci\<lparr>tracked_motions := slots[index := (slots ! index)\<lparr>track := t\<rparr>]\<rparr>
             in (ci, Input_event (input_reg event) sync (input_type event) (input_code event)
                       (case delta of None \<Rightarrow> 0 | Some d \<Rightarrow> d)))"

text \<open>The key part of the handler: \<^const>\<open>None\<close> for the early return on a repeated press.\<close>

definition deliver_key_transition :: "event \<Rightarrow> central_input \<Rightarrow> central_input option" where
  "deliver_key_transition event ci =
     (if input_type event \<noteq> INPUT_EV_KEY then Some ci
      else
        let key = \<lparr>held_reg = input_reg event, held_code = input_code event\<rparr>;
            pressed = (input_value event \<noteq> 0)
        in if pressed \<and> find_tracked_input_key key (tracked_keys ci) \<noteq> None then None
           else if \<not> pressed then Some (ci\<lparr>tracked_keys := untrack_input_key key (tracked_keys ci)\<rparr>)
           else
             case track_input_key key (tracked_keys ci) of
               Some slots \<Rightarrow> Some (ci\<lparr>tracked_keys := slots\<rparr>)
             | None \<Rightarrow> Some ci)"

definition central_input_deliver_event ::
  "u32 \<Rightarrow> nat \<Rightarrow> event \<Rightarrow> central_input \<Rightarrow> central_input \<times> zmk_call list" where
  "central_input_deliver_event now pipe event ci =
     (if pipe \<ge> ESB_LINK_PIPE_MAX then (ci, [Peripheral_event pipe event])
      else
        let ci = note_input_reg (input_reg event) (apply_input_reset ci)
        in case deliver_key_transition event ci of
             None \<Rightarrow> (ci, [])
           | Some ci \<Rightarrow>
               if input_sync event AND ESB_WIRE_INPUT_TOTAL \<noteq> 0 then
                 let (ci, delivered) = motion_total_to_delta now event ci
                 in (ci, [Peripheral_event pipe delivered])
               else (ci, [Peripheral_event pipe event]))"

section \<open>Reconcile\<close>

definition replay_input_key :: "nat \<Rightarrow> esb_keepalive_held_key \<Rightarrow> bool \<Rightarrow> zmk_call" where
  "replay_input_key pipe key pressed =
     Peripheral_event pipe (Input_event (held_reg key) 1 INPUT_EV_KEY (held_code key) (if pressed then 1 else 0))"

definition keepalive_holds_input_key :: "bytes \<Rightarrow> esb_keepalive_held_key \<Rightarrow> bool" where
  "keepalive_holds_input_key keepalive key \<longleftrightarrow>
     first_index (\<lambda>index. input_keys_equal (esb_keepalive_held_key_at keepalive index) key)
       [0..<unat (esb_keepalive_held_count keepalive)] \<noteq> None"

text \<open>The pass over the table, slot by slot.\<close>

fun release_unheld_slots ::
  "nat \<Rightarrow> bytes \<Rightarrow> tracked_input_key list \<Rightarrow> tracked_input_key list \<times> zmk_call list" where
  "release_unheld_slots pipe keepalive [] = ([], [])"
| "release_unheld_slots pipe keepalive (slot # slots) =
     (let (rest, calls) = release_unheld_slots pipe keepalive slots
      in if \<not> slot_held slot \<or> keepalive_holds_input_key keepalive (slot_key slot) then (slot # rest, calls)
         else (slot\<lparr>slot_held := False\<rparr> # rest, replay_input_key pipe (slot_key slot) False # calls))"

definition release_unheld_input_keys ::
  "nat \<Rightarrow> bytes \<Rightarrow> central_input \<Rightarrow> central_input \<times> zmk_call list" where
  "release_unheld_input_keys pipe keepalive ci =
     (let (slots, calls) = release_unheld_slots pipe keepalive (tracked_keys ci)
      in (ci\<lparr>tracked_keys := slots\<rparr>, calls))"

fun press_keys ::
  "nat \<Rightarrow> esb_keepalive_held_key list \<Rightarrow> central_input \<Rightarrow> central_input \<times> zmk_call list" where
  "press_keys pipe [] ci = (ci, [])"
| "press_keys pipe (key # keys) ci =
     (if find_tracked_input_key key (tracked_keys ci) \<noteq> None then press_keys pipe keys ci
      else
        case track_input_key key (tracked_keys ci) of
          None \<Rightarrow> press_keys pipe keys ci
        | Some slots \<Rightarrow>
            let (ci, calls) = press_keys pipe keys (note_input_reg (held_reg key) (ci\<lparr>tracked_keys := slots\<rparr>))
            in (ci, replay_input_key pipe key True # calls))"

definition press_held_input_keys ::
  "nat \<Rightarrow> bytes \<Rightarrow> central_input \<Rightarrow> central_input \<times> zmk_call list" where
  "press_held_input_keys pipe keepalive ci =
     press_keys pipe (map (esb_keepalive_held_key_at keepalive) [0..<unat (esb_keepalive_held_count keepalive)]) ci"

definition motion_heal_at ::
  "bytes \<Rightarrow> nat \<Rightarrow> tracked_motion list \<Rightarrow> tracked_motion list \<times> event option" where
  "motion_heal_at keepalive index slots =
     (let motion = esb_keepalive_motion_total_at keepalive index
      in case find_motion_track (motion_reg motion) (motion_code motion) slots of
           None \<Rightarrow> (slots, None)
         | Some found \<Rightarrow>
             let (t, delta) = esb_motion_track_short_delta (track (slots ! found)) (short_total motion);
                 slots = slots[found := (slots ! found)\<lparr>track := t\<rparr>]
             in case delta of
                  None \<Rightarrow> (slots, None)
                | Some d \<Rightarrow>
                    (slots, Some (Input_event (motion_reg motion) 0 INPUT_EV_REL (ucast (motion_code motion)) d)))"

definition deliver_heal :: "nat \<Rightarrow> event \<Rightarrow> bool \<Rightarrow> zmk_call" where
  "deliver_heal pipe heal sync =
     Peripheral_event pipe (Input_event (input_reg heal) (if sync then 1 else 0) (input_type heal)
       (input_code heal) (input_value heal))"

text \<open>The loop with one heal pending, delivered when the next one or the end shows whether it
  closes the report.\<close>

fun heal_motions ::
  "nat \<Rightarrow> bytes \<Rightarrow> nat list \<Rightarrow> event option \<Rightarrow> tracked_motion list \<Rightarrow> tracked_motion list \<times> zmk_call list" where
  "heal_motions pipe keepalive [] pending slots =
     (slots, case pending of None \<Rightarrow> [] | Some heal \<Rightarrow> [deliver_heal pipe heal True])"
| "heal_motions pipe keepalive (index # indices) pending slots =
     (case motion_heal_at keepalive index slots of
        (slots, None) \<Rightarrow> heal_motions pipe keepalive indices pending slots
      | (slots, Some heal) \<Rightarrow>
          let (slots, calls) = heal_motions pipe keepalive indices (Some heal) slots
          in (slots, (case pending of None \<Rightarrow> [] | Some earlier \<Rightarrow> [deliver_heal pipe earlier False]) @ calls))"

definition heal_lost_motion ::
  "u32 \<Rightarrow> u32 \<Rightarrow> nat \<Rightarrow> bytes \<Rightarrow> central_input \<Rightarrow> central_input \<times> zmk_call list" where
  "heal_lost_motion hop_window_ms now pipe keepalive ci =
     (if \<not> esb_motion_quiet_enough (now - motion_heard_ms ci) hop_window_ms then (ci, [])
      else
        let (slots, calls) = heal_motions pipe keepalive [0..<unat (esb_keepalive_motion_count keepalive)] None
              (tracked_motions ci)
        in (ci\<lparr>tracked_motions := slots\<rparr>, calls))"

definition central_input_reconcile ::
  "u32 \<Rightarrow> u32 \<Rightarrow> nat \<Rightarrow> bytes \<Rightarrow> central_input \<Rightarrow> central_input \<times> zmk_call list" where
  "central_input_reconcile hop_window_ms now pipe keepalive ci =
     (if pipe \<ge> ESB_LINK_PIPE_MAX then (ci, [])
      else
        let ci = apply_input_reset ci;
            (ci, released) = release_unheld_input_keys pipe keepalive ci;
            (ci, pressed) = press_held_input_keys pipe keepalive ci;
            (ci, healed) = heal_lost_motion hop_window_ms now pipe keepalive ci
        in (ci, released @ pressed @ healed))"

definition central_input_release_pipe :: "nat \<Rightarrow> central_input \<Rightarrow> central_input \<times> zmk_call list" where
  "central_input_release_pipe pipe ci =
     (if pipe \<ge> ESB_LINK_PIPE_MAX then (ci, [])
      else (ci\<lparr>input_reset := True\<rparr>,
            map Input_split_disconnected
              (filter (\<lambda>reg. bit (seen_input_regs ci) reg) [0..<CENTRAL_INPUT_REG_MAX])))"

section \<open>The tracked keys as a set\<close>

lemma input_keys_equal_iff: "input_keys_equal left right \<longleftrightarrow> left = right"
  by (auto simp: input_keys_equal_def)

definition held_set :: "tracked_input_key list \<Rightarrow> esb_keepalive_held_key set" where
  "held_set slots = slot_key ` {slot \<in> set slots. slot_held slot}"

definition keys_distinct :: "tracked_input_key list \<Rightarrow> bool" where
  "keys_distinct slots \<longleftrightarrow> distinct (map slot_key (filter slot_held slots))"

lemma held_set_filter: "held_set slots = set (map slot_key (filter slot_held slots))"
  by (auto simp: held_set_def)

lemma held_set_simps [table_simps]:
  "held_set [] = {}"
  "held_set (slot # slots) = (if slot_held slot then insert (slot_key slot) (held_set slots) else held_set slots)"
  "keys_distinct []"
  "keys_distinct (slot # slots) \<longleftrightarrow>
     keys_distinct slots \<and> (slot_held slot \<longrightarrow> slot_key slot \<notin> held_set slots)"
  by (auto simp: held_set_filter keys_distinct_def)

lemma finite_held_set [simp]: "finite (held_set slots)"
  by (simp add: held_set_filter)

lemma find_tracked_iff [table_simps]:
  "find_tracked_input_key key slots = None \<longleftrightarrow> key \<notin> held_set slots"
  by (auto simp: find_tracked_input_key_def first_index_None input_keys_equal_iff held_set_def)

lemma track_input_key_spec:
  assumes "track_input_key key slots = Some slots'" and "key \<notin> held_set slots" and "keys_distinct slots"
  shows "held_set slots' = insert key (held_set slots) \<and> keys_distinct slots' \<and> length slots' = length slots"
  using assms
proof (induction slots arbitrary: slots')
  case Nil
  then show ?case by (simp add: track_input_key_def)
next
  case (Cons slot slots)
  show ?case
  proof (cases "slot_held slot")
    case True
    then obtain rest where rest: "track_input_key key slots = Some rest" "slots' = slot # rest"
      using Cons.prems(1) by (auto simp: track_input_key_def split: option.splits)
    show ?thesis
      using Cons.IH [OF rest(1)] Cons.prems(2,3) rest(2) True by (auto simp: table_simps)
  next
    case False
    then have "slots' = \<lparr>slot_held = True, slot_key = key\<rparr> # slots"
      using Cons.prems(1) by (auto simp: track_input_key_def)
    then show ?thesis
      using Cons.prems(2,3) False by (simp add: table_simps)
  qed
qed

lemma track_input_key_full:
  assumes "track_input_key key slots = None" and "keys_distinct slots"
  shows "card (held_set slots) = length slots"
proof -
  have "filter slot_held slots = slots"
    using assms(1) by (auto simp: track_input_key_def first_index_None filter_id_conv split: option.splits)
  then show ?thesis
    using assms(2) by (simp add: held_set_filter keys_distinct_def distinct_card del: set_map)
qed

lemma untrack_input_key_spec:
  assumes "keys_distinct slots"
  shows "held_set (untrack_input_key key slots) = held_set slots - {key} \<and>
    keys_distinct (untrack_input_key key slots) \<and> length (untrack_input_key key slots) = length slots"
  using assms
proof (induction slots)
  case Nil
  then show ?case by (simp add: untrack_input_key_def find_tracked_input_key_def table_simps)
next
  case (Cons slot slots)
  have step: "untrack_input_key key (slot # slots) =
      (if slot_held slot \<and> slot_key slot = key then slot\<lparr>slot_held := False\<rparr> # slots
       else slot # untrack_input_key key slots)"
    by (auto simp: untrack_input_key_def find_tracked_input_key_def input_keys_equal_iff split: option.splits)
  show ?case
    using Cons unfolding step by (auto simp: table_simps)
qed

section \<open>What the host sees\<close>

text \<open>The input keys of one pipe the host holds down after a call.\<close>

fun host_keys :: "zmk_call \<Rightarrow> esb_keepalive_held_key set \<Rightarrow> esb_keepalive_held_key set" where
  "host_keys (Peripheral_event pipe (Input_event reg sync type code val)) host =
     (if type \<noteq> INPUT_EV_KEY then host
      else if val \<noteq> 0 then insert \<lparr>held_reg = reg, held_code = code\<rparr> host
      else host - {\<lparr>held_reg = reg, held_code = code\<rparr>})"
| "host_keys (Input_split_disconnected reg) host = {key \<in> host. unat (held_reg key) \<noteq> reg}"
| "host_keys _ host = host"

definition keepalive_keys :: "bytes \<Rightarrow> esb_keepalive_held_key set" where
  "keepalive_keys keepalive =
     esb_keepalive_held_key_at keepalive ` {..<unat (esb_keepalive_held_count keepalive)}"

lemma keepalive_holds_iff: "keepalive_holds_input_key keepalive key \<longleftrightarrow> key \<in> keepalive_keys keepalive"
  by (auto simp: keepalive_holds_input_key_def first_index_None input_keys_equal_iff keepalive_keys_def)

lemma host_replay:
  "host_keys (replay_input_key pipe key pressed) host = (if pressed then insert key host else host - {key})"
  by (cases key) (simp add: replay_input_key_def)

lemma release_unheld_spec:
  assumes "release_unheld_slots pipe keepalive slots = (slots', calls)" and "keys_distinct slots"
  shows "held_set slots' = held_set slots \<inter> keepalive_keys keepalive \<and> keys_distinct slots' \<and>
    length slots' = length slots \<and>
    fold host_keys calls host = host - (held_set slots - keepalive_keys keepalive)"
  using assms
proof (induction slots arbitrary: slots' calls host)
  case Nil
  then show ?case by (simp add: table_simps)
next
  case (Cons slot slots)
  obtain rest later where r: "release_unheld_slots pipe keepalive slots = (rest, later)" by fastforce
  show ?case
    using Cons.IH [OF r] Cons.prems r
    by (auto simp: table_simps keepalive_holds_iff host_replay split: if_splits)
qed

lemma press_keys_spec:
  assumes "press_keys pipe keys ci = (ci', calls)" and "keys_distinct (tracked_keys ci)"
  shows "keys_distinct (tracked_keys ci') \<and> length (tracked_keys ci') = length (tracked_keys ci) \<and>
    held_set (tracked_keys ci) \<subseteq> held_set (tracked_keys ci') \<and>
    held_set (tracked_keys ci') \<subseteq> held_set (tracked_keys ci) \<union> set keys \<and>
    fold host_keys calls host = host \<union> (held_set (tracked_keys ci') - held_set (tracked_keys ci)) \<and>
    (card (held_set (tracked_keys ci) \<union> set keys) \<le> length (tracked_keys ci) \<longrightarrow>
      held_set (tracked_keys ci') = held_set (tracked_keys ci) \<union> set keys) \<and>
    input_reset ci' = input_reset ci \<and> tracked_motions ci' = tracked_motions ci \<and>
    motion_heard_ms ci' = motion_heard_ms ci \<and>
    (\<forall>reg. bit (seen_input_regs ci) reg \<longrightarrow> bit (seen_input_regs ci') reg) \<and>
    (\<forall>key \<in> held_set (tracked_keys ci') - held_set (tracked_keys ci). unat (held_reg key) < CENTRAL_INPUT_REG_MAX \<longrightarrow>
      bit (seen_input_regs ci') (unat (held_reg key)))"
  using assms
proof (induction keys arbitrary: ci ci' calls host)
  case Nil
  then show ?case by auto
next
  case (Cons key keys)
  show ?case
  proof (cases "key \<in> held_set (tracked_keys ci)")
    case True
    then have "press_keys pipe keys ci = (ci', calls)"
      using Cons.prems(1) by (simp add: table_simps)
    from Cons.IH [OF this Cons.prems(2)] True show ?thesis
      by (simp add: insert_absorb)
  next
    case False
    show ?thesis
    proof (cases "track_input_key key (tracked_keys ci)")
      case None
      then have p: "press_keys pipe keys ci = (ci', calls)"
        using Cons.prems(1) by (simp split: if_splits)
      have "length (tracked_keys ci) < card (held_set (tracked_keys ci) \<union> set (key # keys))"
      proof -
        have "Suc (length (tracked_keys ci)) = card (insert key (held_set (tracked_keys ci)))"
          using track_input_key_full [OF None Cons.prems(2)] False by simp
        also have "\<dots> \<le> card (held_set (tracked_keys ci) \<union> set (key # keys))"
          by (intro card_mono) auto
        finally show ?thesis by (simp only: Suc_le_eq)
      qed
      then show ?thesis
        using Cons.IH [OF p Cons.prems(2), of host] by (simp only: not_le [symmetric]) auto
    next
      case (Some slots)
      define ci1 where "ci1 = note_input_reg (held_reg key) (ci\<lparr>tracked_keys := slots\<rparr>)"
      note tr = track_input_key_spec [OF Some False Cons.prems(2)]
      obtain later where p: "press_keys pipe keys ci1 = (ci', later)" "calls = replay_input_key pipe key True # later"
        using Cons.prems(1) Some False by (auto simp: table_simps ci1_def split: prod.splits)
      have ci1: "tracked_keys ci1 = slots" "input_reset ci1 = input_reset ci"
        "tracked_motions ci1 = tracked_motions ci" "motion_heard_ms ci1 = motion_heard_ms ci"
        "\<And>reg. bit (seen_input_regs ci) reg \<Longrightarrow> bit (seen_input_regs ci1) reg"
        "unat (held_reg key) < CENTRAL_INPUT_REG_MAX \<Longrightarrow> bit (seen_input_regs ci1) (unat (held_reg key))"
        by (auto simp: ci1_def note_input_reg_def bit_simps CENTRAL_INPUT_REG_MAX_def)
      have held: "held_set (tracked_keys ci1) = insert key (held_set (tracked_keys ci))"
        using tr ci1(1) by simp
      note ih = Cons.IH [OF p(1), of "host_keys (replay_input_key pipe key True) host"]
      show ?thesis
        using ih tr ci1 False unfolding p(2) by (auto simp: host_replay held)
    qed
  qed
qed

lemma heal_motions_host:
  "heal_motions pipe keepalive indices pending slots = (slots', calls) \<Longrightarrow>
   (\<forall>heal. pending = Some heal \<longrightarrow> input_type heal = INPUT_EV_REL) \<Longrightarrow> fold host_keys calls host = host"
proof (induction indices arbitrary: pending slots slots' calls host)
  case Nil
  then show ?case
    by (auto simp: deliver_heal_def INPUT_EV_REL_def INPUT_EV_KEY_def split: option.splits)
next
  case (Cons index indices)
  obtain slots1 heal where h: "motion_heal_at keepalive index slots = (slots1, heal)" by fastforce
  have rel: "input_type e = INPUT_EV_REL" if "heal = Some e" for e
    using h that by (auto simp: motion_heal_at_def Let_def split: option.splits prod.splits)
  show ?case
  proof (cases heal)
    case None
    then show ?thesis using Cons h by simp
  next
    case (Some e)
    obtain slots2 later where r: "heal_motions pipe keepalive indices (Some e) slots1 = (slots2, later)"
      by fastforce
    have "fold host_keys later host = host" for host
      using Cons.IH [OF r] rel Some by simp
    then show ?thesis
      using Cons.prems h Some r
      by (auto simp: deliver_heal_def INPUT_EV_REL_def INPUT_EV_KEY_def split: option.splits)
  qed
qed

text \<open>The host's view and the table agree; a pending reset empties the table at the next packet.\<close>

definition view_ok :: "esb_keepalive_held_key set \<Rightarrow> central_input \<Rightarrow> bool" where
  "view_ok host ci \<longleftrightarrow>
     keys_distinct (tracked_keys ci) \<and>
     host = (if input_reset ci then {} else held_set (tracked_keys ci)) \<and>
     (\<forall>key \<in> host. unat (held_reg key) < CENTRAL_INPUT_REG_MAX \<longrightarrow>
       bit (seen_input_regs ci) (unat (held_reg key)))"

lemma view_ok_reset:
  assumes "view_ok host ci"
  shows "view_ok host (apply_input_reset ci)" and "\<not> input_reset (apply_input_reset ci)"
    and "length (tracked_keys (apply_input_reset ci)) = length (tracked_keys ci)"
proof -
  have "held_set (map (\<lambda>slot. slot\<lparr>slot_held := False\<rparr>) slots) = {} \<and>
      keys_distinct (map (\<lambda>slot. slot\<lparr>slot_held := False\<rparr>) slots)" for slots
    by (induction slots) (simp_all add: table_simps)
  then show "view_ok host (apply_input_reset ci)" "\<not> input_reset (apply_input_reset ci)"
    "length (tracked_keys (apply_input_reset ci)) = length (tracked_keys ci)"
    using assms by (auto simp: view_ok_def apply_input_reset_def)
qed

lemma view_ok_note_reg: "view_ok host ci \<Longrightarrow> view_ok host (note_input_reg reg ci)"
  by (auto simp: view_ok_def note_input_reg_def bit_simps)

lemma view_ok_motion: "motion_total_to_delta now event ci = (ci', event') \<Longrightarrow>
  input_type event' = input_type event \<and> is_Input_event event' \<and> (view_ok host ci \<longrightarrow> view_ok host ci') \<and>
  tracked_keys ci' = tracked_keys ci"
  by (auto simp: motion_total_to_delta_def Let_def view_ok_def split: option.splits prod.splits)

lemma reconcile_view:
  assumes "view_ok host ci" and "pipe < ESB_LINK_PIPE_MAX"
    and "central_input_reconcile window now pipe keepalive ci = (ci', calls)"
  shows "view_ok (fold host_keys calls host) ci' \<and> length (tracked_keys ci') = length (tracked_keys ci) \<and>
    fold host_keys calls host \<subseteq> keepalive_keys keepalive \<and>
    (card (keepalive_keys keepalive) \<le> length (tracked_keys ci) \<longrightarrow>
      fold host_keys calls host = keepalive_keys keepalive)"
proof -
  define ci0 where "ci0 = apply_input_reset ci"
  note ci0 = view_ok_reset [OF assms(1), folded ci0_def]
  have host: "host = held_set (tracked_keys ci0)" "keys_distinct (tracked_keys ci0)"
    using ci0 by (auto simp: view_ok_def)
  obtain slots released where rel: "release_unheld_slots pipe keepalive (tracked_keys ci0) = (slots, released)"
    by fastforce
  define ci1 where "ci1 = ci0\<lparr>tracked_keys := slots\<rparr>"
  obtain ci2 pressed where press: "press_held_input_keys pipe keepalive ci1 = (ci2, pressed)" by fastforce
  obtain healed where heal: "heal_lost_motion window now pipe keepalive ci2 = (ci', healed)"
    and calls: "calls = released @ pressed @ healed"
    using assms(2,3) rel press
    by (auto simp: central_input_reconcile_def release_unheld_input_keys_def ci0_def [symmetric]
        ci1_def [symmetric] Let_def split: prod.splits)
  have keys: "set (map (esb_keepalive_held_key_at keepalive) [0..<unat (esb_keepalive_held_count keepalive)]) =
      keepalive_keys keepalive"
    by (auto simp: keepalive_keys_def)
  note r = release_unheld_spec [OF rel host(2), of host]
  note p = press_keys_spec [OF press [unfolded press_held_input_keys_def], unfolded keys,
      of "fold host_keys released host"]
  have d: "keys_distinct (tracked_keys ci1)" "held_set (tracked_keys ci1) = host \<inter> keepalive_keys keepalive"
    "length (tracked_keys ci1) = length (tracked_keys ci)" "fold host_keys released host = host \<inter> keepalive_keys keepalive"
    using r host ci0(3) by (auto simp: ci1_def)
  have h: "tracked_keys ci' = tracked_keys ci2" "input_reset ci' = input_reset ci2"
    "seen_input_regs ci' = seen_input_regs ci2" "fold host_keys healed h = h" for h
    using heal heal_motions_host
    by (auto simp: heal_lost_motion_def Let_def split: if_splits prod.splits)
  have final: "fold host_keys calls host = held_set (tracked_keys ci2)"
    using p [OF d(1)] d(2,4) by (auto simp: calls h(4))
  have regs: "bit (seen_input_regs ci2) (unat (held_reg key))"
    if "key \<in> held_set (tracked_keys ci2)" "unat (held_reg key) < CENTRAL_INPUT_REG_MAX" for key
  proof (cases "key \<in> held_set (tracked_keys ci1)")
    case True
    then have "bit (seen_input_regs ci0) (unat (held_reg key))"
      using ci0(1) d(2) that(2) by (auto simp: view_ok_def)
    then show ?thesis
      using p [OF d(1)] by (simp add: ci1_def)
  next
    case False
    then show ?thesis using p [OF d(1)] that by blast
  qed
  have "input_reset ci2 = False"
    using p [OF d(1)] ci0(2) by (simp add: ci1_def)
  then show ?thesis
    using p [OF d(1)] d(2,3) final h regs by (auto simp: view_ok_def Un_absorb1)
qed

lemma deliver_view:
  assumes "view_ok host ci" and "pipe < ESB_LINK_PIPE_MAX" and "is_Input_event event"
    and "input_type event = INPUT_EV_KEY \<longrightarrow> input_sync event AND ESB_WIRE_INPUT_TOTAL = 0 \<and>
      (input_value event \<noteq> 0 \<longrightarrow> card host < length (tracked_keys ci))"
    and "central_input_deliver_event now pipe event ci = (ci', calls)"
  shows "view_ok (fold host_keys calls host) ci' \<and> length (tracked_keys ci') = length (tracked_keys ci)"
proof -
  define ci0 where "ci0 = note_input_reg (input_reg event) (apply_input_reset ci)"
  have ci0: "view_ok host ci0" "\<not> input_reset ci0" "length (tracked_keys ci0) = length (tracked_keys ci)"
    using view_ok_reset [OF assms(1)] view_ok_note_reg by (auto simp: ci0_def note_input_reg_def)
  then have host: "host = held_set (tracked_keys ci0)" "keys_distinct (tracked_keys ci0)"
    by (auto simp: view_ok_def)
  obtain reg sync type code val where ev: "event = Input_event reg sync type code val"
    using assms(3) by (cases event) auto
  have seen: "unat reg < CENTRAL_INPUT_REG_MAX \<Longrightarrow> bit (seen_input_regs ci0) (unat reg)"
    by (auto simp: ci0_def ev note_input_reg_def bit_simps CENTRAL_INPUT_REG_MAX_def)
  have out: "(ci', calls) = (case deliver_key_transition event ci0 of
      None \<Rightarrow> (ci0, [])
    | Some ci1 \<Rightarrow>
        if sync AND ESB_WIRE_INPUT_TOTAL \<noteq> 0 then
          let (ci2, delivered) = motion_total_to_delta now event ci1 in (ci2, [Peripheral_event pipe delivered])
        else (ci1, [Peripheral_event pipe event]))"
    using assms(2) unfolding assms(5) [symmetric]
    by (simp add: central_input_deliver_event_def ci0_def ev Let_def cong: option.case_cong if_cong)
  show ?thesis
  proof (cases "type = INPUT_EV_KEY")
    case False
    then have k: "deliver_key_transition event ci0 = Some ci0"
      by (simp add: deliver_key_transition_def ev)
    show ?thesis
    proof (cases "sync AND ESB_WIRE_INPUT_TOTAL \<noteq> 0")
      case True
      obtain ci2 delivered where m: "motion_total_to_delta now event ci0 = (ci2, delivered)" by fastforce
      then have "ci' = ci2" "calls = [Peripheral_event pipe delivered]"
        using out k True by simp_all
      then show ?thesis
        using view_ok_motion [OF m] ci0 False ev by (cases delivered) auto
    next
      case False
      then show ?thesis
        using out k ci0 ev \<open>type \<noteq> INPUT_EV_KEY\<close> by simp
    qed
  next
    case True
    define key where "key = \<lparr>held_reg = reg, held_code = code\<rparr>"
    have nt: "sync AND ESB_WIRE_INPUT_TOTAL = 0"
      using assms(4) True by (simp add: ev)
    show ?thesis
    proof (cases "val \<noteq> 0")
      case False
      then have "deliver_key_transition event ci0 =
          Some (ci0\<lparr>tracked_keys := untrack_input_key key (tracked_keys ci0)\<rparr>)"
        by (simp add: deliver_key_transition_def ev key_def True)
      then show ?thesis
        using out nt untrack_input_key_spec [OF host(2), of key] ci0 host False True
        by (auto simp: view_ok_def ev key_def)
    next
      case pressed: True
      show ?thesis
      proof (cases "key \<in> held_set (tracked_keys ci0)")
        case True
        then have "deliver_key_transition event ci0 = None"
          using pressed \<open>type = INPUT_EV_KEY\<close>
          by (auto simp: deliver_key_transition_def ev key_def [symmetric] table_simps
              dest: iffD1 [OF find_tracked_iff])
        then show ?thesis using out ci0 by simp
      next
        case fresh: False
        have "card (held_set (tracked_keys ci0)) \<noteq> length (tracked_keys ci0)"
          using assms(4) True pressed host ci0(3) by (simp add: ev)
        then obtain slots where sl: "track_input_key key (tracked_keys ci0) = Some slots"
          using track_input_key_full [OF _ host(2)] by (cases "track_input_key key (tracked_keys ci0)") auto
        have "deliver_key_transition event ci0 = Some (ci0\<lparr>tracked_keys := slots\<rparr>)"
          using fresh pressed sl True
          by (simp add: deliver_key_transition_def ev key_def [symmetric] table_simps)
        then show ?thesis
          using out nt track_input_key_spec [OF sl fresh host(2)] ci0 host pressed True seen
          by (auto simp: view_ok_def ev key_def)
      qed
    qed
  qed
qed

lemma release_view:
  assumes "view_ok host ci" and "pipe < ESB_LINK_PIPE_MAX"
    and "\<forall>key \<in> host. unat (held_reg key) < CENTRAL_INPUT_REG_MAX"
    and "central_input_release_pipe pipe ci = (ci', calls)"
  shows "view_ok (fold host_keys calls host) ci' \<and> fold host_keys calls host = {} \<and>
    length (tracked_keys ci') = length (tracked_keys ci)"
proof -
  have dis: "fold host_keys (map Input_split_disconnected regs) h = {key \<in> h. unat (held_reg key) \<notin> set regs}"
    for regs h
    by (induction regs arbitrary: h) auto
  show ?thesis
    using assms by (auto simp: central_input_release_pipe_def view_ok_def dis)
qed

section \<open>The input handler as a transition system\<close>

text \<open>One pipe's input on the central, with the keys the host holds: live events, keepalives
  and silences in any order. Events are the peripheral's: totals only on motion, registers
  the disconnect sweep covers, and no more keys at once than the table tracks.\<close>

inductive input_step ::
  "nat \<Rightarrow> central_input \<times> esb_keepalive_held_key set \<Rightarrow> central_input \<times> esb_keepalive_held_key set \<Rightarrow> bool"
  for pipe where
  Live: "central_input_deliver_event now pipe event ci = (ci', calls) \<Longrightarrow> is_Input_event event \<Longrightarrow>
    unat (input_reg event) < CENTRAL_INPUT_REG_MAX \<Longrightarrow>
    (input_type event = INPUT_EV_KEY \<longrightarrow> input_sync event AND ESB_WIRE_INPUT_TOTAL = 0 \<and>
      (input_value event \<noteq> 0 \<longrightarrow> card host < length (tracked_keys ci))) \<Longrightarrow>
    input_step pipe (ci, host) (ci', fold host_keys calls host)"
| Heard_keepalive: "central_input_reconcile window now pipe keepalive ci = (ci', calls) \<Longrightarrow>
    \<forall>key \<in> keepalive_keys keepalive. unat (held_reg key) < CENTRAL_INPUT_REG_MAX \<Longrightarrow>
    input_step pipe (ci, host) (ci', fold host_keys calls host)"
| Silence: "central_input_release_pipe pipe ci = (ci', calls) \<Longrightarrow>
    input_step pipe (ci, host) (ci', fold host_keys calls host)"

inductive_cases input_stepE: "input_step pipe (ci, host) (ci', host')"

definition input_inv :: "nat \<Rightarrow> central_input \<times> esb_keepalive_held_key set \<Rightarrow> bool" where
  "input_inv keys_max = (\<lambda>(ci, host). view_ok host ci \<and> length (tracked_keys ci) = keys_max \<and>
     (\<forall>key \<in> host. unat (held_reg key) < CENTRAL_INPUT_REG_MAX))"

lemma deliver_host_keys:
  assumes "central_input_deliver_event now pipe event ci = (ci', calls)" and "is_Input_event event"
    and "key \<in> fold host_keys calls host"
  shows "key \<in> host \<or> held_reg key = input_reg event"
  using assms
  by (cases event)
     (auto simp: central_input_deliver_event_def motion_total_to_delta_def Let_def
        split: if_splits option.splits prod.splits)

lemma input_inv_step:
  assumes "input_step pipe s s'" and "input_inv keys_max s" and "pipe < ESB_LINK_PIPE_MAX"
  shows "input_inv keys_max s'"
  using assms(1)
proof (cases rule: input_step.cases)
  case (Live now event ci ci' calls host)
  then show ?thesis
    using deliver_view [OF _ assms(3) Live(4,6,3)] assms(2)
    by (auto simp: input_inv_def dest!: deliver_host_keys [OF Live(3,4)])
next
  case (Heard_keepalive window now keepalive ci ci' calls host)
  then show ?thesis
    using reconcile_view [OF _ assms(3) Heard_keepalive(3)] assms(2) by (auto simp: input_inv_def)
next
  case (Silence ci ci' calls host)
  then show ?thesis
    using release_view [OF _ assms(3) _ Silence(3), of host] assms(2) by (auto simp: input_inv_def)
qed

lemma input_inv_boot: "input_inv keys_max (central_input_boot keys_max, {})"
proof -
  have "held_set (replicate n blank_key_slot) = {} \<and> keys_distinct (replicate n blank_key_slot)" for n
    by (induction n) (simp_all add: table_simps blank_key_slot_def)
  then show ?thesis
    by (simp add: input_inv_def view_ok_def central_input_boot_def)
qed

lemma input_inv_reachable:
  assumes "(input_step pipe)\<^sup>*\<^sup>* (central_input_boot keys_max, {}) s" and "pipe < ESB_LINK_PIPE_MAX"
  shows "input_inv keys_max s"
  using assms(1)
  by (induction rule: rtranclp_induct) (auto intro: input_inv_boot input_inv_step assms(2))



end
