(* ===== verification/Sensor_Sync.thy ===== *)
theory Sensor_Sync
  imports Delta_Track "HOL-Library.Signed_Division"
begin

text \<open>
  Cumulative sensor rotation (\<open>src/esb_sensor_sync.c\<close>): a Zephyr sensor value is whole
  degrees and millionths, a rotation is a 64-bit count of microdegrees.
\<close>

definition ESB_SENSOR_MICRODEG_PER_DEG :: int where
  "ESB_SENSOR_MICRODEG_PER_DEG = 1000000"

definition ESB_SENSOR_RESYNC_UDEG :: int where
  "ESB_SENSOR_RESYNC_UDEG = 180 * ESB_SENSOR_MICRODEG_PER_DEG"

record esb_sensor_track =
  last_udeg :: i64
  sensor_valid :: bool

definition sensor_track_blank :: esb_sensor_track where
  "sensor_track_blank = \<lparr>last_udeg = 0, sensor_valid = False\<rparr>"

definition esb_sensor_udeg :: "i32 \<Rightarrow> i32 \<Rightarrow> i64" where
  "esb_sensor_udeg val1 val2 = scast val1 * of_int ESB_SENSOR_MICRODEG_PER_DEG + scast val2"

definition esb_sensor_udeg_val1 :: "i64 \<Rightarrow> i32" where
  "esb_sensor_udeg_val1 udeg = of_int (sint udeg sdiv ESB_SENSOR_MICRODEG_PER_DEG)"

definition esb_sensor_udeg_val2 :: "i64 \<Rightarrow> i32" where
  "esb_sensor_udeg_val2 udeg = of_int (sint udeg smod ESB_SENSOR_MICRODEG_PER_DEG)"

text \<open>The subtraction is the machine's, modulo \<open>2 ^ 64\<close>.\<close>

definition esb_sensor_track_delta :: "esb_sensor_track \<Rightarrow> i64 \<Rightarrow> esb_sensor_track \<times> i64 option" where
  "esb_sensor_track_delta track total_udeg =
     (let delta = total_udeg - last_udeg track;
          was_valid = sensor_valid track;
          track = track\<lparr>last_udeg := total_udeg, sensor_valid := True\<rparr>
      in if \<not> was_valid \<or> delta = 0 \<or> sint delta > ESB_SENSOR_RESYNC_UDEG \<or>
            sint delta < - ESB_SENSOR_RESYNC_UDEG
         then (track, None) else (track, Some delta))"

definition sensor_base :: "esb_sensor_track \<Rightarrow> i64 option" where
  "sensor_base track = (if sensor_valid track then Some (last_udeg track) else None)"

definition sensor_small :: "i64 \<Rightarrow> bool" where
  "sensor_small gap \<longleftrightarrow> \<bar>sint gap\<bar> \<le> ESB_SENSOR_RESYNC_UDEG"

interpretation sensor: delta_tracker sensor_base esb_sensor_track_delta sensor_small
  by unfold_locales
     (auto simp: sensor_base_def sensor_small_def esb_sensor_track_delta_def Let_def)

section \<open>Microdegrees and sensor values\<close>

lemma sint_of_int_i32: "- (2 ^ 31) \<le> i \<Longrightarrow> i < 2 ^ 31 \<Longrightarrow> sint (of_int i :: i32) = i"
  by (simp add: signed_of_int signed_take_bit_int_eq_self_iff)

lemma scast_of_int_i32:
  assumes "- (2 ^ 31) \<le> i" and "i < 2 ^ 31" shows "scast (of_int i :: i32) = (of_int i :: i64)"
proof -
  have "scast (of_int i :: i32) = (of_int (sint (of_int i :: i32)) :: i64)"
    by transfer simp
  then show ?thesis
    using sint_of_int_i32 [OF assms] by simp
qed

text \<open>Splitting a rotation into a sensor value and putting it together loses nothing, for every
  rotation up to 2000 million degrees.\<close>

lemma udeg_split:
  assumes "\<bar>sint udeg\<bar> < 2 ^ 31 * ESB_SENSOR_MICRODEG_PER_DEG"
  shows "esb_sensor_udeg (esb_sensor_udeg_val1 udeg) (esb_sensor_udeg_val2 udeg) = udeg"
proof -
  define u where "u = sint udeg"
  define q where "q = u sdiv 1000000"
  define r where "r = u smod 1000000"
  have u: "u = q * 1000000 + r"
    unfolding q_def r_def by (rule sdiv_mult_smod_eq [symmetric])
  have "\<bar>q\<bar> < 2 ^ 31" "\<bar>r\<bar> < 1000000"
    using assms
    by (auto simp: q_def r_def u_def signed_divide_int_def signed_modulo_int_def sgn_if
        ESB_SENSOR_MICRODEG_PER_DEG_def abs_mult)
  then have "esb_sensor_udeg (esb_sensor_udeg_val1 udeg) (esb_sensor_udeg_val2 udeg) =
      of_int q * 1000000 + of_int r"
    by (simp add: esb_sensor_udeg_def esb_sensor_udeg_val1_def esb_sensor_udeg_val2_def
        ESB_SENSOR_MICRODEG_PER_DEG_def scast_of_int_i32 u_def [symmetric] q_def [symmetric] r_def [symmetric])
  also have "\<dots> = of_int u"
    by (simp add: u)
  finally show ?thesis by (simp add: u_def)
qed

text \<open>
  Rotation is lossless over lost packets: whichever totals reach the central, the
  rotations it forwards add up to the difference of the last and the first total, in
  microdegrees, as long as no gap passes half a turn; and the degrees and millionths of each
  forwarded sensor value denote that rotation exactly.
\<close>

theorem esb_sensor_lossless:
  assumes "sensor_base track = Some start" and "sensor.small_gaps start heard"
    and "esb_sensor_track_delta track' tot = (track'', Some delta)"
  shows "sensor.forwarded track heard = last (start # heard) - start \<and>
    esb_sensor_udeg (esb_sensor_udeg_val1 delta) (esb_sensor_udeg_val2 delta) = delta"
proof -
  have "sint delta \<le> 180 * 1000000" "- (180 * 1000000) \<le> sint delta"
    using assms(3)
    by (auto simp: esb_sensor_track_delta_def ESB_SENSOR_RESYNC_UDEG_def ESB_SENSOR_MICRODEG_PER_DEG_def
        Let_def split: if_splits)
  then have "\<bar>sint delta\<bar> < 2 ^ 31 * ESB_SENSOR_MICRODEG_PER_DEG"
    by (simp add: ESB_SENSOR_MICRODEG_PER_DEG_def abs_less_iff)
  then show ?thesis
    using sensor.forwarded_telescopes [OF assms(1,2)] udeg_split by blast
qed

theorem esb_sensor_lossless_witness:
  "sensor.forwarded \<lparr>last_udeg = 5, sensor_valid = True\<rparr> [1000005, 3000005] = 3000000"
proof -
  let ?t = "\<lparr>last_udeg = 5, sensor_valid = True\<rparr>"
  have "esb_sensor_track_delta ?t 6 = (\<lparr>last_udeg = 6, sensor_valid = True\<rparr>, Some 1)"
    by (simp add: esb_sensor_track_delta_def ESB_SENSOR_RESYNC_UDEG_def ESB_SENSOR_MICRODEG_PER_DEG_def)
  from esb_sensor_lossless [OF _ _ this, of ?t 5 "[1000005, 3000005]"] show ?thesis
    by (simp add: sensor_base_def sensor_small_def ESB_SENSOR_RESYNC_UDEG_def ESB_SENSOR_MICRODEG_PER_DEG_def)
qed

end
