(* ===== verification/Central.thy ===== *)
theory Central
  imports Central_Input Sensor_Sync
begin

text \<open>
  The split central (\<open>src/central.c\<close>): the inbound queue, the position, sensor and
  battery reconcile, the staleness tick and the packet ingest. The devicetree and Kconfig
  values it reads are the record \<open>central_config\<close>; what the hop layer and the wire
  link report of a pipe are arguments. A message queue is the list of its messages, bounded by
  the size it was defined with.
\<close>

record central_config =
  pipe_count :: nat
  pipe_is_self :: "nat \<Rightarrow> bool"
  pipe_is_relay :: "nat \<Rightarrow> bool"
  wire_peer_pipe :: "nat option"
  peripheral_timeout_ms :: u32
  hop_window_ms :: u32
  event_queue_size :: nat
  max_payload :: nat
  has_sensors :: bool
  keymap_sensors :: nat
  battery_reporting :: bool
  ble_battery_fetching :: bool
  hid_indicators :: bool

datatype central_inbound =
    Inbound_event nat event
  | Inbound_keepalive nat bytes

record central =
  transport_enabled :: bool
  status_cb :: bool
  central_event_msgq :: "central_inbound list"
  tracked_positions :: "nat \<Rightarrow> bytes"
  tracked_battery_levels :: "nat \<Rightarrow> u8"
  pipe_stale :: "nat \<Rightarrow> bool"
  pipe_connected :: "nat \<Rightarrow> bool"
  last_connections :: connections
  sensor_tracks :: "nat \<Rightarrow> esb_sensor_track list"
  inputs :: "nat \<Rightarrow> central_input"

definition central_boot :: "central_config \<Rightarrow> nat \<Rightarrow> central" where
  "central_boot config keys_max = \<lparr>transport_enabled = False, status_cb = False, central_event_msgq = [],
     tracked_positions = (\<lambda>_. replicate ESB_KEEPALIVE_BITMAP_BYTES 0), tracked_battery_levels = (\<lambda>_. 0),
     pipe_stale = (\<lambda>_. False), pipe_connected = (\<lambda>_. False), last_connections = Disconnected,
     sensor_tracks = (\<lambda>_. replicate (keymap_sensors config) sensor_track_blank),
     inputs = (\<lambda>_. central_input_boot keys_max)\<rparr>"

text \<open>The part of \<open>central_init\<close> on this file's state.\<close>

definition central_init :: "central \<Rightarrow> central" where
  "central_init c = c\<lparr>tracked_battery_levels :=
     (\<lambda>pipe. if pipe < ESB_LINK_PIPE_MAX then ESB_KEEPALIVE_BATTERY_UNKNOWN else tracked_battery_levels c pipe)\<rparr>"

section \<open>Commands and status\<close>

text \<open>Where a command goes: nowhere, to the wire link or to the pipe's reply queue.\<close>

datatype command_route = Route_none | Route_wire | Route_reply nat

definition wire_central_owns_pipe :: "central_config \<Rightarrow> nat \<Rightarrow> bool" where
  "wire_central_owns_pipe config pipe \<longleftrightarrow> wire_peer_pipe config = Some pipe"

definition central_send_command :: "central_config \<Rightarrow> nat \<Rightarrow> command_route" where
  "central_send_command config source =
     (if pipe_is_relay config source then Route_none
      else if wire_central_owns_pipe config source then Route_wire
      else Route_reply source)"

definition central_connections_status :: "central_config \<Rightarrow> central \<Rightarrow> connections" where
  "central_connections_status config c =
     (let pipes = filter (\<lambda>pipe. \<not> pipe_is_self config pipe) [0..<min (pipe_count config) ESB_LINK_PIPE_MAX];
          total = length pipes;
          connected = length (filter (pipe_connected c) pipes)
      in if connected = 0 then Disconnected
         else if connected < total then Some_connected else All_connected)"

definition central_set_enabled :: "bool \<Rightarrow> central \<Rightarrow> central" where
  "central_set_enabled enabled c = c\<lparr>transport_enabled := enabled\<rparr>"

definition central_set_status_callback :: "bool \<Rightarrow> central \<Rightarrow> central" where
  "central_set_status_callback callback c = c\<lparr>status_cb := callback\<rparr>"

definition central_get_status :: "central_config \<Rightarrow> central \<Rightarrow> bool \<times> connections" where
  "central_get_status config c = (transport_enabled c, central_connections_status config c)"

section \<open>Sensors\<close>

definition sensor_delta_value ::
  "central_config \<Rightarrow> nat \<Rightarrow> nat \<Rightarrow> i64 \<Rightarrow> central \<Rightarrow> central \<times> (i32 \<times> i32) option" where
  "sensor_delta_value config source index total_udeg c =
     (if source \<ge> ESB_LINK_PIPE_MAX \<or> index \<ge> keymap_sensors config then (c, None)
      else
        let (t, delta) = esb_sensor_track_delta (sensor_tracks c source ! index) total_udeg;
            c = c\<lparr>sensor_tracks := (sensor_tracks c)(source := (sensor_tracks c source)[index := t])\<rparr>
        in (c, map_option (\<lambda>d. (esb_sensor_udeg_val1 d, esb_sensor_udeg_val2 d)) delta))"

text \<open>\<^const>\<open>None\<close> drops the event.\<close>

definition sensor_event_to_delta ::
  "central_config \<Rightarrow> nat \<Rightarrow> event \<Rightarrow> central \<Rightarrow> central \<times> event option" where
  "sensor_event_to_delta config source event c =
     (if \<not> has_sensors config then (c, Some event)
      else
        case sensor_delta_value config source (unat (sensor_index event))
               (esb_sensor_udeg (sensor_val1 event) (sensor_val2 event)) c of
          (c, None) \<Rightarrow> (c, None)
        | (c, Some (val1, val2)) \<Rightarrow>
            (c, Some (Sensor_event (sensor_index event) (sensor_channel event) val1 val2)))"

definition sensor_tracks_reset :: "central_config \<Rightarrow> nat \<Rightarrow> central \<Rightarrow> central" where
  "sensor_tracks_reset config source c =
     (if \<not> has_sensors config \<or> source \<ge> ESB_LINK_PIPE_MAX then c
      else c\<lparr>sensor_tracks := (sensor_tracks c)
             (source := map (\<lambda>t. t\<lparr>sensor_valid := False\<rparr>) (sensor_tracks c source))\<rparr>)"

text \<open>Zephyr's channel of a rotation.\<close>

definition SENSOR_CHAN_ROTATION :: u8 where
  "SENSOR_CHAN_ROTATION = 36"

fun reconcile_sensor_indices ::
  "central_config \<Rightarrow> nat \<Rightarrow> bytes \<Rightarrow> nat list \<Rightarrow> central \<Rightarrow> central \<times> zmk_call list" where
  "reconcile_sensor_indices config source keepalive [] c = (c, [])"
| "reconcile_sensor_indices config source keepalive (index # indices) c =
     (let (c, value) = sensor_delta_value config source index (esb_keepalive_sensor_total_udeg keepalive index) c;
          (c, calls) = reconcile_sensor_indices config source keepalive indices c
      in case value of
           None \<Rightarrow> (c, calls)
         | Some (val1, val2) \<Rightarrow>
             (c, Peripheral_event source (Sensor_event (of_nat index) SENSOR_CHAN_ROTATION val1 val2) # calls))"

definition reconcile_sensor_totals ::
  "central_config \<Rightarrow> nat \<Rightarrow> bytes \<Rightarrow> central \<Rightarrow> central \<times> zmk_call list" where
  "reconcile_sensor_totals config source keepalive c =
     (if \<not> has_sensors config then (c, [])
      else reconcile_sensor_indices config source keepalive
             [0..<unat (esb_keepalive_sensor_count keepalive (length keepalive))] c)"

section \<open>Key positions\<close>

definition forward_key_position :: "nat \<Rightarrow> nat \<Rightarrow> bool \<Rightarrow> zmk_call" where
  "forward_key_position source position pressed =
     Peripheral_event source (Key_position (of_nat position) pressed)"

text \<open>The loop over the differing positions, from \<open>position\<close> on.\<close>

function replay_positions ::
  "nat \<Rightarrow> bytes \<Rightarrow> nat \<Rightarrow> bytes \<Rightarrow> bytes \<times> zmk_call list" where
  "replay_positions source target position tracked =
     (if position \<ge> ESB_KEEPALIVE_POSITION_COUNT then (tracked, [])
      else
        let pressed = esb_keepalive_bitmap_get target position;
            tracked = esb_keepalive_bitmap_set tracked position pressed;
            (tracked, calls) = replay_positions source target
              (esb_keepalive_bitmap_diff_next tracked target (position + 1)) tracked
        in (tracked, forward_key_position source position pressed # calls))"
  by pat_completeness auto

termination
proof (relation "measure (\<lambda>(source, target, position, tracked). ESB_KEEPALIVE_POSITION_COUNT - position)", goal_cases)
  case (2 source target position tracked pressed tracked')
  have "position + 1 \<le> esb_keepalive_bitmap_diff_next tracked' target (position + 1)"
    using diff_next_cases [OF refl, of "position + 1" tracked' target] 2 by simp
  then show ?case using 2 by simp
qed simp

declare replay_positions.simps [simp del]

definition replay_position_diff :: "nat \<Rightarrow> bytes \<Rightarrow> central \<Rightarrow> central \<times> zmk_call list" where
  "replay_position_diff source target c =
     (if source \<ge> ESB_LINK_PIPE_MAX then (c, [])
      else
        let (tracked, calls) = replay_positions source target
              (esb_keepalive_bitmap_diff_next (tracked_positions c source) target 0) (tracked_positions c source)
        in (c\<lparr>tracked_positions := (tracked_positions c)(source := tracked)\<rparr>, calls))"

definition deliver_key_event :: "nat \<Rightarrow> event \<Rightarrow> central \<Rightarrow> central \<times> zmk_call list" where
  "deliver_key_event source event c =
     (let position = unat (key_position event);
          pressed = key_pressed event
      in if source \<ge> ESB_LINK_PIPE_MAX \<or> position \<ge> ESB_KEEPALIVE_POSITION_COUNT
         then (c, [Peripheral_event source event])
         else
           let verdict = esb_keepalive_key_verdict (tracked_positions c source) position pressed;
               tracked = c\<lparr>tracked_positions := (tracked_positions c)
                 (source := esb_keepalive_bitmap_set (tracked_positions c source) position pressed)\<rparr>
           in case verdict of
                Key_drop_orphan_release \<Rightarrow> (c, [])
              | Key_heal_lost_release \<Rightarrow>
                  (tracked, [forward_key_position source position False, Peripheral_event source event])
              | Key_forward \<Rightarrow> (tracked, [Peripheral_event source event]))"

section \<open>Staleness\<close>

definition update_input :: "nat \<Rightarrow> (central_input \<Rightarrow> central_input \<times> zmk_call list) \<Rightarrow> central \<Rightarrow> central \<times> zmk_call list" where
  "update_input pipe f c =
     (let (ci, calls) = f (inputs c pipe) in (c\<lparr>inputs := (inputs c)(pipe := ci)\<rparr>, calls))"

definition release_stale_pipe :: "nat \<Rightarrow> central \<Rightarrow> central \<times> zmk_call list" where
  "release_stale_pipe pipe c =
     (let (c, replayed) = replay_position_diff pipe (replicate ESB_KEEPALIVE_BITMAP_BYTES 0) c;
          (c, released) = update_input pipe (central_input_release_pipe pipe) c
      in (c, replayed @ released))"

text \<open>What the tick asks the hop layer of a pipe, and whether the wire peer is up.\<close>

record pipe_report =
  quiet_ms :: u32
  heard :: bool

definition staleness_check_pipe ::
  "central_config \<Rightarrow> (nat \<Rightarrow> pipe_report) \<Rightarrow> bool \<Rightarrow> nat \<Rightarrow> central \<Rightarrow> central \<times> zmk_call list" where
  "staleness_check_pipe config report wire_up pipe c =
     (if pipe_is_self config pipe then (c, [])
      else
        let (c, released) =
              (if heard (report pipe) then
                 let peer_active = (quiet_ms (report pipe) \<le> peripheral_timeout_ms config);
                     peer_active = (if wire_central_owns_pipe config pipe \<and> \<not> wire_up then False else peer_active)
                 in if peer_active then (c\<lparr>pipe_stale := (pipe_stale c)(pipe := False)\<rparr>, [])
                    else if \<not> pipe_stale c pipe then
                      let (c, calls) = release_stale_pipe pipe (c\<lparr>pipe_stale := (pipe_stale c)(pipe := True)\<rparr>)
                      in (sensor_tracks_reset config pipe c, calls)
                    else (c, [])
               else (c, []));
            connected = (heard (report pipe) \<and> \<not> pipe_stale c pipe)
        in if connected \<noteq> pipe_connected c pipe
           then (c\<lparr>pipe_connected := (pipe_connected c)(pipe := connected)\<rparr>,
                 released @ [Peripheral_changed pipe connected])
           else (c, released))"

fun staleness_check_pipes ::
  "central_config \<Rightarrow> (nat \<Rightarrow> pipe_report) \<Rightarrow> bool \<Rightarrow> nat list \<Rightarrow> central \<Rightarrow> central \<times> zmk_call list" where
  "staleness_check_pipes config report wire_up [] c = (c, [])"
| "staleness_check_pipes config report wire_up (pipe # pipes) c =
     (let (c, calls) = staleness_check_pipe config report wire_up pipe c;
          (c, later) = staleness_check_pipes config report wire_up pipes c
      in (c, calls @ later))"

definition staleness_work_fn ::
  "central_config \<Rightarrow> (nat \<Rightarrow> pipe_report) \<Rightarrow> bool \<Rightarrow> central \<Rightarrow> central \<times> zmk_call list" where
  "staleness_work_fn config report wire_up c =
     (let (c, calls) = staleness_check_pipes config report wire_up
            [0..<min (pipe_count config) ESB_LINK_PIPE_MAX] c;
          connections = central_connections_status config c
      in if connections \<noteq> last_connections c then
           let c = c\<lparr>last_connections := connections\<rparr>
           in (c, calls @ (if status_cb c then [Status_changed (transport_enabled c) connections] else []))
         else (c, calls))"

section \<open>Battery\<close>

definition esb_central_battery_level :: "nat \<Rightarrow> central \<Rightarrow> u8" where
  "esb_central_battery_level pipe c =
     (if pipe \<ge> ESB_LINK_PIPE_MAX then ESB_KEEPALIVE_BATTERY_UNKNOWN else tracked_battery_levels c pipe)"

definition reconcile_battery :: "nat \<Rightarrow> u8 \<Rightarrow> central \<Rightarrow> central \<times> zmk_call list" where
  "reconcile_battery source level c =
     (if source \<ge> ESB_LINK_PIPE_MAX \<or> level = ESB_KEEPALIVE_BATTERY_UNKNOWN then (c, [])
      else if tracked_battery_levels c source = level then (c, [])
      else (c\<lparr>tracked_battery_levels := (tracked_battery_levels c)(source := level)\<rparr>,
            [Battery_changed source level]))"

section \<open>The event work\<close>

definition central_handle_inbound ::
  "central_config \<Rightarrow> central_inbound \<Rightarrow> central \<Rightarrow> central \<times> zmk_call list" where
  "central_handle_inbound config inbound c =
     (case inbound of
        Inbound_keepalive source keepalive \<Rightarrow>
          let (c, replayed) = replay_position_diff source (esb_keepalive_bitmap keepalive) c;
              (c, battery) =
                (if battery_reporting config \<and> \<not> ble_battery_fetching config
                 then reconcile_battery source (esb_keepalive_battery_level keepalive) c else (c, []));
              (c, sensors) = reconcile_sensor_totals config source keepalive c
          in (c, replayed @ battery @ sensors)
      | Inbound_event source event \<Rightarrow>
          case event of
            Key_position _ _ \<Rightarrow> deliver_key_event source event c
          | Battery_event level \<Rightarrow>
              if \<not> ble_battery_fetching config then
                (if battery_reporting config then reconcile_battery source level c else (c, []))
              else (c, [Peripheral_event source event])
          | Sensor_event _ _ _ _ \<Rightarrow>
              (case sensor_event_to_delta config source event c of
                 (c, None) \<Rightarrow> (c, [])
               | (c, Some event) \<Rightarrow> (c, [Peripheral_event source event]))
          | _ \<Rightarrow> (c, [Peripheral_event source event]))"

fun central_handle_all ::
  "central_config \<Rightarrow> central_inbound list \<Rightarrow> central \<Rightarrow> central \<times> zmk_call list" where
  "central_handle_all config [] c = (c, [])"
| "central_handle_all config (inbound # inbounds) c =
     (let (c, calls) = central_handle_inbound config inbound c;
          (c, later) = central_handle_all config inbounds c
      in (c, calls @ later))"

text \<open>\<open>k_msgq_get\<close> until the queue is empty.\<close>

definition central_event_work_fn :: "central_config \<Rightarrow> central \<Rightarrow> central \<times> zmk_call list" where
  "central_event_work_fn config c =
     central_handle_all config (central_event_msgq c) (c\<lparr>central_event_msgq := []\<rparr>)"

section \<open>Ingest\<close>

definition ESB_HOST_INDICATORS_TAG :: u8 where "ESB_HOST_INDICATORS_TAG = 0xFC"
definition ESB_HOST_INDICATORS_LENGTH :: nat where "ESB_HOST_INDICATORS_LENGTH = 2"

definition esb_is_host_indicators :: "bytes \<Rightarrow> bool" where
  "esb_is_host_indicators data =
     (if length data \<noteq> ESB_HOST_INDICATORS_LENGTH then False else data ! 0 = ESB_HOST_INDICATORS_TAG)"

definition apply_host_indicators :: "central_config \<Rightarrow> bytes \<Rightarrow> zmk_call list" where
  "apply_host_indicators config data =
     (if \<not> hid_indicators config then [] else [Process_indicators (data ! 1)])"

text \<open>\<open>k_msgq_put\<close>: a message that finds the queue full is dropped.\<close>

definition central_enqueue :: "central_config \<Rightarrow> central_inbound \<Rightarrow> central \<Rightarrow> central" where
  "central_enqueue config inbound c =
     (if length (central_event_msgq c) \<ge> event_queue_size config then c
      else c\<lparr>central_event_msgq := central_event_msgq c @ [inbound]\<rparr>)"

function central_ingest_events ::
  "zmk_abi \<Rightarrow> central_config \<Rightarrow> u32 \<Rightarrow> nat \<Rightarrow> bytes \<Rightarrow> central \<Rightarrow> central \<times> zmk_call list" where
  "central_ingest_events abi config now pipe data c =
     (if data = [] then (c, [])
      else
        case esb_wire_decode_event abi data of
          None \<Rightarrow> (c, [])
        | Some (event, consumed) \<Rightarrow>
            let (c, calls) =
                  (if event_type abi event = input_tag abi
                   then update_input pipe (central_input_deliver_event now pipe event) c
                   else (central_enqueue config (Inbound_event pipe event) c, []));
                (c, later) = central_ingest_events abi config now pipe (drop consumed data) c
            in (c, calls @ later))"
  by pat_completeness auto

termination
  by (relation "measure (\<lambda>(abi, config, now, pipe, data, c). length data)")
     (auto dest!: decode_event_bounds)

declare central_ingest_events.simps [simp del]

definition central_ingest_packet ::
  "zmk_abi \<Rightarrow> central_config \<Rightarrow> u32 \<Rightarrow> nat \<Rightarrow> bytes \<Rightarrow> central \<Rightarrow> central \<times> zmk_call list" where
  "central_ingest_packet abi config now pipe data c =
     (if esb_is_host_indicators data then (c, apply_host_indicators config data)
      else if esb_keepalive_matches data (length data mod 256) then
        let (c, calls) = update_input pipe
              (central_input_reconcile (hop_window_ms config) now pipe data) c
        in (central_enqueue config (Inbound_keepalive pipe (take (max_payload config) data)) c, calls)
      else central_ingest_events abi config now pipe data c)"

section \<open>Key edges\<close>

text \<open>The key positions of one source that ZMK holds down, followed over the calls it gets:
  \<^const>\<open>None\<close> once a call presses a held position or releases one that is not held.\<close>

fun key_edges :: "nat \<Rightarrow> zmk_call list \<Rightarrow> nat set \<Rightarrow> nat set option" where
  "key_edges source [] host = Some host"
| "key_edges source (call # calls) host =
     (case call of
        Peripheral_event s (Key_position p pressed) \<Rightarrow>
          if s \<noteq> source \<or> ESB_KEEPALIVE_POSITION_COUNT \<le> unat p then key_edges source calls host
          else if pressed = (unat p \<in> host) then None
          else key_edges source calls (if pressed then insert (unat p) host else host - {unat p})
      | _ \<Rightarrow> key_edges source calls host)"

lemma key_edges_append:
  "key_edges source (xs @ ys) host =
     (case key_edges source xs host of None \<Rightarrow> None | Some host \<Rightarrow> key_edges source ys host)"
  by (induction xs arbitrary: host) (auto split: zmk_call.split event.split)

definition is_key_call :: "zmk_call \<Rightarrow> bool" where
  "is_key_call call \<longleftrightarrow> (\<exists>s p b. call = Peripheral_event s (Key_position p b))"

lemma is_key_call_simps [simp]:
  "is_key_call (Peripheral_event s event) \<longleftrightarrow> (\<exists>p b. event = Key_position p b)"
  "\<not> is_key_call (Battery_changed s level)" "\<not> is_key_call (Input_split_disconnected reg)"
  "\<not> is_key_call (Peripheral_changed s connected)" "\<not> is_key_call (Status_changed enabled status)"
  by (auto simp: is_key_call_def)

lemma key_edges_none: "\<forall>call \<in> set calls. \<not> is_key_call call \<Longrightarrow> key_edges source calls host = Some host"
  by (induction calls) (auto simp: is_key_call_def split: zmk_call.split event.split)

text \<open>The positions a bitmap holds pressed.\<close>

definition pressed_set :: "bytes \<Rightarrow> nat set" where
  "pressed_set bitmap = {p. esb_keepalive_bitmap_get bitmap p}"

lemma pressed_set_update:
  assumes "8 \<le> length bitmap" and "p < ESB_KEEPALIVE_POSITION_COUNT"
  shows "pressed_set (esb_keepalive_bitmap_set bitmap p pressed) =
    (if pressed then insert p (pressed_set bitmap) else pressed_set bitmap - {p})"
proof -
  have "esb_keepalive_bitmap_get (esb_keepalive_bitmap_set bitmap p pressed) q =
      (if p = q then pressed else esb_keepalive_bitmap_get bitmap q)" for q
    using bitmap_get_set [of bitmap p q pressed] assms
    by (cases "q < ESB_KEEPALIVE_POSITION_COUNT") (auto simp: not_less)
  then show ?thesis
    by (auto simp: pressed_set_def split: if_splits)
qed

lemma pressed_set_blank: "pressed_set (replicate ESB_KEEPALIVE_BITMAP_BYTES 0) = {}"
proof -
  have "p div 8 < 8" if "p < 64" for p :: nat
    using that by simp
  then show ?thesis
    by (auto simp: pressed_set_def bitmap_get_bit keepalive_layout)
qed

lemma position_word: "p < ESB_KEEPALIVE_POSITION_COUNT \<Longrightarrow> unat (of_nat p :: u8) = p"
  by (rule unat_of_nat_u8) (simp add: keepalive_layout)

lemma key_edges_forward:
  "p < ESB_KEEPALIVE_POSITION_COUNT \<Longrightarrow>
   key_edges source (forward_key_position s p pressed # calls) host =
     (if s \<noteq> source then key_edges source calls host
      else if pressed = (p \<in> host) then None
      else key_edges source calls (if pressed then insert p host else host - {p}))"
  by (simp add: forward_key_position_def position_word)

text \<open>The replay loop, entered at a differing position with everything before it equal.\<close>

lemma replay_positions_spec:
  assumes "replay_positions source target position tracked = (tracked', calls)"
    and "8 \<le> length tracked"
    and "\<forall>p < position. esb_keepalive_bitmap_get tracked p = esb_keepalive_bitmap_get target p"
    and "position < ESB_KEEPALIVE_POSITION_COUNT \<longrightarrow>
      esb_keepalive_bitmap_get tracked position \<noteq> esb_keepalive_bitmap_get target position"
    and "position \<le> ESB_KEEPALIVE_POSITION_COUNT"
  shows "pressed_set tracked' = pressed_set target \<and> length tracked' = length tracked \<and>
    key_edges source calls (pressed_set tracked) = Some (pressed_set target) \<and>
    (\<forall>other. other \<noteq> source \<longrightarrow> key_edges other calls host = Some host)"
  using assms
proof (induction source target position tracked arbitrary: tracked' calls rule: replay_positions.induct)
  case (1 source target position tracked)
  show ?case
  proof (cases "position \<ge> ESB_KEEPALIVE_POSITION_COUNT")
    case True
    then have "pressed_set tracked = pressed_set target"
      using "1.prems"(3,5) by (auto simp: pressed_set_def) (metis bitmap_get_out leI less_le_trans)+
    then show ?thesis
      using "1.prems"(1) True by (simp add: replay_positions.simps)
  next
    case False
    define pressed where "pressed = esb_keepalive_bitmap_get target position"
    define tracked1 where "tracked1 = esb_keepalive_bitmap_set tracked position pressed"
    define stop where "stop = esb_keepalive_bitmap_diff_next tracked1 target (position + 1)"
    obtain later where r: "replay_positions source target stop tracked1 = (tracked', later)"
      "calls = forward_key_position source position pressed # later"
      using "1.prems"(1) False
      by (auto simp: replay_positions.simps [of source target position] Let_def pressed_def tracked1_def stop_def
          split: prod.splits)
    note d = diff_next_cases [OF stop_def]
    have set1: "pressed_set tracked1 = (if pressed then insert position (pressed_set tracked)
        else pressed_set tracked - {position})"
      using pressed_set_update "1.prems"(2) False by (simp add: tracked1_def)
    then have at: "esb_keepalive_bitmap_get tracked1 p \<longleftrightarrow>
        (if p = position then pressed else esb_keepalive_bitmap_get tracked p)" for p
      by (auto simp: pressed_set_def set_eq_iff split: if_splits)
    have before: "\<forall>p < stop. esb_keepalive_bitmap_get tracked1 p = esb_keepalive_bitmap_get target p"
    proof (intro allI impI)
      fix p
      assume "p < stop"
      then show "esb_keepalive_bitmap_get tracked1 p = esb_keepalive_bitmap_get target p"
        using d False "1.prems"(3) at [of p] pressed_def by (cases p position rule: linorder_cases) auto
    qed
    have edge: "pressed \<noteq> (position \<in> pressed_set tracked)"
      using "1.prems"(4) False by (simp add: pressed_def pressed_set_def)
    have "pressed_set tracked' = pressed_set target \<and> length tracked' = length tracked1 \<and>
        key_edges source later (pressed_set tracked1) = Some (pressed_set target) \<and>
        (\<forall>other. other \<noteq> source \<longrightarrow> key_edges other later host = Some host)"
      using "1.IH" [OF False pressed_def tracked1_def, folded stop_def, OF r(1)] "1.prems"(2) before d False
      by (simp add: tracked1_def)
    then show ?thesis
      using edge set1 False r(2) by (simp add: key_edges_forward tracked1_def del: key_edges.simps)
  qed
qed

lemma replay_position_diff_spec:
  assumes "replay_position_diff source target c = (c', calls)" and "source < ESB_LINK_PIPE_MAX"
    and "8 \<le> length (tracked_positions c source)"
  shows "pressed_set (tracked_positions c' source) = pressed_set target \<and>
    length (tracked_positions c' source) = length (tracked_positions c source) \<and>
    (\<forall>other. other \<noteq> source \<longrightarrow> tracked_positions c' other = tracked_positions c other) \<and>
    key_edges source calls (pressed_set (tracked_positions c source)) = Some (pressed_set target) \<and>
    (\<forall>other host. other \<noteq> source \<longrightarrow> key_edges other calls host = Some host)"
proof -
  define start where "start = esb_keepalive_bitmap_diff_next (tracked_positions c source) target 0"
  obtain tracked where r: "replay_positions source target start (tracked_positions c source) = (tracked, calls)"
    "c' = c\<lparr>tracked_positions := (tracked_positions c)(source := tracked)\<rparr>"
    using assms(1,2) by (auto simp: replay_position_diff_def start_def split: prod.splits)
  note d = diff_next_cases [OF start_def]
  show ?thesis
    using replay_positions_spec [OF r(1) assms(3)] d r(2) by auto
qed

text \<open>One message of the event work: the edges it sends lead from the tracked bitmap before to
  the tracked bitmap after, for every source.\<close>

definition tracks_ok :: "central \<Rightarrow> bool" where
  "tracks_ok c \<longleftrightarrow> (\<forall>source. 8 \<le> length (tracked_positions c source))"

lemma deliver_key_event_spec:
  assumes "deliver_key_event source (Key_position p pressed) c = (c', calls)" and "tracks_ok c"
    and "other < ESB_LINK_PIPE_MAX"
  shows "tracks_ok c' \<and> key_edges other calls (pressed_set (tracked_positions c other)) =
      Some (pressed_set (tracked_positions c' other)) \<and>
    (other = source \<and> unat p < ESB_KEEPALIVE_POSITION_COUNT \<longrightarrow>
      (unat p \<in> pressed_set (tracked_positions c' source)) = pressed)"
proof (cases "source \<ge> ESB_LINK_PIPE_MAX \<or> unat p \<ge> ESB_KEEPALIVE_POSITION_COUNT")
  case True
  then show ?thesis
    using assms by (auto simp: deliver_key_event_def)
next
  case False
  have upd: "pressed_set (esb_keepalive_bitmap_set (tracked_positions c source) (unat p) b) =
      (if b then insert (unat p) (pressed_set (tracked_positions c source))
       else pressed_set (tracked_positions c source) - {unat p})" for b
    using assms(2) False by (intro pressed_set_update) (auto simp: tracks_ok_def)
  have get: "esb_keepalive_bitmap_get (tracked_positions c source) (unat p) \<longleftrightarrow>
      unat p \<in> pressed_set (tracked_positions c source)"
    by (simp add: pressed_set_def)
  show ?thesis
  proof (cases "other = source")
    case True
    show ?thesis
      using assms False unfolding True
      by (cases pressed; cases "unat p \<in> pressed_set (tracked_positions c source)")
         (auto simp: deliver_key_event_def Let_def esb_keepalive_key_verdict_def get upd tracks_ok_def
            forward_key_position_def insert_absorb)
  next
    case neq: False
    show ?thesis
      using assms False neq
      by (auto simp: deliver_key_event_def Let_def tracks_ok_def forward_key_position_def
          split: key_verdict.splits)
  qed
qed

lemma sensor_delta_value_positions:
  "sensor_delta_value config source index tot c = (c', value) \<Longrightarrow> tracked_positions c' = tracked_positions c"
  by (auto simp: sensor_delta_value_def split: if_splits prod.splits)

lemma reconcile_sensor_indices_spec:
  "reconcile_sensor_indices config source keepalive indices c = (c', calls) \<Longrightarrow>
   tracked_positions c' = tracked_positions c \<and> (\<forall>call \<in> set calls. \<not> is_key_call call)"
proof (induction indices arbitrary: c c' calls)
  case (Cons index indices)
  obtain c1 v where v: "sensor_delta_value config source index (esb_keepalive_sensor_total_udeg keepalive index) c = (c1, v)"
    by fastforce
  obtain later where r: "reconcile_sensor_indices config source keepalive indices c1 = (c', later)"
    using Cons.prems v by (auto split: prod.splits option.splits)
  show ?case
    using Cons.IH [OF r] Cons.prems v r sensor_delta_value_positions [OF v]
    by (auto split: option.splits)
qed simp

lemma central_handle_inbound_edges:
  assumes "central_handle_inbound config inbound c = (c', calls)" and "tracks_ok c"
    and "other < ESB_LINK_PIPE_MAX"
  shows "tracks_ok c' \<and> key_edges other calls (pressed_set (tracked_positions c other)) =
    Some (pressed_set (tracked_positions c' other))"
proof (cases inbound)
  case (Inbound_keepalive source keepalive)
  define target where "target = esb_keepalive_bitmap keepalive"
  obtain c1 replayed where r: "replay_position_diff source target c = (c1, replayed)" by fastforce
  obtain c2 battery where b: "(if battery_reporting config \<and> \<not> ble_battery_fetching config
      then reconcile_battery source (esb_keepalive_battery_level keepalive) c1 else (c1, [])) = (c2, battery)"
    by fastforce
  obtain sensors where s: "reconcile_sensor_totals config source keepalive c2 = (c', sensors)"
    "calls = replayed @ battery @ sensors"
    using assms(1) Inbound_keepalive r b
    by (auto simp: central_handle_inbound_def target_def split: prod.splits)
  have bc: "tracked_positions c2 = tracked_positions c1" "\<forall>call \<in> set battery. \<not> is_key_call call"
    using b by (auto simp: reconcile_battery_def split: if_splits)
  have sc: "tracked_positions c' = tracked_positions c2" "\<forall>call \<in> set sensors. \<not> is_key_call call"
    using s(1) reconcile_sensor_indices_spec
    by (auto simp: reconcile_sensor_totals_def split: if_splits)
  have rest: "key_edges other (replayed @ battery @ sensors) host = key_edges other replayed host" for host
    using bc(2) sc(2) by (auto simp: key_edges_append key_edges_none split: option.splits)
  show ?thesis
  proof (cases "source < ESB_LINK_PIPE_MAX")
    case True
    have "8 \<le> length (tracked_positions c source)" using assms(2) by (simp add: tracks_ok_def)
    note d = replay_position_diff_spec [OF r True this]
    have "tracks_ok c1"
      using d assms(2) unfolding tracks_ok_def by metis
    then show ?thesis
      using d bc(1) sc(1) rest s(2) by (cases "other = source") (auto simp: tracks_ok_def)
  next
    case False
    then have "c1 = c" "replayed = []"
      using r by (auto simp: replay_position_diff_def)
    then show ?thesis
      using rest s(2) bc(1) sc(1) assms(2) by (simp add: tracks_ok_def)
  qed
next
  case (Inbound_event source event)
  show ?thesis
  proof (cases event)
    case (Key_position p pressed)
    then show ?thesis
      using deliver_key_event_spec [OF _ assms(2,3)] assms(1) Inbound_event
      by (auto simp: central_handle_inbound_def)
  next
    case (Sensor_event index channel val1 val2)
    obtain c1 event' where s: "sensor_event_to_delta config source event c = (c1, event')" by fastforce
    then have "tracked_positions c1 = tracked_positions c"
      "\<forall>e. event' = Some e \<longrightarrow> \<not> is_key_call (Peripheral_event source e)"
      using Sensor_event sensor_delta_value_positions
      by (auto simp: sensor_event_to_delta_def split: if_splits prod.splits option.splits)
    moreover have "c' = c1" "calls = (case event' of None \<Rightarrow> [] | Some e \<Rightarrow> [Peripheral_event source e])"
      using assms(1) Inbound_event Sensor_event s
      by (auto simp: central_handle_inbound_def split: option.splits)
    ultimately show ?thesis
      using assms(2) key_edges_none [of calls] by (auto simp: tracks_ok_def split: option.splits)
  next
    case (Battery_event level)
    then show ?thesis
      using assms(1,2) Inbound_event
      by (auto simp: central_handle_inbound_def reconcile_battery_def tracks_ok_def split: if_splits)
  qed (use assms(1,2) Inbound_event in \<open>auto simp: central_handle_inbound_def\<close>)
qed

lemma central_handle_all_edges:
  assumes "central_handle_all config inbounds c = (c', calls)" and "tracks_ok c"
    and "other < ESB_LINK_PIPE_MAX"
  shows "tracks_ok c' \<and> key_edges other calls (pressed_set (tracked_positions c other)) =
    Some (pressed_set (tracked_positions c' other))"
  using assms
proof (induction inbounds arbitrary: c calls)
  case (Cons inbound inbounds)
  obtain c1 now where h: "central_handle_inbound config inbound c = (c1, now)" by fastforce
  obtain later where r: "central_handle_all config inbounds c1 = (c', later)" "calls = now @ later"
    using Cons.prems(1) h by (auto split: prod.splits)
  note one = central_handle_inbound_edges [OF h Cons.prems(2,3)]
  then show ?case
    using Cons.IH [OF r(1) _ Cons.prems(3)] by (simp add: r(2) key_edges_append)
qed simp

text \<open>
  Whatever the queue holds, lost, repeated or reordered key events included, the key
  edges the event work sends to ZMK never press a position that is down nor release one that
  is up, for each source, and end at the tracked bitmap.
\<close>

theorem central_key_edges_alternate:
  assumes "central_event_work_fn config c = (c', calls)" and "tracks_ok c" and "source < ESB_LINK_PIPE_MAX"
  shows "tracks_ok c' \<and> key_edges source calls (pressed_set (tracked_positions c source)) =
    Some (pressed_set (tracked_positions c' source))"
  using central_handle_all_edges [of config "central_event_msgq c" "c\<lparr>central_event_msgq := []\<rparr>" c' calls source]
    assms
  by (simp add: central_event_work_fn_def tracks_ok_def)

definition central_config_example :: central_config where
  "central_config_example = \<lparr>pipe_count = 2, pipe_is_self = (\<lambda>pipe. pipe = 0), pipe_is_relay = (\<lambda>_. False),
     wire_peer_pipe = None, peripheral_timeout_ms = 1000, hop_window_ms = 50, event_queue_size = 8,
     max_payload = 64, has_sensors = True, keymap_sensors = 1, battery_reporting = True,
     ble_battery_fetching = False, hid_indicators = False\<rparr>"

definition central_example :: central where
  "central_example = (central_boot central_config_example 4)
     \<lparr>central_event_msgq := [Inbound_event 1 (Key_position 3 True), Inbound_event 1 (Key_position 3 True)]\<rparr>"

lemma central_example_tracks: "tracks_ok central_example"
  and central_example_pressed: "pressed_set (tracked_positions central_example source) = {}"
  by (simp_all add: tracks_ok_def central_example_def central_boot_def pressed_set_blank ESB_KEEPALIVE_BITMAP_BYTES_def
      flip: ESB_KEEPALIVE_BITMAP_BYTES_def)

theorem central_key_edges_alternate_witness:
  "key_edges 1 (snd (central_event_work_fn central_config_example central_example)) {} \<noteq> None"
proof -
  obtain c' calls where w: "central_event_work_fn central_config_example central_example = (c', calls)"
    by fastforce
  from central_key_edges_alternate [OF w central_example_tracks, of 1] show ?thesis
    by (simp add: w central_example_pressed ESB_LINK_PIPE_MAX_def)
qed

lemma sensor_delta_value_battery:
  "sensor_delta_value config source index tot c = (c', value) \<Longrightarrow>
   tracked_battery_levels c' = tracked_battery_levels c"
  by (auto simp: sensor_delta_value_def split: if_splits prod.splits)

lemma reconcile_sensor_indices_battery:
  "reconcile_sensor_indices config source keepalive indices c = (c', calls) \<Longrightarrow>
   tracked_battery_levels c' = tracked_battery_levels c"
proof (induction indices arbitrary: c c' calls)
  case (Cons index indices)
  then show ?case
    using sensor_delta_value_battery by (auto split: prod.splits option.splits)
qed simp

lemma reconcile_sensor_totals_battery:
  "reconcile_sensor_totals config source keepalive c = (c', calls) \<Longrightarrow>
   tracked_battery_levels c' = tracked_battery_levels c"
  using reconcile_sensor_indices_battery by (auto simp: reconcile_sensor_totals_def split: if_splits)

lemma reconcile_sensor_totals_positions:
  "reconcile_sensor_totals config source keepalive c = (c', calls) \<Longrightarrow>
   tracked_positions c' = tracked_positions c"
  using reconcile_sensor_indices_spec by (auto simp: reconcile_sensor_totals_def split: if_splits)

lemma replay_positions_key_calls:
  "replay_positions source target position tracked = (tracked', calls) \<Longrightarrow> \<forall>call \<in> set calls. is_key_call call"
proof (induction source target position tracked arbitrary: tracked' calls rule: replay_positions.induct)
  case (1 source target position tracked)
  show ?case
    using "1.prems" "1.IH" [OF _ refl refl]
    by (auto simp: replay_positions.simps [of source target position] Let_def forward_key_position_def
        split: if_splits prod.splits)
qed

lemma keepalive_pressed:
  assumes "central_handle_inbound config (Inbound_keepalive source keepalive) c = (c', calls)"
    and "tracks_ok c" and "source < ESB_LINK_PIPE_MAX"
  shows "pressed_set (tracked_positions c' source) = pressed_set (esb_keepalive_bitmap keepalive) \<and>
    (\<forall>other. other \<noteq> source \<longrightarrow> tracked_positions c' other = tracked_positions c other)"
proof -
  obtain c1 replayed where r: "replay_position_diff source (esb_keepalive_bitmap keepalive) c = (c1, replayed)"
    by fastforce
  obtain c2 battery where b: "(if battery_reporting config \<and> \<not> ble_battery_fetching config
      then reconcile_battery source (esb_keepalive_battery_level keepalive) c1 else (c1, [])) = (c2, battery)"
    by fastforce
  obtain sensors where s: "reconcile_sensor_totals config source keepalive c2 = (c', sensors)"
    using assms(1) r b by (auto simp: central_handle_inbound_def split: prod.splits)
  have "tracked_positions c' = tracked_positions c1"
    using b reconcile_sensor_totals_positions [OF s] by (auto simp: reconcile_battery_def split: if_splits)
  moreover have "8 \<le> length (tracked_positions c source)"
    using assms(2) by (simp add: tracks_ok_def)
  ultimately show ?thesis
    using replay_position_diff_spec [OF r assms(3)] by simp
qed

text \<open>
  Claim C17: a keepalive that leaves the queue makes ZMK hold exactly the positions it
  lists, from whatever was tracked, without touching another source's positions, and a known
  battery level becomes the tracked one.
\<close>

theorem central_keepalive_converges:
  assumes "central_handle_inbound config (Inbound_keepalive source keepalive) c = (c', calls)"
    and "tracks_ok c" and "source < ESB_LINK_PIPE_MAX"
  shows "key_edges source calls (pressed_set (tracked_positions c source)) =
      Some (pressed_set (esb_keepalive_bitmap keepalive)) \<and>
    pressed_set (tracked_positions c' source) = pressed_set (esb_keepalive_bitmap keepalive) \<and>
    (\<forall>other. other \<noteq> source \<longrightarrow> tracked_positions c' other = tracked_positions c other) \<and>
    (battery_reporting config \<and> \<not> ble_battery_fetching config \<and>
        esb_keepalive_battery_level keepalive \<noteq> ESB_KEEPALIVE_BATTERY_UNKNOWN \<longrightarrow>
      esb_central_battery_level source c' = esb_keepalive_battery_level keepalive)"
proof -
  obtain c1 replayed where r: "replay_position_diff source (esb_keepalive_bitmap keepalive) c = (c1, replayed)"
    by fastforce
  obtain c2 battery where b: "(if battery_reporting config \<and> \<not> ble_battery_fetching config
      then reconcile_battery source (esb_keepalive_battery_level keepalive) c1 else (c1, [])) = (c2, battery)"
    by fastforce
  obtain sensors where s: "reconcile_sensor_totals config source keepalive c2 = (c', sensors)"
    using assms(1) r b by (auto simp: central_handle_inbound_def split: prod.splits)
  have levels: "tracked_battery_levels c' = tracked_battery_levels c2"
    using s by (rule reconcile_sensor_totals_battery)
  show ?thesis
    using central_handle_inbound_edges [OF assms] keepalive_pressed [OF assms] b assms(3) levels
    by (auto simp: esb_central_battery_level_def reconcile_battery_def split: if_splits)
qed

theorem central_keepalive_converges_witness:
  "pressed_set (tracked_positions (fst (central_handle_inbound central_config_example
     (Inbound_keepalive 2 (esb_keepalive_encode 64 snapshot_example)) central_example)) 2) =
   pressed_set (esb_keepalive_bitmap (esb_keepalive_encode 64 snapshot_example))"
proof -
  obtain c' calls where h: "central_handle_inbound central_config_example
     (Inbound_keepalive 2 (esb_keepalive_encode 64 snapshot_example)) central_example = (c', calls)"
    by fastforce
  show ?thesis
    using central_keepalive_converges [OF h central_example_tracks] by (simp add: h ESB_LINK_PIPE_MAX_def)
qed

section \<open>The staleness tick\<close>

text \<open>The state of one pipe the tick reads and writes.\<close>

definition pipe_view :: "nat \<Rightarrow> central \<Rightarrow> bool \<times> bool \<times> bytes \<times> central_input \<times> esb_sensor_track list" where
  "pipe_view pipe c =
     (pipe_stale c pipe, pipe_connected c pipe, tracked_positions c pipe, inputs c pipe, sensor_tracks c pipe)"

definition pipe_active :: "central_config \<Rightarrow> pipe_report \<Rightarrow> bool \<Rightarrow> nat \<Rightarrow> bool" where
  "pipe_active config report wire_up pipe \<longleftrightarrow>
     quiet_ms report \<le> peripheral_timeout_ms config \<and> (wire_central_owns_pipe config pipe \<longrightarrow> wire_up)"

lemma pipe_active_fold:
  "(if wire_central_owns_pipe config pipe \<and> \<not> wire_up then False
    else quiet_ms report \<le> peripheral_timeout_ms config) = pipe_active config report wire_up pipe"
  by (simp add: pipe_active_def)

text \<open>What a tick makes of one pipe, and the calls it makes for it: for a pipe that turns stale the
  release of each position held and of each input register seen, in ascending order, then the
  change of its connection.\<close>

definition ticks :: "central_config \<Rightarrow> nat \<Rightarrow> bool" where
  "ticks config pipe \<longleftrightarrow> pipe < min (pipe_count config) ESB_LINK_PIPE_MAX \<and> \<not> pipe_is_self config pipe"

definition stale_after :: "central_config \<Rightarrow> (nat \<Rightarrow> pipe_report) \<Rightarrow> bool \<Rightarrow> central \<Rightarrow> nat \<Rightarrow> bool" where
  "stale_after config report wire_up c pipe =
     (if ticks config pipe \<and> heard (report pipe) then \<not> pipe_active config (report pipe) wire_up pipe
      else pipe_stale c pipe)"

definition connected_after :: "central_config \<Rightarrow> (nat \<Rightarrow> pipe_report) \<Rightarrow> bool \<Rightarrow> central \<Rightarrow> nat \<Rightarrow> bool" where
  "connected_after config report wire_up c pipe =
     (if ticks config pipe then heard (report pipe) \<and> \<not> stale_after config report wire_up c pipe
      else pipe_connected c pipe)"

definition turns_stale :: "central_config \<Rightarrow> (nat \<Rightarrow> pipe_report) \<Rightarrow> bool \<Rightarrow> central \<Rightarrow> nat \<Rightarrow> bool" where
  "turns_stale config report wire_up c pipe \<longleftrightarrow> stale_after config report wire_up c pipe \<and> \<not> pipe_stale c pipe"

definition silence_calls :: "central \<Rightarrow> nat \<Rightarrow> zmk_call list" where
  "silence_calls c pipe =
     map (\<lambda>position. forward_key_position pipe position False)
       (filter (esb_keepalive_bitmap_get (tracked_positions c pipe)) [0..<ESB_KEEPALIVE_POSITION_COUNT]) @
     map Input_split_disconnected (filter (bit (seen_input_regs (inputs c pipe))) [0..<CENTRAL_INPUT_REG_MAX])"

definition tick_calls :: "central_config \<Rightarrow> (nat \<Rightarrow> pipe_report) \<Rightarrow> bool \<Rightarrow> central \<Rightarrow> nat \<Rightarrow> zmk_call list" where
  "tick_calls config report wire_up c pipe =
     (if turns_stale config report wire_up c pipe then silence_calls c pipe else []) @
     (let connected = connected_after config report wire_up c pipe
      in if connected \<noteq> pipe_connected c pipe then [Peripheral_changed pipe connected] else [])"

definition pipe_after :: "central_config \<Rightarrow> (nat \<Rightarrow> pipe_report) \<Rightarrow> bool \<Rightarrow> nat \<Rightarrow> central \<Rightarrow> central \<Rightarrow> bool" where
  "pipe_after config report wire_up pipe c c' \<longleftrightarrow>
     pipe_stale c' pipe = stale_after config report wire_up c pipe \<and>
     pipe_connected c' pipe = connected_after config report wire_up c pipe \<and>
     length (tracked_positions c' pipe) = length (tracked_positions c pipe) \<and>
     (if turns_stale config report wire_up c pipe
      then pressed_set (tracked_positions c' pipe) = {} \<and>
        inputs c' pipe = (inputs c pipe)\<lparr>input_reset := True\<rparr> \<and>
        sensor_tracks c' pipe = sensor_tracks (sensor_tracks_reset config pipe c) pipe
      else tracked_positions c' pipe = tracked_positions c pipe \<and> inputs c' pipe = inputs c pipe \<and>
        sensor_tracks c' pipe = sensor_tracks c pipe)"

lemma tick_calls_view:
  "pipe_view pipe c1 = pipe_view pipe c \<Longrightarrow> tick_calls config report wire_up c1 pipe = tick_calls config report wire_up c pipe"
  by (simp add: pipe_view_def tick_calls_def turns_stale_def stale_after_def connected_after_def silence_calls_def)

lemma pipe_after_view:
  assumes "pipe_view pipe c1 = pipe_view pipe c" "pipe_view pipe c1' = pipe_view pipe c'"
  shows "pipe_after config report wire_up pipe c1 c1' = pipe_after config report wire_up pipe c c'"
  using assms by (simp add: pipe_view_def pipe_after_def turns_stale_def stale_after_def connected_after_def sensor_tracks_reset_def)

lemma upt_split: "i \<le> j \<Longrightarrow> j \<le> k \<Longrightarrow> [i..<k] = [i..<j] @ [j..<k]"
  using upt_add_eq_append [of i j "k - j"] by simp

text \<open>Towards an empty bitmap the replay releases every position held, in ascending order.\<close>

lemma replay_positions_release:
  assumes "replay_positions source target position tracked = (tracked', calls)"
    and "8 \<le> length tracked" "pressed_set target = {}" "position \<le> ESB_KEEPALIVE_POSITION_COUNT"
    and "position < ESB_KEEPALIVE_POSITION_COUNT \<longrightarrow> esb_keepalive_bitmap_get tracked position"
  shows "calls = map (\<lambda>p. forward_key_position source p False)
    (filter (esb_keepalive_bitmap_get tracked) [position..<ESB_KEEPALIVE_POSITION_COUNT])"
  using assms
proof (induction source target position tracked arbitrary: tracked' calls rule: replay_positions.induct)
  case (1 source target position tracked)
  have up: "\<not> esb_keepalive_bitmap_get target p" for p
    using "1.prems"(3) by (simp add: pressed_set_def)
  show ?case
  proof (cases "position \<ge> ESB_KEEPALIVE_POSITION_COUNT")
    case True
    then show ?thesis using "1.prems"(1) by (simp add: replay_positions.simps)
  next
    case False
    define tracked1 where "tracked1 = esb_keepalive_bitmap_set tracked position False"
    define stop where "stop = esb_keepalive_bitmap_diff_next tracked1 target (position + 1)"
    obtain later where r: "replay_positions source target stop tracked1 = (tracked', later)"
      "calls = forward_key_position source position False # later"
      using "1.prems"(1) False up
      by (auto simp: replay_positions.simps [of source target position] Let_def tracked1_def stop_def split: prod.splits)
    note d = diff_next_cases [OF stop_def]
    have same: "esb_keepalive_bitmap_get tracked1 p \<longleftrightarrow> esb_keepalive_bitmap_get tracked p" if "position < p" for p
      using pressed_set_update [OF "1.prems"(2), of position False] False that
      by (auto simp: tracked1_def pressed_set_def set_eq_iff)
    have range: "position + 1 \<le> stop" "stop \<le> ESB_KEEPALIVE_POSITION_COUNT" using d False by simp_all
    have gap: "filter (esb_keepalive_bitmap_get tracked) [position + 1..<stop] = []"
      using d False same up by (auto simp: filter_empty_conv)
    have "later = map (\<lambda>p. forward_key_position source p False)
        (filter (esb_keepalive_bitmap_get tracked1) [stop..<ESB_KEEPALIVE_POSITION_COUNT])"
      using "1.IH" [OF False _ _, folded stop_def tracked1_def, of False] up r(1) "1.prems"(2,3) d False
      by (simp add: tracked1_def stop_def)
    moreover have "filter (esb_keepalive_bitmap_get tracked1) [stop..<ESB_KEEPALIVE_POSITION_COUNT] =
        filter (esb_keepalive_bitmap_get tracked) [stop..<ESB_KEEPALIVE_POSITION_COUNT]"
      using same range by (intro filter_cong) auto
    moreover have "[position..<ESB_KEEPALIVE_POSITION_COUNT] = position # [position + 1..<stop] @ [stop..<ESB_KEEPALIVE_POSITION_COUNT]"
      using False range upt_split [of "position + 1" stop ESB_KEEPALIVE_POSITION_COUNT]
      by (simp add: upt_conv_Cons)
    ultimately show ?thesis
      using r(2) gap "1.prems"(5) False by simp
  qed
qed

lemma replay_position_diff_other:
  "replay_position_diff source target c = (c', calls) \<Longrightarrow>
   pipe_stale c' = pipe_stale c \<and> pipe_connected c' = pipe_connected c \<and> inputs c' = inputs c \<and>
   sensor_tracks c' = sensor_tracks c \<and> last_connections c' = last_connections c \<and>
   status_cb c' = status_cb c \<and> transport_enabled c' = transport_enabled c \<and>
   (\<forall>other. other \<noteq> source \<longrightarrow> tracked_positions c' other = tracked_positions c other)"
  by (auto simp: replay_position_diff_def split: if_splits prod.splits)

lemma release_stale_pipe_exact:
  assumes "release_stale_pipe pipe c = (c', calls)" and "pipe < ESB_LINK_PIPE_MAX"
    and "8 \<le> length (tracked_positions c pipe)"
  shows "calls = silence_calls c pipe" and "pressed_set (tracked_positions c' pipe) = {}"
    and "length (tracked_positions c' pipe) = length (tracked_positions c pipe)"
    and "inputs c' = (inputs c)(pipe := (inputs c pipe)\<lparr>input_reset := True\<rparr>)"
    and "pipe_stale c' = pipe_stale c \<and> pipe_connected c' = pipe_connected c \<and> sensor_tracks c' = sensor_tracks c"
    and "last_connections c' = last_connections c \<and> status_cb c' = status_cb c \<and> transport_enabled c' = transport_enabled c"
    and "\<forall>other. other \<noteq> pipe \<longrightarrow> tracked_positions c' other = tracked_positions c other"
proof -
  define blank :: bytes where "blank = replicate ESB_KEEPALIVE_BITMAP_BYTES 0"
  define start where "start = esb_keepalive_bitmap_diff_next (tracked_positions c pipe) blank 0"
  have empty: "pressed_set blank = {}" by (simp add: blank_def pressed_set_blank)
  then have up: "\<not> esb_keepalive_bitmap_get blank p" for p by (simp add: pressed_set_def)
  obtain tracked replayed where r: "replay_positions pipe blank start (tracked_positions c pipe) = (tracked, replayed)"
    by fastforce
  note d = diff_next_cases [OF start_def]
  have "filter (esb_keepalive_bitmap_get (tracked_positions c pipe)) [0..<start] = []"
    using d up by (auto simp: filter_empty_conv)
  moreover have "[0..<ESB_KEEPALIVE_POSITION_COUNT] = [0..<start] @ [start..<ESB_KEEPALIVE_POSITION_COUNT]"
    using d by (intro upt_split) simp_all
  moreover have "replayed = map (\<lambda>p. forward_key_position pipe p False)
      (filter (esb_keepalive_bitmap_get (tracked_positions c pipe)) [start..<ESB_KEEPALIVE_POSITION_COUNT])"
    by (rule replay_positions_release [OF r assms(3) empty]) (use d up in auto)
  ultimately have releases: "replayed = map (\<lambda>p. forward_key_position pipe p False)
      (filter (esb_keepalive_bitmap_get (tracked_positions c pipe)) [0..<ESB_KEEPALIVE_POSITION_COUNT])"
    by simp
  have out: "c' = c\<lparr>tracked_positions := (tracked_positions c)(pipe := tracked),
        inputs := (inputs c)(pipe := (inputs c pipe)\<lparr>input_reset := True\<rparr>)\<rparr>"
      "calls = silence_calls c pipe"
    using assms(1,2) r releases
    by (auto simp: release_stale_pipe_def replay_position_diff_def update_input_def central_input_release_pipe_def
        silence_calls_def Let_def blank_def [symmetric] start_def [symmetric])
  show "calls = silence_calls c pipe" by (rule out(2))
  show "pressed_set (tracked_positions c' pipe) = {}" "length (tracked_positions c' pipe) = length (tracked_positions c pipe)"
    using replay_positions_spec [OF r assms(3)] d by (auto simp: out(1) empty)
  show "inputs c' = (inputs c)(pipe := (inputs c pipe)\<lparr>input_reset := True\<rparr>)"
    and "pipe_stale c' = pipe_stale c \<and> pipe_connected c' = pipe_connected c \<and> sensor_tracks c' = sensor_tracks c"
    and "last_connections c' = last_connections c \<and> status_cb c' = status_cb c \<and> transport_enabled c' = transport_enabled c"
    and "\<forall>other. other \<noteq> pipe \<longrightarrow> tracked_positions c' other = tracked_positions c other"
    by (simp_all add: out(1))
qed

lemma sensor_tracks_reset_view [simp]:
  "pipe_stale (sensor_tracks_reset config source c) = pipe_stale c"
  "pipe_connected (sensor_tracks_reset config source c) = pipe_connected c"
  "inputs (sensor_tracks_reset config source c) = inputs c"
  "tracked_positions (sensor_tracks_reset config source c) = tracked_positions c"
  "last_connections (sensor_tracks_reset config source c) = last_connections c"
  "status_cb (sensor_tracks_reset config source c) = status_cb c"
  "transport_enabled (sensor_tracks_reset config source c) = transport_enabled c"
  "other \<noteq> source \<Longrightarrow> sensor_tracks (sensor_tracks_reset config source c) other = sensor_tracks c other"
  by (simp_all add: sensor_tracks_reset_def)

lemma staleness_check_pipe_exact:
  assumes "staleness_check_pipe config report wire_up pipe c = (c', calls)"
    and "pipe < min (pipe_count config) ESB_LINK_PIPE_MAX" and "tracks_ok c"
  shows "calls = tick_calls config report wire_up c pipe \<and> pipe_after config report wire_up pipe c c' \<and>
    (\<forall>other. other \<noteq> pipe \<longrightarrow> pipe_view other c' = pipe_view other c) \<and> tracks_ok c' \<and>
    last_connections c' = last_connections c \<and> status_cb c' = status_cb c \<and> transport_enabled c' = transport_enabled c"
proof (cases "pipe_is_self config pipe")
  case True
  then show ?thesis
    using assms(1,3) by (simp add: staleness_check_pipe_def tick_calls_def pipe_after_def turns_stale_def stale_after_def
        connected_after_def ticks_def)
next
  case False
  then have t: "ticks config pipe" using assms(2) by (simp add: ticks_def)
  have len: "8 \<le> length (tracked_positions c pipe)" "pipe < ESB_LINK_PIPE_MAX"
    using assms(2,3) by (simp_all add: tracks_ok_def)
  define c0 where "c0 = c\<lparr>pipe_stale := (pipe_stale c)(pipe := True)\<rparr>"
  obtain c1 released where rel: "release_stale_pipe pipe c0 = (c1, released)" by fastforce
  have c0: "8 \<le> length (tracked_positions c0 pipe)" "silence_calls c0 pipe = silence_calls c pipe"
    using len by (simp_all add: c0_def silence_calls_def)
  note r = release_stale_pipe_exact [OF rel len(2) c0(1)]
  have exact: "inputs c1 = (inputs c)(pipe := (inputs c pipe)\<lparr>input_reset := True\<rparr>)" "pipe_stale c1 = (pipe_stale c)(pipe := True)"
    "pipe_connected c1 = pipe_connected c" "sensor_tracks c1 = sensor_tracks c"
    "last_connections c1 = last_connections c \<and> status_cb c1 = status_cb c \<and> transport_enabled c1 = transport_enabled c"
    "\<And>other. other \<noteq> pipe \<Longrightarrow> tracked_positions c1 other = tracked_positions c other"
    using r(4-7) by (simp_all add: c0_def)
  have kept: "length (tracked_positions c1 pipe) = length (tracked_positions c pipe)" "released = silence_calls c pipe"
    using r(1,3) c0(2) by (simp_all add: c0_def)
  have bases: "sensor_tracks (sensor_tracks_reset config pipe c1) pipe = sensor_tracks (sensor_tracks_reset config pipe c) pipe"
    by (simp add: sensor_tracks_reset_def exact)
  define mid where "mid = (if heard (report pipe) then
      if pipe_active config (report pipe) wire_up pipe then (c\<lparr>pipe_stale := (pipe_stale c)(pipe := False)\<rparr>, [])
      else if \<not> pipe_stale c pipe then (sensor_tracks_reset config pipe c1, released) else (c, [])
    else (c, []))"
  obtain cm cs where m: "mid = (cm, cs)" by fastforce
  have cm: "cs = (if turns_stale config report wire_up c pipe then silence_calls c pipe else [])"
    "pipe_stale cm pipe = stale_after config report wire_up c pipe" "pipe_connected cm = pipe_connected c"
    "length (tracked_positions cm pipe) = length (tracked_positions c pipe)"
    "last_connections cm = last_connections c \<and> status_cb cm = status_cb c \<and> transport_enabled cm = transport_enabled c"
    "\<And>other. other \<noteq> pipe \<Longrightarrow> pipe_view other cm = pipe_view other c"
    using m t
    by (auto simp: mid_def turns_stale_def stale_after_def pipe_view_def exact kept split: if_splits)
  have after: "if turns_stale config report wire_up c pipe
      then pressed_set (tracked_positions cm pipe) = {} \<and> inputs cm pipe = (inputs c pipe)\<lparr>input_reset := True\<rparr> \<and>
        sensor_tracks cm pipe = sensor_tracks (sensor_tracks_reset config pipe c) pipe
      else tracked_positions cm pipe = tracked_positions c pipe \<and> inputs cm pipe = inputs c pipe \<and>
        sensor_tracks cm pipe = sensor_tracks c pipe"
    using m r(2) t bases
    by (auto simp: mid_def turns_stale_def stale_after_def exact split: if_splits)
  define connected where "connected = connected_after config report wire_up c pipe"
  have conn: "(heard (report pipe) \<and> \<not> pipe_stale cm pipe) = connected"
    using t by (simp add: connected_def connected_after_def cm(2))
  have "(c', calls) = (if (heard (report pipe) \<and> \<not> pipe_stale cm pipe) \<noteq> pipe_connected cm pipe
      then (cm\<lparr>pipe_connected := (pipe_connected cm)(pipe := heard (report pipe) \<and> \<not> pipe_stale cm pipe)\<rparr>,
            cs @ [Peripheral_changed pipe (heard (report pipe) \<and> \<not> pipe_stale cm pipe)])
      else (cm, cs))"
    using assms(1) False m rel
    by (simp add: staleness_check_pipe_def Let_def pipe_active_fold c0_def [symmetric] mid_def
        split: prod.splits if_splits del: if_split)
  then have "(c', calls) = (if connected \<noteq> pipe_connected c pipe
      then (cm\<lparr>pipe_connected := (pipe_connected cm)(pipe := connected)\<rparr>, cs @ [Peripheral_changed pipe connected])
      else (cm, cs))"
    unfolding conn cm(3) .
  then have out: "c' = (if connected \<noteq> pipe_connected c pipe then cm\<lparr>pipe_connected := (pipe_connected cm)(pipe := connected)\<rparr> else cm)"
    "calls = cs @ (if connected \<noteq> pipe_connected c pipe then [Peripheral_changed pipe connected] else [])"
    by (simp_all split: if_splits)
  have view: "pipe_stale c' = pipe_stale cm" "tracked_positions c' = tracked_positions cm" "inputs c' = inputs cm"
    "sensor_tracks c' = sensor_tracks cm" "pipe_connected c' pipe = connected"
    "\<And>other. other \<noteq> pipe \<Longrightarrow> pipe_view other c' = pipe_view other cm"
    "last_connections c' = last_connections cm \<and> status_cb c' = status_cb cm \<and> transport_enabled c' = transport_enabled cm"
    using cm(3) by (auto simp: out(1) pipe_view_def)
  have "8 \<le> length (tracked_positions c' other)" for other
    using assms(3) len cm(4) cm(6) [of other] view(6) [of other]
    by (cases "other = pipe") (auto simp: tracks_ok_def pipe_view_def view(2))
  then have "tracks_ok c'" by (simp add: tracks_ok_def)
  moreover have "pipe_after config report wire_up pipe c c'"
    using after cm(2,4) unfolding pipe_after_def view(1-5) connected_def by blast
  moreover have "calls = tick_calls config report wire_up c pipe"
    using out(2) cm(1) by (simp add: tick_calls_def connected_def Let_def)
  ultimately show ?thesis
    using view(6,7) cm(5,6) by simp
qed

lemma staleness_check_pipes_exact:
  assumes "staleness_check_pipes config report wire_up pipes c = (c', calls)" and "tracks_ok c"
    and "\<forall>pipe \<in> set pipes. pipe < min (pipe_count config) ESB_LINK_PIPE_MAX" and "distinct pipes"
  shows "calls = concat (map (tick_calls config report wire_up c) pipes) \<and>
    (\<forall>pipe \<in> set pipes. pipe_after config report wire_up pipe c c') \<and>
    (\<forall>other. other \<notin> set pipes \<longrightarrow> pipe_view other c' = pipe_view other c) \<and>
    last_connections c' = last_connections c \<and> status_cb c' = status_cb c \<and> transport_enabled c' = transport_enabled c"
  using assms
proof (induction pipes arbitrary: c calls)
  case Nil
  then show ?case by simp
next
  case (Cons pipe pipes)
  obtain c1 now where one: "staleness_check_pipe config report wire_up pipe c = (c1, now)" by fastforce
  obtain later where r: "staleness_check_pipes config report wire_up pipes c1 = (c', later)" "calls = now @ later"
    using Cons.prems(1) one by (auto split: prod.splits)
  have p: "pipe < min (pipe_count config) ESB_LINK_PIPE_MAX" "pipe \<notin> set pipes" "distinct pipes"
    "\<forall>pipe \<in> set pipes. pipe < min (pipe_count config) ESB_LINK_PIPE_MAX"
    using Cons.prems by auto
  note o = staleness_check_pipe_exact [OF one p(1) Cons.prems(2)]
  note ih = Cons.IH [OF r(1) _ p(4,3)]
  have "tick_calls config report wire_up c1 q = tick_calls config report wire_up c q" if "q \<in> set pipes" for q
    using o that p(2) by (intro tick_calls_view) auto
  then have "later = concat (map (tick_calls config report wire_up c) pipes)"
    using ih o by (simp cong: map_cong)
  moreover have "pipe_after config report wire_up q c c'" if q: "q \<in> set (pipe # pipes)" for q
  proof (cases "q = pipe")
    case True
    then show ?thesis
      using o ih p(2) pipe_after_view [of pipe c c c' c1] by simp
  next
    case False
    then have "pipe_after config report wire_up q c1 c'" "pipe_view q c1 = pipe_view q c" using o ih q by simp_all
    then show ?thesis using pipe_after_view [of q c1 c c' c'] by blast
  qed
  ultimately show ?case
    using o ih r(2) by simp
qed

text \<open>
  Claim C25: the tick, exactly. It takes each pipe below the count but the device's own: stale
  when it was heard and its silence passed the timeout or its wire is down, connected when heard
  and not stale. The calls to ZMK are, pipe by pipe, for a pipe that turns stale the release of
  every position held, in order, and of every input register seen, then its connection if that
  changed, and at the end the status if that changed; there are no others. A pipe that turns
  stale has no position held, its input keys marked for reset and its sensor bases dropped;
  positions, input keys and sensor bases of every other pipe stay as they were.
\<close>

theorem central_staleness_tick:
  assumes "staleness_work_fn config report wire_up c = (c', calls)" and "tracks_ok c"
  shows "calls = concat (map (tick_calls config report wire_up c) [0..<min (pipe_count config) ESB_LINK_PIPE_MAX]) @
      (if central_connections_status config c' \<noteq> last_connections c \<and> status_cb c
       then [Status_changed (transport_enabled c) (central_connections_status config c')] else []) \<and>
    last_connections c' = central_connections_status config c' \<and>
    (\<forall>pipe. pipe_after config report wire_up pipe c c')"
proof -
  define pipes where "pipes = [0..<min (pipe_count config) ESB_LINK_PIPE_MAX]"
  obtain c1 raised where ticked: "staleness_check_pipes config report wire_up pipes c = (c1, raised)" by fastforce
  have in_range: "\<forall>pipe \<in> set pipes. pipe < min (pipe_count config) ESB_LINK_PIPE_MAX" "distinct pipes"
    by (simp_all add: pipes_def)
  note exact = staleness_check_pipes_exact [OF ticked assms(2) in_range]
  define now where "now = central_connections_status config c1"
  have same: "c1\<lparr>last_connections := last_connections c1\<rparr> = c1" by simp
  have c': "c' = c1\<lparr>last_connections := now\<rparr>"
    and calls: "calls = raised @ (if now \<noteq> last_connections c \<and> status_cb c then [Status_changed (transport_enabled c) now] else [])"
    using assms(1) ticked exact same
    by (auto simp: staleness_work_fn_def Let_def pipes_def [symmetric] now_def [symmetric] split: if_splits)
  have status: "central_connections_status config c' = now"
    by (simp add: c' now_def central_connections_status_def)
  have view: "pipe_view pipe c' = pipe_view pipe c1" for pipe
    by (simp add: c' pipe_view_def)
  have "pipe_after config report wire_up pipe c c'" for pipe
  proof (cases "pipe \<in> set pipes")
    case True
    then show ?thesis
      using exact pipe_after_view [OF refl view, of config report wire_up pipe c] by simp
  next
    case False
    then have "pipe_view pipe c' = pipe_view pipe c" using exact view by simp
    moreover have "\<not> ticks config pipe" using False by (auto simp: pipes_def ticks_def)
    ultimately have "pipe_view pipe c' = pipe_view pipe c" "\<not> ticks config pipe" by simp_all
    then show ?thesis
      by (simp add: pipe_view_def pipe_after_def turns_stale_def stale_after_def connected_after_def)
  qed
  then show ?thesis
    using exact calls by (simp add: pipes_def status) (simp add: c')
qed

text \<open>A pipe that held position 3 gone silent: released, then reported gone.\<close>

definition silent_example :: central where
  "silent_example = central_example\<lparr>tracked_positions := (tracked_positions central_example)(1 := [8, 0, 0, 0, 0, 0, 0, 0]),
     pipe_connected := (pipe_connected central_example)(1 := True)\<rparr>"

lemma silent_example_calls:
  "concat (map (tick_calls central_config_example (\<lambda>_. \<lparr>quiet_ms = 1200, heard = True\<rparr>) False silent_example)
     [0..<min (pipe_count central_config_example) ESB_LINK_PIPE_MAX]) =
   [Peripheral_event 1 (Key_position 3 False), Peripheral_changed 1 False]"
  by code_simp

theorem central_staleness_tick_witness:
  "take 2 (snd (staleness_work_fn central_config_example (\<lambda>_. \<lparr>quiet_ms = 1200, heard = True\<rparr>) False silent_example)) =
    [Peripheral_event 1 (Key_position 3 False), Peripheral_changed 1 False]"
proof -
  obtain c' calls where t: "staleness_work_fn central_config_example (\<lambda>_. \<lparr>quiet_ms = 1200, heard = True\<rparr>) False
     silent_example = (c', calls)"
    by fastforce
  have "tracks_ok silent_example"
    using central_example_tracks by (simp add: silent_example_def tracks_ok_def)
  from central_staleness_tick [OF t this] show ?thesis
    unfolding t by (simp only: silent_example_calls snd_conv) simp
qed

end
