(* ===== verification/Batch.thy ===== *)
theory Batch
  imports Esb_Wire
begin

text \<open>
  Input event batching (\<open>src/esb_batch.c\<close>): events are collected until the report's
  sync flag, a key event or a full batch, and leave as one packet. The batch's array and
  count are the list of its events. A packet handed to \<open>esb_link_send\<close> is its bytes
  and its ACK request, \<open>send_result\<close> what that call returns.
\<close>

definition ESB_BATCH_MAX :: "nat \<Rightarrow> nat" where
  "ESB_BATCH_MAX max_payload = max_payload div ESB_WIRE_INPUT_EVENT_SIZE"

record esb_batch =
  batch_events :: "event list"
  wants_ack :: bool

definition batch_boot :: esb_batch where
  "batch_boot = \<lparr>batch_events = [], wants_ack = False\<rparr>"

type_synonym esb_send = "bytes \<times> bool"

text \<open>The encoding loop of the flush, \<open>length\<close> being what is already written.\<close>

fun encode_batch :: "zmk_abi \<Rightarrow> nat \<Rightarrow> event list \<Rightarrow> bytes \<Rightarrow> bytes" where
  "encode_batch abi max_payload [] wire = wire"
| "encode_batch abi max_payload (event # events) wire =
     encode_batch abi max_payload events
       (wire @ esb_wire_encode_event abi (max_payload - length wire) event)"

definition esb_batch_flush ::
  "zmk_abi \<Rightarrow> nat \<Rightarrow> status \<Rightarrow> esb_batch \<Rightarrow> esb_batch \<times> esb_send list \<times> status" where
  "esb_batch_flush abi max_payload send_result batch =
     (if length (batch_events batch) = 0 then (batch, [], Ok)
      else
        let wire = encode_batch abi max_payload (batch_events batch) []
        in (batch\<lparr>batch_events := [], wants_ack := False\<rparr>, [(wire, wants_ack batch)], send_result))"

definition batch_flush_due :: "nat \<Rightarrow> esb_batch \<Rightarrow> event \<Rightarrow> bool" where
  "batch_flush_due max_payload batch event =
     (if input_sync event AND ESB_WIRE_INPUT_SYNC \<noteq> 0 then True
      else if input_type event = INPUT_EV_KEY then True
      else length (batch_events batch) \<ge> ESB_BATCH_MAX max_payload)"

definition esb_batch_report_event ::
  "zmk_abi \<Rightarrow> nat \<Rightarrow> status \<Rightarrow> event \<Rightarrow> bool \<Rightarrow> esb_batch \<Rightarrow> esb_batch \<times> esb_send list \<times> status" where
  "esb_batch_report_event abi max_payload send_result event ack batch =
     (let batch = batch\<lparr>batch_events := batch_events batch @ [event]\<rparr>;
          batch = (if ack then batch\<lparr>wants_ack := True\<rparr> else batch)
      in if batch_flush_due max_payload batch event
         then esb_batch_flush abi max_payload send_result batch
         else (batch, [], Ok))"

section \<open>What a packet carries\<close>

text \<open>The events a receiver decodes from a packet, up to the first it cannot.\<close>

function wire_events :: "zmk_abi \<Rightarrow> bytes \<Rightarrow> event list" where
  "wire_events abi data =
     (case esb_wire_decode_event abi data of
        None \<Rightarrow> []
      | Some (event, consumed) \<Rightarrow> event # wire_events abi (drop consumed data))"
  by pat_completeness auto

termination
  by (relation "measure (\<lambda>(abi, data). length data)") (auto dest!: decode_event_bounds)

declare wire_events.simps [simp del]

lemma wire_events_nil [simp]: "wire_events abi [] = []"
  by (simp add: wire_events.simps esb_wire_decode_event_def)

lemma input_encodes:
  assumes "abi_ok abi" and "is_Input_event event" and "10 \<le> out_cap"
  shows "length (esb_wire_encode_event abi out_cap event) = 10 \<and> has_encoding event \<and>
    hd (esb_wire_encode_event abi out_cap event) = input_tag abi"
proof -
  have "has_encoding event"
    using assms(2) by (cases event) (auto simp: has_encoding_def)
  moreover have "event_type abi event = input_tag abi"
    using assms(2) by (cases event) auto
  moreover have "payload_size abi (input_tag abi) = 9"
    using assms(1) by (auto simp: abi_ok_def payload_size_def sizeof_input_wire_def)
  ultimately show ?thesis
    using encode_event_cases [OF assms(1), of event out_cap] assms(3) by simp
qed

lemma encode_batch_events:
  assumes "abi_ok abi" and "\<forall>event \<in> set events. is_Input_event event"
    and "length wire + 10 * length events \<le> max_payload"
    and "\<And>rest. wire_events abi (wire @ rest) = before @ wire_events abi rest"
  shows "(\<forall>rest. wire_events abi (encode_batch abi max_payload events wire @ rest) =
      before @ events @ wire_events abi rest) \<and>
    length (encode_batch abi max_payload events wire) = length wire + 10 * length events \<and>
    take (length wire) (encode_batch abi max_payload events wire) = wire"
  using assms(2-4)
proof (induction events arbitrary: wire before)
  case (Cons event events)
  define added where "added = esb_wire_encode_event abi (max_payload - length wire) event"
  have in1: "length added = 10" "has_encoding event"
    using input_encodes [OF assms(1), of event "max_payload - length wire"] Cons.prems by (auto simp: added_def)
  have step: "wire_events abi (added @ rest) = event # wire_events abi rest" for rest
  proof -
    have "added \<noteq> []" using in1(1) by auto
    then have "esb_wire_decode_event abi (added @ rest) = Some (event, length added)"
      using decode_encode_event [OF assms(1) in1(2), of "max_payload - length wire" added rest]
      by (simp add: added_def)
    then show ?thesis
      by (simp add: wire_events.simps [of abi "added @ rest"])
  qed
  have "wire_events abi ((wire @ added) @ rest) = (before @ [event]) @ wire_events abi rest" for rest
    using Cons.prems(3) step by simp
  note ih = Cons.IH [OF _ _ this]
  have len: "length (wire @ added) + 10 * length events \<le> max_payload"
    using Cons.prems(2) in1(1) by simp
  have pre: "take (length wire) (encode_batch abi max_payload events (wire @ added)) = wire"
  proof -
    have "take (length wire) (take (length (wire @ added)) (encode_batch abi max_payload events (wire @ added))) = wire"
      using ih len Cons.prems(1) by simp
    then show ?thesis by (simp add: min_def)
  qed
  show ?case
    using ih len Cons.prems(1) pre in1(1) by (simp add: added_def [symmetric])
qed simp

definition packet_events :: "zmk_abi \<Rightarrow> esb_send list \<Rightarrow> event list" where
  "packet_events abi sends = concat (map (\<lambda>(wire, acked). wire_events abi wire) sends)"

lemma packet_events_simps [simp]:
  "packet_events abi [] = []"
  "packet_events abi ((wire, acked) # sends) = wire_events abi wire @ packet_events abi sends"
  "packet_events abi (xs @ ys) = packet_events abi xs @ packet_events abi ys"
  by (simp_all add: packet_events_def)

section \<open>Properties of the batch\<close>

text \<open>The batch holds input events of the open report, and always has room for the next.\<close>

definition batch_ok :: "nat \<Rightarrow> esb_batch \<Rightarrow> bool" where
  "batch_ok max_payload batch \<longleftrightarrow>
     (\<forall>event \<in> set (batch_events batch). is_Input_event event) \<and>
     length (batch_events batch) < ESB_BATCH_MAX max_payload \<and>
     (batch_events batch = [] \<longrightarrow> \<not> wants_ack batch)"

lemma report_event_spec:
  assumes "abi_ok abi" and "batch_ok max_payload batch" and "is_Input_event event" and "2 \<le> ESB_BATCH_MAX max_payload"
    and "esb_batch_report_event abi max_payload send_result event ack batch = (batch', sends, result)"
  shows "batch_ok max_payload batch' \<and>
    packet_events abi sends @ batch_events batch' = batch_events batch @ [event] \<and>
    (\<forall>(wire, acked) \<in> set sends. length wire \<le> max_payload \<and> wire \<noteq> [] \<and> hd wire = input_tag abi \<and>
      acked = (wants_ack batch \<or> ack)) \<and>
    (sends = [] \<longrightarrow> wants_ack batch' = (wants_ack batch \<or> ack) \<and> result = Ok) \<and>
    (sends \<noteq> [] \<longrightarrow> batch' = batch_boot \<and> result = send_result) \<and>
    (input_sync event AND ESB_WIRE_INPUT_SYNC \<noteq> 0 \<or> input_type event = INPUT_EV_KEY \<longrightarrow> sends \<noteq> [])"
proof -
  define events where "events = batch_events batch @ [event]"
  define wire where "wire = encode_batch abi max_payload events []"
  have inp: "\<forall>event \<in> set events. is_Input_event event"
    using assms(2,3) by (auto simp: events_def batch_ok_def)
  have "length events \<le> ESB_BATCH_MAX max_payload"
    using assms(2) by (simp add: events_def batch_ok_def)
  then have fits: "length ([] :: bytes) + 10 * length events \<le> max_payload"
    by (simp add: ESB_BATCH_MAX_def ESB_WIRE_INPUT_EVENT_SIZE_def)
  have w: "wire_events abi wire = events" "length wire = 10 * length events"
    using encode_batch_events [OF assms(1) inp fits, of "[]"] by (auto simp: wire_def dest: spec [of _ "[]"])
  obtain first others where split: "events = first # others"
    by (cases events) (auto simp: events_def)
  have cap: "10 \<le> max_payload"
    using fits split by simp
  have fe: "length (esb_wire_encode_event abi max_payload first) = 10 \<and> has_encoding first \<and>
      hd (esb_wire_encode_event abi max_payload first) = input_tag abi"
    using input_encodes [OF assms(1) _ cap] inp split by simp
  define head where "head = esb_wire_encode_event abi max_payload first"
  have head_events: "wire_events abi (head @ rest) = [first] @ wire_events abi rest" for rest
  proof -
    have "head \<noteq> []" using fe by (auto simp: head_def)
    then have "esb_wire_decode_event abi (head @ rest) = Some (first, length head)"
      using decode_encode_event [OF assms(1), of first max_payload head rest] fe by (simp add: head_def)
    then show ?thesis by (simp add: wire_events.simps [of abi "head @ rest"])
  qed
  have "length head + 10 * length others \<le> max_payload"
    using fits split fe by (simp add: head_def)
  then have "take 10 wire = head"
    using encode_batch_events [OF assms(1) _ _ head_events, of others max_payload] inp split fe
    by (simp add: wire_def head_def)
  moreover have "head \<noteq> []" "hd head = input_tag abi"
    using fe by (auto simp: head_def)
  ultimately have hd: "hd wire = input_tag abi" "wire \<noteq> []"
    by (metis hd_take zero_less_numeral) (metis \<open>head \<noteq> []\<close> \<open>take 10 wire = head\<close> take_Nil)
  define filled where "filled = batch\<lparr>batch_events := events, wants_ack := wants_ack batch \<or> ack\<rparr>"
  have "(let b = batch\<lparr>batch_events := events\<rparr> in if ack then b\<lparr>wants_ack := True\<rparr> else b) = filled"
    by (cases batch; cases ack) (simp_all add: filled_def)
  then have report: "(batch', sends, result) = (if batch_flush_due max_payload filled event
      then esb_batch_flush abi max_payload send_result filled else (filled, [], Ok))"
    unfolding assms(5) [symmetric] by (simp add: esb_batch_report_event_def events_def [symmetric] Let_def)
  have flush: "esb_batch_flush abi max_payload send_result filled =
      (batch_boot, [(wire, wants_ack batch \<or> ack)], send_result)"
    using split by (cases batch) (simp add: esb_batch_flush_def filled_def wire_def batch_boot_def Let_def)
  show ?thesis
  proof (cases "batch_flush_due max_payload filled event")
    case True
    then have "batch' = batch_boot" "sends = [(wire, wants_ack batch \<or> ack)]" "result = send_result"
      using report flush by simp_all
    then show ?thesis
      using w hd fits assms(4) by (simp add: batch_boot_def batch_ok_def events_def)
  next
    case False
    then have "batch' = filled" "sends = []" "result = Ok"
      using report by simp_all
    then show ?thesis
      using False inp by (auto simp: batch_ok_def batch_flush_due_def filled_def split: if_splits)
        (simp_all add: events_def)
  qed
qed

text \<open>A run of reported events, each with its ACK request, and the packets sent.\<close>

fun batch_run ::
  "zmk_abi \<Rightarrow> nat \<Rightarrow> (event \<times> bool) list \<Rightarrow> esb_batch \<Rightarrow> esb_batch \<times> esb_send list" where
  "batch_run abi max_payload [] batch = (batch, [])"
| "batch_run abi max_payload ((event, ack) # reports) batch =
     (let (batch, sends, _) = esb_batch_report_event abi max_payload Ok event ack batch;
          (batch, later) = batch_run abi max_payload reports batch
      in (batch, sends @ later))"

lemma batch_run_carries:
  assumes "abi_ok abi" and "batch_ok max_payload batch" and "2 \<le> ESB_BATCH_MAX max_payload"
    and "\<forall>(event, ack) \<in> set reports. is_Input_event event"
    and "batch_run abi max_payload reports batch = (batch', sends)" and "wants_ack batch"
  shows "wants_ack batch' \<or> (\<exists>(wire, acked) \<in> set sends. acked)"
  using assms(2,4-)
proof (induction reports arbitrary: batch sends)
  case (Cons report reports)
  obtain event ack where report: "report = (event, ack)" by fastforce
  obtain batch1 now result where r: "esb_batch_report_event abi max_payload Ok event ack batch = (batch1, now, result)"
    by (metis prod_cases3)
  obtain later where l: "batch_run abi max_payload reports batch1 = (batch', later)" "sends = now @ later"
    using Cons.prems(3) report r by (auto split: prod.splits)
  have ev: "is_Input_event event" using Cons.prems(2) report by simp
  note s = report_event_spec [OF assms(1) Cons.prems(1) ev assms(3) r]
  show ?case
  proof (cases "now = []")
    case True
    then have "wants_ack batch1" using s Cons.prems(4) by simp
    then show ?thesis using Cons.IH [OF _ _ l(1)] s Cons.prems(2) l(2) by auto
  next
    case False
    then show ?thesis using s Cons.prems(4) l(2) by (cases now) auto
  qed
qed simp

lemma batch_run_spec:
  assumes "abi_ok abi" and "batch_ok max_payload batch" and "2 \<le> ESB_BATCH_MAX max_payload"
    and "\<forall>(event, ack) \<in> set reports. is_Input_event event"
    and "batch_run abi max_payload reports batch = (batch', sends)"
  shows "batch_events batch @ map fst reports = packet_events abi sends @ batch_events batch' \<and>
    batch_ok max_payload batch' \<and>
    (\<forall>(wire, acked) \<in> set sends. length wire \<le> max_payload \<and> wire \<noteq> [] \<and> hd wire = input_tag abi) \<and>
    ((\<exists>(event, ack) \<in> set reports. ack) \<longrightarrow> wants_ack batch' \<or> (\<exists>(wire, acked) \<in> set sends. acked))"
  using assms(2,4,5)
proof (induction reports arbitrary: batch sends)
  case Nil
  then show ?case by simp
next
  case (Cons report reports)
  obtain event ack where report: "report = (event, ack)" by fastforce
  obtain batch1 now result where r: "esb_batch_report_event abi max_payload Ok event ack batch = (batch1, now, result)"
    by (metis prod_cases3)
  obtain later where l: "batch_run abi max_payload reports batch1 = (batch', later)" "sends = now @ later"
    using Cons.prems(3) report r by (auto split: prod.splits)
  have ev: "is_Input_event event" using Cons.prems(2) report by simp
  note s = report_event_spec [OF assms(1) Cons.prems(1) ev assms(3) r]
  have s1: "batch_ok max_payload batch1"
    using s by blast
  have s2: "packet_events abi now @ batch_events batch1 = batch_events batch @ [event]"
    using s by blast
  have ih: "batch_events batch1 @ map fst reports = packet_events abi later @ batch_events batch'"
    "batch_ok max_payload batch'"
    "\<forall>(wire, acked) \<in> set later. length wire \<le> max_payload \<and> wire \<noteq> [] \<and> hd wire = input_tag abi"
    "(\<exists>(event, ack) \<in> set reports. ack) \<longrightarrow> wants_ack batch' \<or> (\<exists>(wire, acked) \<in> set later. acked)"
    using Cons.IH [OF s1 _ l(1)] Cons.prems(2) by simp_all
  have "batch_events batch @ map fst (report # reports) = (batch_events batch @ [event]) @ map fst reports"
    by (simp add: report)
  also have "\<dots> = packet_events abi now @ (batch_events batch1 @ map fst reports)"
    unfolding s2 [symmetric] by simp
  finally have order: "batch_events batch @ map fst (report # reports) =
      packet_events abi sends @ batch_events batch'"
    using ih(1) l(2) by simp
  have carried: "wants_ack batch1 \<longrightarrow> wants_ack batch' \<or> (\<exists>(wire, acked) \<in> set later. acked)"
    using batch_run_carries [OF assms(1) _ assms(3) _ l(1)] s Cons.prems(2) by simp
  have first: "ack \<longrightarrow> wants_ack batch1 \<or> (\<exists>(wire, acked) \<in> set now. acked)"
    using s [THEN conjunct2, THEN conjunct2, THEN conjunct1]
      s [THEN conjunct2, THEN conjunct2, THEN conjunct2, THEN conjunct1] by (cases now) auto
  have now: "\<forall>(wire, acked) \<in> set now. length wire \<le> max_payload \<and> wire \<noteq> [] \<and> hd wire = input_tag abi"
    using s [THEN conjunct2, THEN conjunct2, THEN conjunct1] by fast
  show ?case
  proof (intro conjI)
    show "\<forall>(wire, acked) \<in> set sends. length wire \<le> max_payload \<and> wire \<noteq> [] \<and> hd wire = input_tag abi"
      unfolding l(2) set_append ball_Un using now ih(3) by (rule conjI)
    show "(\<exists>(event, ack) \<in> set (report # reports). ack) \<longrightarrow>
        wants_ack batch' \<or> (\<exists>(wire, acked) \<in> set sends. acked)"
      unfolding l(2) set_append bex_Un using ih(4) carried first report by auto
  qed (rule order, rule ih(2))
qed

text \<open>
  Claim C16: batching loses, repeats and reorders nothing and never overruns its array: the
  packets sent for a run of input events decode, in order, to those events less the open
  report still held, every packet fits the radio payload and starts with the input tag, and a
  packet with an event that wants an ACK asks for one.
\<close>

theorem esb_batch_lossless:
  assumes "abi_ok abi" and "batch_ok max_payload batch" and "2 \<le> ESB_BATCH_MAX max_payload"
    and "\<forall>(event, ack) \<in> set reports. is_Input_event event"
    and "batch_run abi max_payload reports batch = (batch', sends)"
  shows "batch_events batch @ map fst reports = packet_events abi sends @ batch_events batch' \<and>
    batch_ok max_payload batch' \<and>
    (\<forall>(wire, acked) \<in> set sends. length wire \<le> max_payload \<and> wire \<noteq> [] \<and> hd wire = input_tag abi) \<and>
    ((\<exists>(event, ack) \<in> set reports. ack) \<longrightarrow> wants_ack batch' \<or> (\<exists>(wire, acked) \<in> set sends. acked))"
  using assms by (rule batch_run_spec)

theorem esb_batch_lossless_witness:
  "batch_events (fst (batch_run abi_example 32 [(Input_event 0 0 2 0 5, False), (Input_event 0 1 2 1 7, False),
     (Input_event 0 0 2 0 9, False)] batch_boot)) = [Input_event 0 0 2 0 9]"
proof -
  let ?reports = "[(Input_event 0 0 2 0 5, False), (Input_event 0 1 2 1 7, False), (Input_event 0 0 2 0 9, False)]"
  obtain batch' sends where r: "batch_run abi_example 32 ?reports batch_boot = (batch', sends)"
    by fastforce
  have max: "ESB_BATCH_MAX 32 = 3"
    by (simp add: ESB_BATCH_MAX_def ESB_WIRE_INPUT_EVENT_SIZE_def)
  have "batch_ok 32 batch_boot"
    by (simp add: batch_ok_def batch_boot_def max)
  from esb_batch_lossless [OF abi_example_ok this _ _ r]
  have "packet_events abi_example sends @ batch_events batch' = map fst ?reports"
    by (simp add: max batch_boot_def)
  moreover have "batch_events batch' = [Input_event 0 0 2 0 9]"
    using r
    by (auto simp: esb_batch_report_event_def batch_flush_due_def esb_batch_flush_def batch_boot_def max
        ESB_WIRE_INPUT_SYNC_def INPUT_EV_KEY_def)
  ultimately show ?thesis by (simp only: r fst_conv)
qed

end
