(* ===== verification/Peripheral.thy ===== *)
theory Peripheral
  imports Esb_Wire Keepalive Sensor_Sync
begin

text \<open>
  The split peripheral's shared core (\<open>src/peripheral.c\<close>, \<open>src/peripheral_input.c\<close>):
  the state a keepalive carries (pressed positions, held input keys, sensor totals), the
  encoder of live events, the command queue and what the central synced back. What ZMK
  reports of the battery and the sizes from Kconfig are arguments.
\<close>

section \<open>Held input keys\<close>




definition HELD_ENTRY_VALID :: u32 where "HELD_ENTRY_VALID = push_bit 24 1"
definition HELD_ENTRY_REG_SHIFT :: nat where "HELD_ENTRY_REG_SHIFT = 16"

definition held_entry_pack :: "u8 \<Rightarrow> u16 \<Rightarrow> u32" where
  "held_entry_pack reg code =
     HELD_ENTRY_VALID OR push_bit HELD_ENTRY_REG_SHIFT (ucast reg) OR ucast code"

definition held_entry_unpack :: "u32 \<Rightarrow> esb_keepalive_held_key" where
  "held_entry_unpack entry =
     \<lparr>held_reg = ucast (drop_bit HELD_ENTRY_REG_SHIFT entry), held_code = ucast entry\<rparr>"

definition held_entry_add :: "u32 \<Rightarrow> u32 list \<Rightarrow> u32 list" where
  "held_entry_add entry keys =
     (if first_index (\<lambda>k. k = entry) keys \<noteq> None then keys
      else
        case first_index (\<lambda>k. k = 0) keys of
          Some index \<Rightarrow> keys[index := entry]
        | None \<Rightarrow> keys)"

definition held_entry_remove :: "u32 \<Rightarrow> u32 list \<Rightarrow> u32 list" where
  "held_entry_remove entry keys =
     (case first_index (\<lambda>k. k = entry) keys of
        Some index \<Rightarrow> keys[index := 0]
      | None \<Rightarrow> keys)"

definition peripheral_input_note_event :: "event \<Rightarrow> u32 list \<Rightarrow> u32 list" where
  "peripheral_input_note_event event keys =
     (case event of
        Input_event reg sync type code val \<Rightarrow>
          if type \<noteq> INPUT_EV_KEY then keys
          else
            let entry = held_entry_pack reg code
            in if val \<noteq> 0 then held_entry_add entry keys else held_entry_remove entry keys
      | _ \<Rightarrow> keys)"

definition peripheral_input_held_keys :: "u32 list \<Rightarrow> esb_keepalive_held_key list" where
  "peripheral_input_held_keys keys = map held_entry_unpack (filter (\<lambda>entry. entry \<noteq> 0) keys)"

section \<open>The shared core\<close>

record peripheral =
  pressed_positions :: bytes
  held_input_keys :: "u32 list"
  sensor_total_udeg :: "i64 list"
  peripheral_command_msgq :: "bytes list"
  transport_instance :: bool
  synced_hid_state :: u16
  config_mismatch :: bool

record peripheral_config =
  battery_reporting :: bool
  keymap_sensors :: nat
  command_size :: nat
  command_queue_size :: nat

definition peripheral_boot :: "peripheral_config \<Rightarrow> nat \<Rightarrow> peripheral" where
  "peripheral_boot config keys_max = \<lparr>pressed_positions = replicate ESB_KEEPALIVE_BITMAP_BYTES 0,
     held_input_keys = replicate keys_max 0, sensor_total_udeg = replicate (keymap_sensors config) 0,
     peripheral_command_msgq = [], transport_instance = False, synced_hid_state = 0,
     config_mismatch = False\<rparr>"

definition peripheral_note_key_event :: "u8 \<Rightarrow> bool \<Rightarrow> peripheral \<Rightarrow> peripheral" where
  "peripheral_note_key_event position pressed p =
     p\<lparr>pressed_positions := esb_keepalive_bitmap_set (pressed_positions p) (unat position) pressed\<rparr>"

text \<open>\<open>state_of_charge\<close> is \<open>zmk_battery_state_of_charge()\<close>.\<close>

definition peripheral_battery_level :: "peripheral_config \<Rightarrow> u8 \<Rightarrow> u8" where
  "peripheral_battery_level config state_of_charge =
     (if \<not> battery_reporting config then ESB_KEEPALIVE_BATTERY_UNKNOWN
      else if state_of_charge = 0 then ESB_KEEPALIVE_BATTERY_UNKNOWN
      else state_of_charge)"

text \<open>A keymap without sensors has no totals, and every index is out of their range.\<close>

definition peripheral_sensor_event_to_total :: "event \<Rightarrow> peripheral \<Rightarrow> peripheral \<times> event" where
  "peripheral_sensor_event_to_total event p =
     (let index = unat (sensor_index event)
      in if index \<ge> length (sensor_total_udeg p) then (p, event)
         else
           let tot = sensor_total_udeg p ! index + esb_sensor_udeg (sensor_val1 event) (sensor_val2 event)
           in (p\<lparr>sensor_total_udeg := (sensor_total_udeg p)[index := tot]\<rparr>,
               Sensor_event (sensor_index event) (sensor_channel event)
                 (esb_sensor_udeg_val1 tot) (esb_sensor_udeg_val2 tot)))"

definition peripheral_encode_event ::
  "zmk_abi \<Rightarrow> nat \<Rightarrow> event \<Rightarrow> peripheral \<Rightarrow> peripheral \<times> (errno + bytes)" where
  "peripheral_encode_event abi wire_size event p =
     (let p = p\<lparr>held_input_keys := peripheral_input_note_event event (held_input_keys p)\<rparr>;
          p = (case event of Key_position position pressed \<Rightarrow> peripheral_note_key_event position pressed p | _ \<Rightarrow> p);
          (p, event) = (case event of Sensor_event _ _ _ _ \<Rightarrow> peripheral_sensor_event_to_total event p
                        | _ \<Rightarrow> (p, event));
          wire = esb_wire_encode_event abi wire_size event
      in if length wire = 0 then (p, Inl ENOTSUP) else (p, Inr wire))"

definition peripheral_set_transport :: "bool \<Rightarrow> peripheral \<Rightarrow> peripheral" where
  "peripheral_set_transport instance_set p = p\<lparr>transport_instance := instance_set\<rparr>"

text \<open>The commands handed to ZMK, in order.\<close>

definition peripheral_command_work_fn :: "peripheral \<Rightarrow> peripheral \<times> bytes list" where
  "peripheral_command_work_fn p =
     (p\<lparr>peripheral_command_msgq := []\<rparr>,
      if transport_instance p then peripheral_command_msgq p else [])"

definition peripheral_deliver_command :: "peripheral_config \<Rightarrow> bytes \<Rightarrow> peripheral \<Rightarrow> peripheral" where
  "peripheral_deliver_command config bytes p =
     (if length bytes \<noteq> command_size config then p
      else if length (peripheral_command_msgq p) \<ge> command_queue_size config then p
      else p\<lparr>peripheral_command_msgq := peripheral_command_msgq p @ [bytes]\<rparr>)"

definition ESB_HID_STATE_INDICATORS_SHIFT :: nat where "ESB_HID_STATE_INDICATORS_SHIFT = 8"

definition esb_hid_state_pack :: "u8 \<Rightarrow> u8 \<Rightarrow> u16" where
  "esb_hid_state_pack modifiers indicators =
     ucast modifiers OR push_bit ESB_HID_STATE_INDICATORS_SHIFT (ucast indicators)"

definition esb_hid_state_modifiers :: "u16 \<Rightarrow> u8" where
  "esb_hid_state_modifiers state = ucast state"

definition esb_hid_state_indicators :: "u16 \<Rightarrow> u8" where
  "esb_hid_state_indicators state = ucast (drop_bit ESB_HID_STATE_INDICATORS_SHIFT state)"

definition zmk_split_esb_hid_modifiers :: "peripheral \<Rightarrow> u8" where
  "zmk_split_esb_hid_modifiers p = esb_hid_state_modifiers (synced_hid_state p)"

definition zmk_split_esb_hid_indicators :: "peripheral \<Rightarrow> u8" where
  "zmk_split_esb_hid_indicators p = esb_hid_state_indicators (synced_hid_state p)"

definition peripheral_hid_state_store :: "u8 \<Rightarrow> u8 \<Rightarrow> peripheral \<Rightarrow> peripheral" where
  "peripheral_hid_state_store modifiers indicators p =
     p\<lparr>synced_hid_state := esb_hid_state_pack modifiers indicators\<rparr>"

text \<open>The warning is logged when the second result holds.\<close>

definition peripheral_note_config_mismatch :: "peripheral \<Rightarrow> peripheral \<times> bool" where
  "peripheral_note_config_mismatch p = (p\<lparr>config_mismatch := True\<rparr>, \<not> config_mismatch p)"

definition peripheral_config_mismatched :: "peripheral \<Rightarrow> bool" where
  "peripheral_config_mismatched p = config_mismatch p"

definition peripheral_snapshot ::
  "peripheral_config \<Rightarrow> u8 \<Rightarrow> u8 \<Rightarrow> u8 \<Rightarrow> esb_keepalive_motion_total list \<Rightarrow> peripheral \<Rightarrow> esb_keepalive_snapshot" where
  "peripheral_snapshot config state_of_charge state link_cost motion_totals p =
     \<lparr>snap_state = state, snap_link_cost_x10 = link_cost,
      snap_battery_level = peripheral_battery_level config state_of_charge,
      snap_position_bitmap = pressed_positions p,
      snap_held_keys = peripheral_input_held_keys (held_input_keys p),
      snap_motion_totals = motion_totals, snap_sensor_totals = sensor_total_udeg p\<rparr>"

definition peripheral_keepalive_fill ::
  "peripheral_config \<Rightarrow> u8 \<Rightarrow> nat \<Rightarrow> u8 \<Rightarrow> u8 \<Rightarrow> esb_keepalive_motion_total list \<Rightarrow> peripheral \<Rightarrow> bytes" where
  "peripheral_keepalive_fill config state_of_charge out_size state link_cost motion_totals p =
     esb_keepalive_encode out_size
       (peripheral_snapshot config state_of_charge state link_cost motion_totals p)"

section \<open>Packed entries and HID state\<close>

lemma bit_held_entry:
  "bit (held_entry_pack reg code) n \<longleftrightarrow> n < 32 \<and> (n = 24 \<or> (16 \<le> n \<and> bit reg (n - 16)) \<or> bit code n)"
proof -
  have "bit HELD_ENTRY_VALID n \<longleftrightarrow> n = 24"
    unfolding HELD_ENTRY_VALID_def bit_push_bit_iff bit_1_iff by auto
  then show ?thesis
    unfolding held_entry_pack_def bit_or_iff HELD_ENTRY_REG_SHIFT_def
    by (auto simp: bit_push_bit_iff bit_ucast_iff dest: bit_imp_le_length)
qed

lemma held_entry_roundtrip: "held_entry_unpack (held_entry_pack reg code) = \<lparr>held_reg = reg, held_code = code\<rparr>"
proof -
  have "ucast (drop_bit 16 (held_entry_pack reg code)) = reg"
    by (rule bit_word_eqI) (auto simp: bit_ucast_iff bit_drop_bit_eq bit_held_entry)
  moreover have "ucast (held_entry_pack reg code) = code"
    by (rule bit_word_eqI) (auto simp: bit_ucast_iff bit_held_entry)
  ultimately show ?thesis
    by (simp add: held_entry_unpack_def HELD_ENTRY_REG_SHIFT_def)
qed

lemma held_entry_inject: "held_entry_pack r c = held_entry_pack r' c' \<longleftrightarrow> r = r' \<and> c = c'"
  using held_entry_roundtrip [of r c] held_entry_roundtrip [of r' c']
  by (metis esb_keepalive_held_key.ext_inject)

lemma held_entry_nonzero: "held_entry_pack r c \<noteq> 0"
  using bit_held_entry [of r c 24] by auto

text \<open>
  The peripheral reads back the modifiers and the indicators of one and the same
  beacon, for every pair of bytes the central synced.
\<close>

theorem peripheral_hid_state_roundtrip:
  "zmk_split_esb_hid_modifiers (peripheral_hid_state_store modifiers indicators p) = modifiers \<and>
   zmk_split_esb_hid_indicators (peripheral_hid_state_store modifiers indicators p) = indicators"
proof -
  have "ucast (esb_hid_state_pack modifiers indicators) = modifiers"
    by (rule bit_word_eqI) (auto simp: esb_hid_state_pack_def ESB_HID_STATE_INDICATORS_SHIFT_def bit_simps)
  moreover have "ucast (drop_bit 8 (esb_hid_state_pack modifiers indicators)) = indicators"
    by (rule bit_word_eqI) (auto simp: esb_hid_state_pack_def ESB_HID_STATE_INDICATORS_SHIFT_def bit_simps)
  ultimately show ?thesis
    by (simp add: zmk_split_esb_hid_modifiers_def zmk_split_esb_hid_indicators_def peripheral_hid_state_store_def
        esb_hid_state_modifiers_def esb_hid_state_indicators_def ESB_HID_STATE_INDICATORS_SHIFT_def)
qed

section \<open>The held table as a set\<close>

definition packed_ok :: "u32 list \<Rightarrow> bool" where
  "packed_ok keys \<longleftrightarrow> distinct (filter (\<lambda>k. k \<noteq> 0) keys) \<and>
     (\<forall>k \<in> set keys. k \<noteq> 0 \<longrightarrow> (\<exists>reg code. k = held_entry_pack reg code))"

lemma packed_ok_simps [table_simps]:
  "packed_ok []"
  "packed_ok (k # keys) \<longleftrightarrow> packed_ok keys \<and>
     (k \<noteq> 0 \<longrightarrow> k \<notin> set keys \<and> (\<exists>reg code. k = held_entry_pack reg code))"
  by (auto simp: packed_ok_def)

definition held_keys_set :: "u32 list \<Rightarrow> esb_keepalive_held_key set" where
  "held_keys_set keys = set (peripheral_input_held_keys keys)"

lemma found_iff: "first_index (\<lambda>k. k = entry) keys = None \<longleftrightarrow> entry \<notin> set keys"
  by (induction keys) auto

lemma held_entry_add_spec:
  assumes "packed_ok keys" and "entry = held_entry_pack reg code"
  shows "packed_ok (held_entry_add entry keys) \<and> length (held_entry_add entry keys) = length keys \<and>
    (entry \<in> set keys \<or> 0 \<in> set keys \<longrightarrow>
      set (held_entry_add entry keys) - {0} = insert entry (set keys - {0})) \<and>
    (entry \<notin> set keys \<and> 0 \<notin> set keys \<longrightarrow> held_entry_add entry keys = keys)"
  using assms(1)
proof (induction keys)
  case Nil
  then show ?case by (simp add: held_entry_add_def table_simps)
next
  case (Cons k keys)
  have nz: "entry \<noteq> 0"
    using held_entry_nonzero by (simp add: assms(2))
  have unfolded: "held_entry_add entry (k # keys) =
      (if entry \<in> set (k # keys) then k # keys
       else if k = 0 then entry # keys else k # held_entry_add entry keys)"
    using found_iff [of entry keys]
    by (cases "first_index (\<lambda>k. k = entry) keys"; cases "first_index (\<lambda>k. k = 0) keys")
       (simp_all add: held_entry_add_def)
  have kept: "set (held_entry_add entry keys) \<subseteq> insert entry (set keys)"
    by (auto simp only: held_entry_add_def split: option.splits if_splits
        dest: set_update_subset_insert [THEN subsetD])
  have ok: "packed_ok keys" "k \<noteq> 0 \<Longrightarrow> k \<notin> set keys" "k \<noteq> 0 \<Longrightarrow> \<exists>reg code. k = held_entry_pack reg code"
    using Cons.prems by (simp_all add: table_simps)
  note ih = Cons.IH [OF ok(1)]
  consider "entry \<in> set (k # keys)" | "entry \<notin> set (k # keys)" "k = 0" | "entry \<notin> set (k # keys)" "k \<noteq> 0"
    by blast
  then show ?case
  proof cases
    case 1
    then show ?thesis
      using Cons.prems nz unfolding unfolded by auto
  next
    case 2
    then show ?thesis
      using ok(1) nz assms(2) unfolding unfolded by (auto simp: table_simps)
  next
    case 3
    then have absent: "k \<notin> set (held_entry_add entry keys)"
      using kept ok(2) by auto
    have eq: "held_entry_add entry (k # keys) = k # held_entry_add entry keys"
      using 3 unfolded by simp
    show ?thesis
      unfolding eq using ih 3 ok(3) absent by (simp add: table_simps insert_Diff_if) blast
  qed
qed

lemma held_entry_remove_spec:
  assumes "packed_ok keys" and "entry = held_entry_pack reg code"
  shows "packed_ok (held_entry_remove entry keys) \<and> length (held_entry_remove entry keys) = length keys \<and>
    set (held_entry_remove entry keys) - {0} = set keys - {0} - {entry}"
  using assms(1)
proof (induction keys)
  case Nil
  then show ?case by (simp add: held_entry_remove_def table_simps)
next
  case (Cons k keys)
  have nz: "entry \<noteq> 0"
    using held_entry_nonzero by (simp add: assms(2))
  have unfolded: "held_entry_remove entry (k # keys) =
      (if k = entry then 0 # keys else k # held_entry_remove entry keys)"
    by (cases "first_index (\<lambda>k. k = entry) keys") (simp_all add: held_entry_remove_def)
  show ?case
    using Cons nz unfolding unfolded by (auto simp: table_simps)
qed

lemma held_keys_set_entries: "held_keys_set keys = held_entry_unpack ` (set keys - {0})"
  by (auto simp: held_keys_set_def peripheral_input_held_keys_def)

lemma held_keys_image_remove:
  assumes "packed_ok keys"
  shows "held_entry_unpack ` (set keys - {0} - {held_entry_pack reg code}) =
    held_entry_unpack ` (set keys - {0}) - {\<lparr>held_reg = reg, held_code = code\<rparr>}"
proof -
  have "held_entry_unpack k = \<lparr>held_reg = reg, held_code = code\<rparr> \<longleftrightarrow> k = held_entry_pack reg code"
    if k: "k \<in> set keys" "k \<noteq> 0" for k
  proof -
    obtain r c where "k = held_entry_pack r c" using assms k by (auto simp: packed_ok_def)
    then show ?thesis by (simp add: held_entry_roundtrip held_entry_inject)
  qed
  then show ?thesis by auto
qed

section \<open>The keys that are down\<close>

text \<open>The keys down after an event, with no bound on their number, and those a table of \<open>keys_max\<close>
  entries can follow: a press with the table full is not taken up.\<close>

definition note_down :: "event \<Rightarrow> esb_keepalive_held_key set \<Rightarrow> esb_keepalive_held_key set" where
  "note_down event down =
     (case event of
        Input_event reg sync type code val \<Rightarrow>
          if type \<noteq> INPUT_EV_KEY then down
          else if val \<noteq> 0 then insert \<lparr>held_reg = reg, held_code = code\<rparr> down
          else down - {\<lparr>held_reg = reg, held_code = code\<rparr>}
      | _ \<Rightarrow> down)"

definition note_tracked :: "nat \<Rightarrow> event \<Rightarrow> esb_keepalive_held_key set \<Rightarrow> esb_keepalive_held_key set" where
  "note_tracked keys_max event held =
     (if card (note_down event held) \<le> keys_max then note_down event held else held)"

definition keys_down :: "event list \<Rightarrow> esb_keepalive_held_key set" where
  "keys_down events = fold note_down events {}"

lemma held_list_distinct:
  assumes "packed_ok keys" shows "distinct (peripheral_input_held_keys keys)"
proof -
  have "inj_on held_entry_unpack (set (filter (\<lambda>entry. entry \<noteq> 0) keys))"
  proof (rule inj_onI)
    fix k k'
    assume k: "k \<in> set (filter (\<lambda>entry. entry \<noteq> 0) keys)" "k' \<in> set (filter (\<lambda>entry. entry \<noteq> 0) keys)"
      and same: "held_entry_unpack k = held_entry_unpack k'"
    have "\<exists>r c. k = held_entry_pack r c" "\<exists>r c. k' = held_entry_pack r c"
      using assms k by (auto simp: packed_ok_def)
    then obtain r c r' c' where "k = held_entry_pack r c" "k' = held_entry_pack r' c'" by blast
    then show "k = k'" using same by (simp add: held_entry_roundtrip)
  qed
  then show ?thesis
    using assms by (simp add: peripheral_input_held_keys_def distinct_map packed_ok_def)
qed

lemma held_card:
  assumes "packed_ok keys"
  shows "card (held_keys_set keys) = length (filter (\<lambda>entry. entry \<noteq> 0) keys)"
  using distinct_card [OF held_list_distinct [OF assms]]
  by (simp add: held_keys_set_def peripheral_input_held_keys_def)

lemma held_room:
  assumes "packed_ok keys"
  shows "card (held_keys_set keys) \<le> length keys" and "0 \<in> set keys \<longleftrightarrow> card (held_keys_set keys) < length keys"
proof -
  have "length (filter (\<lambda>entry. entry \<noteq> 0) keys) + length (filter (\<lambda>entry. entry = 0) keys) = length keys"
    using sum_length_filter_compl [of "\<lambda>entry. entry \<noteq> 0" keys] by simp
  moreover have "length (filter (\<lambda>entry. entry = 0) keys) = 0 \<longleftrightarrow> 0 \<notin> set keys"
    by (auto simp: filter_empty_conv)
  moreover have "length (filter (\<lambda>entry. entry = 0) keys) = 0 \<or> 0 < length (filter (\<lambda>entry. entry = 0) keys)"
    by blast
  ultimately show "card (held_keys_set keys) \<le> length keys" "0 \<in> set keys \<longleftrightarrow> card (held_keys_set keys) < length keys"
    unfolding held_card [OF assms] by linarith+
qed

lemma note_event_spec:
  assumes "packed_ok keys"
  shows "packed_ok (peripheral_input_note_event event keys)"
    and "length (peripheral_input_note_event event keys) = length keys"
    and "held_keys_set (peripheral_input_note_event event keys) = note_tracked (length keys) event (held_keys_set keys)"
proof -
  have same: "note_tracked (length keys) event (held_keys_set keys) = held_keys_set keys"
    if "note_down event (held_keys_set keys) = held_keys_set keys" for event
    using that by (simp add: note_tracked_def)
  have "packed_ok (peripheral_input_note_event event keys) \<and> length (peripheral_input_note_event event keys) = length keys \<and>
    held_keys_set (peripheral_input_note_event event keys) = note_tracked (length keys) event (held_keys_set keys)"
  proof (cases event)
    case (Input_event reg sync type code val)
    define key where "key = \<lparr>held_reg = reg, held_code = code\<rparr>"
    define entry where "entry = held_entry_pack reg code"
    have mem: "key \<in> held_keys_set keys \<longleftrightarrow> entry \<in> set keys"
      using assms held_entry_nonzero [of reg code]
      by (auto simp: held_keys_set_entries packed_ok_def held_entry_roundtrip key_def entry_def image_iff
          intro!: bexI [of _ "held_entry_pack reg code"])
    note add = held_entry_add_spec [OF assms entry_def]
    note remove = held_entry_remove_spec [OF assms entry_def]
    have finite: "finite (held_keys_set keys)" by (simp add: held_keys_set_def)
    have noted: "peripheral_input_note_event event keys =
        (if type \<noteq> INPUT_EV_KEY then keys else if val \<noteq> 0 then held_entry_add entry keys else held_entry_remove entry keys)"
      by (simp add: Input_event peripheral_input_note_event_def entry_def)
    have down: "note_down event held =
        (if type \<noteq> INPUT_EV_KEY then held else if val \<noteq> 0 then insert key held else held - {key})" for held
      by (simp add: Input_event note_down_def key_def)
    consider "type \<noteq> INPUT_EV_KEY" | "type = INPUT_EV_KEY" "val = 0"
      | "type = INPUT_EV_KEY" "val \<noteq> 0" "entry \<in> set keys \<or> 0 \<in> set keys"
      | "type = INPUT_EV_KEY" "val \<noteq> 0" "entry \<notin> set keys" "0 \<notin> set keys" by blast
    then show ?thesis
    proof cases
      case 1
      then show ?thesis
        using assms by (simp add: noted note_tracked_def down)
    next
      case 2
      have "card (held_keys_set keys - {key}) \<le> length keys"
        using card_mono [OF finite, of "held_keys_set keys - {key}"] held_room(1) [OF assms] by (auto intro: le_trans)
      moreover have "held_keys_set (held_entry_remove entry keys) = held_keys_set keys - {key}"
        using remove held_keys_image_remove [OF assms, of reg code]
        by (simp add: held_keys_set_entries key_def entry_def)
      ultimately show ?thesis
        using 2 remove by (simp add: noted note_tracked_def down)
    next
      case 3
      have "card (insert key (held_keys_set keys)) \<le> length keys"
        using 3(3) mem held_room [OF assms] finite by (cases "key \<in> held_keys_set keys") (auto simp: insert_absorb)
      moreover have "held_keys_set (held_entry_add entry keys) = insert key (held_keys_set keys)"
      proof -
        have "set (held_entry_add entry keys) - {0} = insert entry (set keys - {0})" using add 3(3) by blast
        then show ?thesis
          by (simp add: held_keys_set_entries key_def) (simp add: entry_def held_entry_roundtrip)
      qed
      ultimately show ?thesis
        using 3 add by (simp add: noted note_tracked_def down)
    next
      case 4
      have "\<not> card (insert key (held_keys_set keys)) \<le> length keys"
        using 4(3,4) mem held_room [OF assms] finite by simp
      then show ?thesis
        using 4 add assms by (simp add: noted note_tracked_def down)
    qed
  qed (use assms in \<open>simp_all add: peripheral_input_note_event_def note_tracked_def note_down_def\<close>)
  then show "packed_ok (peripheral_input_note_event event keys)"
    "length (peripheral_input_note_event event keys) = length keys"
    "held_keys_set (peripheral_input_note_event event keys) = note_tracked (length keys) event (held_keys_set keys)"
    by blast+
qed

lemma note_events_spec:
  assumes "packed_ok keys"
  shows "packed_ok (fold peripheral_input_note_event events keys) \<and>
    length (fold peripheral_input_note_event events keys) = length keys \<and>
    held_keys_set (fold peripheral_input_note_event events keys) =
      fold (note_tracked (length keys)) events (held_keys_set keys)"
  using assms by (induction events arbitrary: keys) (simp_all add: note_event_spec)

lemma tracked_is_down:
  assumes "\<forall>k \<le> length events. card (keys_down (take k events)) \<le> keys_max"
  shows "fold (note_tracked keys_max) events {} = keys_down events"
  using assms
proof (induction events rule: rev_induct)
  case Nil
  then show ?case by (simp add: keys_down_def)
next
  case (snoc event events)
  have "card (keys_down (take k events)) \<le> keys_max" if "k \<le> length events" for k
    using snoc.prems [rule_format, of k] that by simp
  then have before: "fold (note_tracked keys_max) events {} = keys_down events"
    using snoc.IH by blast
  have "card (keys_down (events @ [event])) \<le> keys_max"
    using snoc.prems [rule_format, of "Suc (length events)"] by simp
  then show ?case
    unfolding fold_append o_apply fold_simps before by (simp add: note_tracked_def) (simp add: keys_down_def)
qed

text \<open>
  Claim C38: over every run of events of any kind the table the keepalive is filled from holds
  each key once and exactly the keys pressed and not yet released, as long as no more were down at
  once than it has entries; past that it is the run in which a press that finds the table full is
  not taken up, no held key is given up for it, and every release still frees its key.
\<close>

theorem peripheral_input_tracks_held:
  assumes "keys = fold peripheral_input_note_event events (replicate keys_max 0)"
  shows "distinct (peripheral_input_held_keys keys) \<and> length (peripheral_input_held_keys keys) \<le> keys_max \<and>
    set (peripheral_input_held_keys keys) = fold (note_tracked keys_max) events {} \<and>
    ((\<forall>k \<le> length events. card (keys_down (take k events)) \<le> keys_max) \<longrightarrow>
      set (peripheral_input_held_keys keys) = keys_down events)"
proof -
  have "packed_ok (replicate keys_max 0)" "held_keys_set (replicate keys_max 0) = {}"
    by (auto simp: packed_ok_def held_keys_set_entries)
  then have spec: "packed_ok keys" "length keys = keys_max" "held_keys_set keys = fold (note_tracked keys_max) events {}"
    using note_events_spec [of "replicate keys_max 0" events] by (simp_all add: assms)
  have "length (peripheral_input_held_keys keys) \<le> keys_max"
    using length_filter_le [of "\<lambda>entry. entry \<noteq> 0" keys] spec(2) by (simp add: peripheral_input_held_keys_def)
  then show ?thesis
    using held_list_distinct [OF spec(1)] spec(3) tracked_is_down [of events keys_max]
    by (simp add: held_keys_set_def)
qed

theorem peripheral_input_tracks_held_witness:
  "set (peripheral_input_held_keys (fold peripheral_input_note_event
     [Input_event 3 1 INPUT_EV_KEY 0x110 1, Input_event 3 1 INPUT_EV_REL 0x110 0, Input_event 3 1 INPUT_EV_KEY 0x111 1,
      Input_event 3 1 INPUT_EV_KEY 0x110 0] [0, 0])) = {\<lparr>held_reg = 3, held_code = 0x111\<rparr>}"
proof -
  define events where "events = [Input_event 3 1 INPUT_EV_KEY 0x110 1, Input_event 3 1 INPUT_EV_REL 0x110 0,
    Input_event 3 1 INPUT_EV_KEY 0x111 1, Input_event 3 1 INPUT_EV_KEY 0x110 0]"
  have types: "INPUT_EV_REL \<noteq> INPUT_EV_KEY" by (simp add: INPUT_EV_REL_def INPUT_EV_KEY_def)
  have two: "replicate 2 (0 :: u32) = [0, 0]" by (simp add: numeral_2_eq_2)
  have "card (keys_down (take k events)) \<le> 2" if "k \<le> length events" for k
  proof -
    have "k \<le> 4" using that by (simp add: events_def)
    then consider "k = 0" | "k = 1" | "k = 2" | "k = 3" | "k = 4" by linarith
    then show ?thesis
      by cases (simp_all add: events_def keys_down_def note_down_def types)
  qed
  then have "set (peripheral_input_held_keys (fold peripheral_input_note_event events (replicate 2 0))) = keys_down events"
    using peripheral_input_tracks_held [OF refl, of events 2] by blast
  moreover have "keys_down events = {\<lparr>held_reg = 3, held_code = 0x111\<rparr>}"
    by (simp add: events_def keys_down_def note_down_def types insert_Diff_if)
  ultimately show ?thesis
    unfolding two events_def by (simp only:)
qed

end
