(* ===== verification/Esb_Peripheral.thy ===== *)
theory Esb_Peripheral
  imports Batch Peripheral Motion_Total
begin

text \<open>
  The ESB transport of a split peripheral (\<open>src/esb_peripheral.c\<close>): which input codes
  are lossy, the running totals of lossy motion, and the report path from a ZMK event to
  the packets handed to \<open>esb_link_send\<close>. The devicetree's lossy code cells and the
  role of this device are arguments.
\<close>

record motion_slot =
  claimed :: bool
  slot_reg :: u8
  slot_code :: u8
  slot_total :: i32

definition free_motion_slot :: motion_slot where
  "free_motion_slot = \<lparr>claimed = False, slot_reg = 0, slot_code = 0, slot_total = 0\<rparr>"

record esb_peripheral =
  transport_enabled :: bool
  motion_slots :: "motion_slot list"
  batch :: esb_batch
  core :: peripheral

text \<open>\<open>lossy_codes\<close> as its (type, code) pairs of 32-bit cells.\<close>

record esb_peripheral_config =
  lossy_pairs :: "(u32 \<times> u32) list"
  payload_max :: nat
  core_config :: peripheral_config
  self_is_relay :: bool
  wire_relay_pipe :: "nat option"

definition MOTION_SLOT_COUNT :: "esb_peripheral_config \<Rightarrow> nat" where
  "MOTION_SLOT_COUNT config = max (length (lossy_pairs config)) 1"

definition esb_peripheral_boot :: "esb_peripheral_config \<Rightarrow> nat \<Rightarrow> esb_peripheral" where
  "esb_peripheral_boot config keys_max = \<lparr>transport_enabled = False,
     motion_slots = replicate (MOTION_SLOT_COUNT config) free_motion_slot, batch = batch_boot,
     core = peripheral_boot (core_config config) keys_max\<rparr>"

section \<open>Lossy motion\<close>

definition input_is_lossy :: "esb_peripheral_config \<Rightarrow> u8 \<Rightarrow> u16 \<Rightarrow> bool" where
  "input_is_lossy config type code \<longleftrightarrow>
     first_index (\<lambda>(type_cell, code_cell). ucast type_cell = type \<and> ucast code_cell = code)
       (lossy_pairs config) \<noteq> None"

text \<open>The scan stops at the first slot that is free or this axis's own, and claims a free one.\<close>

definition motion_slot_for :: "u8 \<Rightarrow> u8 \<Rightarrow> motion_slot list \<Rightarrow> motion_slot list \<times> nat option" where
  "motion_slot_for reg code slots =
     (case first_index (\<lambda>slot. \<not> claimed slot \<or> slot_reg slot = reg \<and> slot_code slot = code) slots of
        None \<Rightarrow> (slots, None)
      | Some index \<Rightarrow>
          if \<not> claimed (slots ! index)
          then (slots[index := (slots ! index)\<lparr>slot_reg := reg, slot_code := code, claimed := True\<rparr>], Some index)
          else (slots, Some index))"

definition motion_to_total :: "event \<Rightarrow> motion_slot list \<Rightarrow> motion_slot list \<times> event" where
  "motion_to_total event slots =
     (if input_type event \<noteq> INPUT_EV_REL \<or> unat (input_code event) > 255 then (slots, event)
      else
        case motion_slot_for (input_reg event) (ucast (input_code event)) slots of
          (slots, None) \<Rightarrow> (slots, event)
        | (slots, Some index) \<Rightarrow>
            let tot = esb_motion_total_add (slot_total (slots ! index)) (input_value event)
            in (slots[index := (slots ! index)\<lparr>slot_total := tot\<rparr>],
                Input_event (input_reg event) (input_sync event OR ESB_WIRE_INPUT_TOTAL) (input_type event)
                  (input_code event) tot))"

definition motion_totals_snapshot :: "motion_slot list \<Rightarrow> esb_keepalive_motion_total list" where
  "motion_totals_snapshot slots =
     map (\<lambda>slot. \<lparr>motion_reg = slot_reg slot, motion_code = slot_code slot, short_total = ucast (slot_total slot)\<rparr>)
       (filter claimed slots)"

definition event_wants_ack :: "esb_peripheral_config \<Rightarrow> event \<Rightarrow> bool" where
  "event_wants_ack config event =
     (case event of
        Input_event reg sync type code val \<Rightarrow> \<not> input_is_lossy config type code
      | _ \<Rightarrow> True)"

section \<open>The report path\<close>

text \<open>\<open>link_cost\<close> is \<open>hop_link_cost_x10()\<close>, \<open>state_of_charge\<close> ZMK's battery.\<close>

definition esb_link_keepalive_fill ::
  "esb_peripheral_config \<Rightarrow> u8 \<Rightarrow> u8 \<Rightarrow> nat \<Rightarrow> u8 \<Rightarrow> esb_peripheral \<Rightarrow> bytes" where
  "esb_link_keepalive_fill config state_of_charge link_cost out_size state ep =
     peripheral_keepalive_fill (core_config config) state_of_charge out_size state link_cost
       (motion_totals_snapshot (motion_slots ep)) (core ep)"

definition esb_peripheral_report_event ::
  "zmk_abi \<Rightarrow> esb_peripheral_config \<Rightarrow> status \<Rightarrow> event \<Rightarrow> esb_peripheral \<Rightarrow>
   esb_peripheral \<times> esb_send list \<times> status" where
  "esb_peripheral_report_event abi config send_result event ep =
     (case event of
        Input_event reg sync type code val \<Rightarrow>
          let ep = ep\<lparr>core := (core ep)\<lparr>held_input_keys := peripheral_input_note_event event (held_input_keys (core ep))\<rparr>\<rparr>;
              ack = event_wants_ack config event;
              (slots, sent) = (if \<not> ack then motion_to_total event (motion_slots ep) else (motion_slots ep, event));
              (b, sends, result) = esb_batch_report_event abi (payload_max config) send_result sent ack (batch ep)
          in (ep\<lparr>motion_slots := slots, batch := b\<rparr>, sends, result)
      | _ \<Rightarrow>
          case peripheral_encode_event abi (ESB_WIRE_MAX_EVENT_SIZE abi) event (core ep) of
            (p, Inl e) \<Rightarrow> (ep\<lparr>core := p\<rparr>, [], Err e)
          | (p, Inr wire) \<Rightarrow> (ep\<lparr>core := p\<rparr>, [(wire, event_wants_ack config event)], send_result))"

text \<open>The link and the hop engine are states of their own: the operations that call them take
  them, \<open>link_set_enabled\<close>, \<open>link_init\<close> and \<open>restore\<close> being their
  \<open>esb_link_set_enabled\<close>, \<open>esb_link_init\<close> and \<open>hop_restore\<close>.\<close>

definition esb_peripheral_set_enabled ::
  "(bool \<Rightarrow> 'l \<Rightarrow> 'l \<times> status) \<Rightarrow> bool \<Rightarrow> esb_peripheral \<times> 'l \<Rightarrow> (esb_peripheral \<times> 'l) \<times> status" where
  "esb_peripheral_set_enabled link_set_enabled enabled = (\<lambda>(ep, link).
     (let ep = ep\<lparr>transport_enabled := enabled\<rparr>; (link, error) = link_set_enabled enabled link
      in ((ep, link), error)))"

text \<open>Available, enabled, connections.\<close>

definition esb_peripheral_get_status :: "esb_peripheral \<Rightarrow> bool \<times> bool \<times> connections" where
  "esb_peripheral_get_status ep = (True, transport_enabled ep, All_connected)"

definition esb_peripheral_set_status_callback :: "esb_peripheral \<Rightarrow> esb_peripheral \<times> status" where
  "esb_peripheral_set_status_callback ep = (ep, Ok)"

text \<open>\<open>forward\<close> is \<open>wire_relay_forward_to_peer\<close> and \<open>deliver\<close>
  \<open>esb_hid_relay_deliver\<close>, on the state of the wire link and of the relay sink.\<close>

definition esb_peripheral_on_rx ::
  "esb_peripheral_config \<Rightarrow> (bytes \<Rightarrow> 'w \<Rightarrow> 'w) \<Rightarrow> (bytes \<Rightarrow> 's \<Rightarrow> 's) \<Rightarrow> nat \<Rightarrow> bytes \<Rightarrow>
   esb_peripheral \<times> 'w \<times> 's \<Rightarrow> esb_peripheral \<times> 'w \<times> 's" where
  "esb_peripheral_on_rx config forward deliver pipe data = (\<lambda>(ep, wire, sink).
     (if wire_relay_pipe config = Some pipe then (ep, forward data wire, sink)
      else if self_is_relay config then (ep, wire, deliver data sink)
      else (ep\<lparr>core := peripheral_deliver_command (core_config config) data (core ep)\<rparr>, wire, sink)))"

definition esb_peripheral_init ::
  "('h \<Rightarrow> 'h) \<Rightarrow> ('l \<Rightarrow> 'l \<times> status) \<Rightarrow> esb_peripheral \<times> 'h \<times> 'l \<Rightarrow> (esb_peripheral \<times> 'h \<times> 'l) \<times> status" where
  "esb_peripheral_init restore link_init = (\<lambda>(ep, hop, link).
     (let ep = ep\<lparr>core := peripheral_set_transport True (core ep)\<rparr>;
          hop = restore hop;
          (link, error) = link_init link
      in ((ep, hop, link), error)))"

section \<open>Running totals\<close>

text \<open>The axes' totals, 0 for one without a slot.\<close>

fun axis_total :: "motion_slot list \<Rightarrow> u8 \<times> u8 \<Rightarrow> i32" where
  "axis_total [] axis = 0"
| "axis_total (slot # slots) axis =
     (if claimed slot \<and> (slot_reg slot, slot_code slot) = axis then slot_total slot else axis_total slots axis)"

definition axes :: "motion_slot list \<Rightarrow> (u8 \<times> u8) set" where
  "axes slots = set (map (\<lambda>slot. (slot_reg slot, slot_code slot)) (filter claimed slots))"

lemma axes_simps [table_simps]:
  "axes [] = {}"
  "axes (slot # slots) = (if claimed slot then insert (slot_reg slot, slot_code slot) (axes slots) else axes slots)"
  by (simp_all add: axes_def)

text \<open>A recursive reading of the well-formed table.\<close>

fun slots_wf :: "motion_slot list \<Rightarrow> bool" where
  "slots_wf [] = True"
| "slots_wf (slot # slots) =
     (if claimed slot then (slot_reg slot, slot_code slot) \<notin> axes slots \<and> slots_wf slots
      else slot_total slot = 0 \<and> (\<forall>s \<in> set slots. \<not> claimed s \<and> slot_total s = 0))"

lemma unclaimed_axes: "\<forall>s \<in> set slots. \<not> claimed s \<Longrightarrow> axes slots = {} \<and> axis_total slots axis = 0"
  by (induction slots) (auto simp: table_simps)

lemma unclaimed_wf: "\<forall>s \<in> set slots. \<not> claimed s \<and> slot_total s = 0 \<Longrightarrow> slots_wf slots"
  by (induction slots) auto

lemma motion_slot_for_Cons:
  "motion_slot_for reg code (slot # slots) =
     (if \<not> claimed slot then (slot\<lparr>slot_reg := reg, slot_code := code, claimed := True\<rparr> # slots, Some 0)
      else if slot_reg slot = reg \<and> slot_code slot = code then (slot # slots, Some 0)
      else
        let (slots, found) = motion_slot_for reg code slots
        in (slot # slots, map_option Suc found))"
  by (auto simp: motion_slot_for_def split: option.splits)

text \<open>Adding a move to the slot of an axis.\<close>

definition add_motion :: "u8 \<Rightarrow> u8 \<Rightarrow> i32 \<Rightarrow> motion_slot list \<Rightarrow> (motion_slot list \<times> i32) option" where
  "add_motion reg code move slots =
     (case motion_slot_for reg code slots of
        (slots, None) \<Rightarrow> None
      | (slots, Some index) \<Rightarrow>
          let tot = esb_motion_total_add (slot_total (slots ! index)) move
          in Some (slots[index := (slots ! index)\<lparr>slot_total := tot\<rparr>], tot))"

lemma add_motion_Cons:
  "add_motion reg code move (slot # slots) =
     (if \<not> claimed slot then
        Some (slot\<lparr>slot_reg := reg, slot_code := code, claimed := True, slot_total := slot_total slot + move\<rparr> # slots,
              slot_total slot + move)
      else if slot_reg slot = reg \<and> slot_code slot = code then
        Some (slot\<lparr>slot_total := slot_total slot + move\<rparr> # slots, slot_total slot + move)
      else map_option (\<lambda>(slots, tot). (slot # slots, tot)) (add_motion reg code move slots))"
  by (auto simp: add_motion_def motion_slot_for_Cons esb_motion_total_add_def Let_def
      split: prod.splits option.splits)

lemma add_motion_spec:
  assumes "slots_wf slots"
  shows "case add_motion reg code move slots of
      None \<Rightarrow> (reg, code) \<notin> axes slots \<and> card (axes slots) = length slots
    | Some (slots', tot) \<Rightarrow> slots_wf slots' \<and> length slots' = length slots \<and>
        axes slots' = insert (reg, code) (axes slots) \<and> tot = axis_total slots (reg, code) + move \<and>
        axis_total slots' = (axis_total slots)((reg, code) := tot)"
  using assms
proof (induction slots)
  case Nil
  then show ?case by (simp add: add_motion_def motion_slot_for_def table_simps)
next
  case (Cons slot slots)
  have fin: "finite (axes slots)" by (simp add: axes_def)
  consider "\<not> claimed slot" | "claimed slot" "slot_reg slot = reg \<and> slot_code slot = code"
    | "claimed slot" "\<not> (slot_reg slot = reg \<and> slot_code slot = code)"
    by blast
  then show ?case
  proof cases
    case 1
    then show ?thesis
      using Cons.prems unclaimed_axes [of slots] unclaimed_wf [of slots]
      by (auto simp: add_motion_Cons table_simps fun_eq_iff)
  next
    case 2
    then show ?thesis
      using Cons.prems by (auto simp: add_motion_Cons table_simps fun_eq_iff)
  next
    case 3
    define here where "here = (slot_reg slot, slot_code slot)"
    have other: "here \<noteq> (reg, code)" using 3(2) by (auto simp: here_def)
    have wf: "slots_wf slots" "here \<notin> axes slots" using Cons.prems 3(1) by (simp_all add: here_def)
    have axes: "axes (slot # ss) = insert here (axes ss)" for ss
      using 3(1) by (simp add: axes_simps here_def)
    have total: "axis_total (slot # ss) = (axis_total ss)(here := slot_total slot)" for ss
      using 3(1) by (auto simp: here_def)
    have step: "add_motion reg code move (slot # slots) =
        map_option (\<lambda>(slots, tot). (slot # slots, tot)) (add_motion reg code move slots)"
      unfolding add_motion_Cons using 3 by (metis (full_types))
    show ?thesis
    proof (cases "add_motion reg code move slots")
      case None
      then show ?thesis
        using Cons.IH [OF wf(1)] wf(2) fin other by (simp add: step axes)
    next
      case (Some result)
      obtain slots' tot where result: "result = (slots', tot)" by (cases result)
      then have ih: "slots_wf slots'" "length slots' = length slots" "axes slots' = insert (reg, code) (axes slots)"
        "tot = axis_total slots (reg, code) + move" "axis_total slots' = (axis_total slots)((reg, code) := tot)"
        using Cons.IH [OF wf(1)] Some by simp_all
      have "add_motion reg code move (slot # slots) = Some (slot # slots', tot)"
        by (simp add: step Some result)
      moreover have "slots_wf (slot # slots')"
        using 3(1) ih(1,3) wf(2) other by (simp add: here_def)
      ultimately show ?thesis
        using ih other by (simp add: axes total insert_commute fun_upd_twist del: axis_total.simps slots_wf.simps)
    qed
  qed
qed

text \<open>A relative move the totals cover: its axis fits the byte the slot keeps.\<close>

definition totalled :: "event \<Rightarrow> bool" where
  "totalled event \<longleftrightarrow> is_Input_event event \<and> input_type event = INPUT_EV_REL \<and> unat (input_code event) \<le> 255"

definition event_axis :: "event \<Rightarrow> u8 \<times> u8" where
  "event_axis event = (input_reg event, ucast (input_code event))"

lemma motion_to_total_add:
  assumes "totalled event"
  shows "motion_to_total event slots =
    (case add_motion (input_reg event) (ucast (input_code event)) (input_value event) slots of
       None \<Rightarrow> (fst (motion_slot_for (input_reg event) (ucast (input_code event)) slots), event)
     | Some (slots', tot) \<Rightarrow>
         (slots', Input_event (input_reg event) (input_sync event OR ESB_WIRE_INPUT_TOTAL) (input_type event)
            (input_code event) tot))"
  using assms
  by (auto simp: motion_to_total_def totalled_def add_motion_def Let_def split: prod.splits option.splits)

text \<open>The events of a run, in order.\<close>

fun motion_run :: "motion_slot list \<Rightarrow> event list \<Rightarrow> motion_slot list \<times> event list" where
  "motion_run slots [] = (slots, [])"
| "motion_run slots (event # events) =
     (let (slots, sent) = motion_to_total event slots;
          (slots, rest_sent) = motion_run slots events
      in (slots, sent # rest_sent))"

text \<open>What the totals of an axis add up to over a run.\<close>

definition moved :: "u8 \<times> u8 \<Rightarrow> event list \<Rightarrow> i32" where
  "moved axis events = sum_list (map input_value (filter (\<lambda>event. event_axis event = axis) events))"

lemma moved_simps [table_simps]:
  "moved axis [] = 0"
  "moved axis (event # events) = (if event_axis event = axis then input_value event else 0) + moved axis events"
  by (simp_all add: moved_def)

definition as_total :: "i32 \<Rightarrow> event \<Rightarrow> event" where
  "as_total tot event = Input_event (input_reg event) (input_sync event OR ESB_WIRE_INPUT_TOTAL)
     (input_type event) (input_code event) tot"

lemma motion_run_length: "length (snd (motion_run slots events)) = length events"
  by (induction slots events rule: motion_run.induct) (auto split: prod.splits)

lemma motion_to_total_step:
  assumes "slots_wf slots" "totalled event"
    and "card (axes slots \<union> {event_axis event}) \<le> length slots"
  obtains slots' where "motion_to_total event slots =
      (slots', as_total (axis_total slots (event_axis event) + input_value event) event)"
    "slots_wf slots'" "length slots' = length slots" "axes slots' = insert (event_axis event) (axes slots)"
    "axis_total slots' = (axis_total slots)
       (event_axis event := axis_total slots (event_axis event) + input_value event)"
proof -
  have fin: "finite (axes slots)" by (simp add: axes_def)
  have spec: "case add_motion (input_reg event) (ucast (input_code event)) (input_value event) slots of
      None \<Rightarrow> event_axis event \<notin> axes slots \<and> card (axes slots) = length slots
    | Some (slots', tot) \<Rightarrow> slots_wf slots' \<and> length slots' = length slots \<and>
        axes slots' = insert (event_axis event) (axes slots) \<and>
        tot = axis_total slots (event_axis event) + input_value event \<and>
        axis_total slots' = (axis_total slots)(event_axis event := tot)"
    unfolding event_axis_def by (rule add_motion_spec [OF assms(1)])
  show ?thesis
  proof (cases "add_motion (input_reg event) (ucast (input_code event)) (input_value event) slots")
    case None
    then have "event_axis event \<notin> axes slots" "card (axes slots) = length slots" using spec by simp_all
    then have "card (axes slots \<union> {event_axis event}) = Suc (length slots)" using fin by simp
    then show ?thesis using assms(3) by simp
  next
    case (Some res)
    obtain slots' tot where res: "res = (slots', tot)" by fastforce
    show ?thesis
      by (rule that [of slots'])
        (use spec Some res assms(2) in \<open>simp_all add: motion_to_total_add as_total_def\<close>)
  qed
qed

lemma axes_finite [simp]: "finite (axes slots)"
  by (simp add: axes_def)

text \<open>
  A run of lossy moves leaves as running totals. With a slot for every axis, each
  emitted event is the move's own axis, flagged as a total, and carries the axis's total so far:
  what it was before the run plus every move of the axis up to and including this one. So a
  receiver that has any later total of the axis knows the sum of all the moves before it.
\<close>

lemma motion_to_total_running_sums:
  assumes "slots_wf slots" "\<forall>event \<in> set events. totalled event"
    and "card (axes slots \<union> event_axis ` set events) \<le> length slots"
  shows "snd (motion_run slots events) =
      map (\<lambda>i. as_total (axis_total slots (event_axis (events ! i)) + moved (event_axis (events ! i)) (take (Suc i) events))
                 (events ! i)) [0..<length events] \<and>
    (\<forall>axis. axis_total (fst (motion_run slots events)) axis = axis_total slots axis + moved axis events) \<and>
    slots_wf (fst (motion_run slots events))"
  using assms
proof (induction events arbitrary: slots)
  case Nil
  then show ?case by (simp add: table_simps)
next
  case (Cons event events)
  have "card (axes slots \<union> {event_axis event}) \<le> length slots"
    by (rule le_trans [OF card_mono Cons.prems(3)]) auto
  with Cons.prems obtain slots' where step: "motion_to_total event slots =
      (slots', as_total (axis_total slots (event_axis event) + input_value event) event)"
    "slots_wf slots'" "length slots' = length slots" "axes slots' = insert (event_axis event) (axes slots)"
    "axis_total slots' = (axis_total slots)
       (event_axis event := axis_total slots (event_axis event) + input_value event)"
    by (rule_tac motion_to_total_step [of slots event]) auto
  have IH: "snd (motion_run slots' events) =
      map (\<lambda>i. as_total (axis_total slots' (event_axis (events ! i)) + moved (event_axis (events ! i)) (take (Suc i) events))
                 (events ! i)) [0..<length events] \<and>
    (\<forall>axis. axis_total (fst (motion_run slots' events)) axis = axis_total slots' axis + moved axis events) \<and>
    slots_wf (fst (motion_run slots' events))"
    by (rule Cons.IH) (use Cons.prems step in \<open>simp_all\<close>)
  have upt: "[0..<length (event # events)] = 0 # map Suc [0..<length events]"
    by (simp add: upt_conv_Cons map_Suc_upt del: upt_Suc)
  show ?case
    using IH unfolding upt
    by (simp add: step(1) step(5) split_beta table_simps del: upt_Suc)
      (simp add: algebra_simps)
qed

definition motion_events_example :: "event list" where
  "motion_events_example =
     [Input_event 1 0 INPUT_EV_REL 0 5, Input_event 1 1 INPUT_EV_REL 1 (-3), Input_event 1 0 INPUT_EV_REL 0 7]"

lemma motion_events_example_ok:
  "slots_wf (replicate 2 free_motion_slot)"
  "\<forall>event \<in> set motion_events_example. totalled event"
  "card (axes (replicate 2 free_motion_slot) \<union> event_axis ` set motion_events_example)
     \<le> length (replicate 2 free_motion_slot)"
  by (simp_all add: motion_events_example_def totalled_def event_axis_def axes_def free_motion_slot_def
      numeral_2_eq_2 card_insert_if)

lemma motion_run_example:
  "snd (motion_run (replicate 2 free_motion_slot) motion_events_example) =
     [Input_event 1 2 INPUT_EV_REL 0 5, Input_event 1 3 INPUT_EV_REL 1 (-3), Input_event 1 2 INPUT_EV_REL 0 12]"
  by (subst motion_to_total_running_sums [THEN conjunct1, OF motion_events_example_ok])
    (simp add: motion_events_example_def as_total_def event_axis_def moved_def ESB_WIRE_INPUT_TOTAL_def
      numeral_2_eq_2 free_motion_slot_def upt_rec)

text \<open>A dongle.\<close>

definition dongle_config_example :: esb_peripheral_config where
  "dongle_config_example = \<lparr>lossy_pairs = [], payload_max = 48,
     core_config = \<lparr>battery_reporting = False, keymap_sensors = 0, command_size = 16, command_queue_size = 4\<rparr>,
     self_is_relay = True, wire_relay_pipe = None\<rparr>"

end
