(* ===== verification/Hop_Policy.thy ===== *)
theory Hop_Policy
  imports Bit_Table "HOL-Library.Signed_Division"
begin

text \<open>
  The hop and link policy (\<open>src/hop_policy.c\<close>, \<open>src/hop_policy.h\<close>): pure
  functions on fixed-width integers, channel masks and loss counters. The C type of each
  argument is kept; a value the code computes in a wider integer is an \<open>int\<close> or
  a wider word here, with the conversion back written out.
\<close>

definition HOP_POLICY_RSSI_GRADE_STEP_DB :: int where "HOP_POLICY_RSSI_GRADE_STEP_DB = 6"
definition HOP_POLICY_MAX_LOSS_PENALTY :: int where "HOP_POLICY_MAX_LOSS_PENALTY = 4"
definition HOP_POLICY_GOOD_TX_ATTEMPTS :: u8 where "HOP_POLICY_GOOD_TX_ATTEMPTS = 2"
definition HOP_POLICY_TX_ATTEMPTS_GRADE_STEP :: int where "HOP_POLICY_TX_ATTEMPTS_GRADE_STEP = 4"
definition HOP_POLICY_ATTEMPTS_EWMA_SHIFT :: nat where "HOP_POLICY_ATTEMPTS_EWMA_SHIFT = 2"
definition HOP_POLICY_RETRY_EWMA_LOW_X10 :: nat where "HOP_POLICY_RETRY_EWMA_LOW_X10 = 15"
definition HOP_POLICY_RETRY_EWMA_HIGH_X10 :: nat where "HOP_POLICY_RETRY_EWMA_HIGH_X10 = 45"
definition HOP_POLICY_RETEST_LEVEL_MAX :: u8 where "HOP_POLICY_RETEST_LEVEL_MAX = 6"
definition USEC_PER_MSEC :: u32 where "USEC_PER_MSEC = 1000"

named_theorems policy_consts \<open>values of the policy constants\<close>

declare HOP_POLICY_RSSI_GRADE_STEP_DB_def [policy_consts] HOP_POLICY_MAX_LOSS_PENALTY_def [policy_consts]
  HOP_POLICY_GOOD_TX_ATTEMPTS_def [policy_consts] HOP_POLICY_TX_ATTEMPTS_GRADE_STEP_def [policy_consts]
  HOP_POLICY_ATTEMPTS_EWMA_SHIFT_def [policy_consts] HOP_POLICY_RETRY_EWMA_LOW_X10_def [policy_consts]
  HOP_POLICY_RETRY_EWMA_HIGH_X10_def [policy_consts] HOP_POLICY_RETEST_LEVEL_MAX_def [policy_consts]
  USEC_PER_MSEC_def [policy_consts]

section \<open>Penalties and grades\<close>

definition hop_policy_saturating_add :: "u8 \<Rightarrow> u8 \<Rightarrow> u8" where
  "hop_policy_saturating_add v add =
     (if uint v > 255 - uint add then 255 else v + add)"

text \<open>The streak is passed in and its new value is the second result.\<close>

definition hop_policy_should_hop :: "u8 \<Rightarrow> u8 \<Rightarrow> u16 \<Rightarrow> bool \<times> u8" where
  "hop_policy_should_hop bad_windows penalty threshold =
     (if penalty = 0 then (False, 0)
      else
        let bad_windows = hop_policy_saturating_add bad_windows penalty
        in if unat bad_windows \<ge> unat threshold then (True, 0) else (False, bad_windows))"

definition hop_policy_attempts_penalty :: "u8 \<Rightarrow> u8 \<Rightarrow> u8" where
  "hop_policy_attempts_penalty attempts good_attempts =
     (if attempts \<le> good_attempts then 0
      else
        let over = uint attempts - uint good_attempts;
            penalty = 1 + over sdiv HOP_POLICY_TX_ATTEMPTS_GRADE_STEP
        in of_int (if penalty > HOP_POLICY_MAX_LOSS_PENALTY then HOP_POLICY_MAX_LOSS_PENALTY
                   else penalty))"

definition hop_policy_window_attempts :: "u32 \<Rightarrow> u32 \<Rightarrow> u8" where
  "hop_policy_window_attempts attempts_sum packets =
     (if packets = 0 then 0
      else
        let mean = attempts_sum div packets;
            mean = (if attempts_sum mod packets \<noteq> 0 then mean + 1 else mean)
        in ucast (min mean 255))"

definition hop_policy_acked_window_attempts :: "u32 \<Rightarrow> u32 \<Rightarrow> u32 \<Rightarrow> u8" where
  "hop_policy_acked_window_attempts attempts_sum packets noack_packets =
     (if noack_packets \<ge> packets then 0
      else hop_policy_window_attempts (attempts_sum - noack_packets) (packets - noack_packets))"

definition hop_policy_ewma_update :: "u16 \<Rightarrow> u8 \<Rightarrow> u16" where
  "hop_policy_ewma_update ewma_x10 sample =
     (let sample_x10 = uint sample * 10;
          difference = sample_x10 - uint ewma_x10;
          delta = difference sdiv (2 ^ HOP_POLICY_ATTEMPTS_EWMA_SHIFT);
          delta = (if delta = 0 \<and> difference > 0 then 1 else delta);
          delta = (if delta = 0 \<and> difference < 0 then -1 else delta)
      in of_int (uint ewma_x10 + delta))"

definition hop_policy_adaptive_retransmits :: "u16 \<Rightarrow> u8 \<Rightarrow> u8 \<Rightarrow> u8" where
  "hop_policy_adaptive_retransmits ewma_x10 count_min count_max =
     (if unat ewma_x10 \<le> HOP_POLICY_RETRY_EWMA_LOW_X10 then count_min
      else if unat ewma_x10 \<ge> HOP_POLICY_RETRY_EWMA_HIGH_X10 then count_max
      else
        let span = of_nat (HOP_POLICY_RETRY_EWMA_HIGH_X10 - HOP_POLICY_RETRY_EWMA_LOW_X10) :: u32;
            into = ucast ewma_x10 - of_nat HOP_POLICY_RETRY_EWMA_LOW_X10 :: u32
        in ucast (ucast count_min + (into * of_int (uint count_max - uint count_min)) div span))"

definition hop_policy_hfclk_release_allowed :: "bool \<Rightarrow> bool \<Rightarrow> bool" where
  "hop_policy_hfclk_release_allowed gating radio_idle = (if \<not> gating then False else radio_idle)"

definition hop_policy_retry_cycle_ms :: "u8 \<Rightarrow> u16 \<Rightarrow> u8 \<Rightarrow> u32 \<Rightarrow> u32" where
  "hop_policy_retry_cycle_ms count delay_us margin floor_ms =
     (let cycle_us = ucast margin * ucast count * ucast delay_us
      in max floor_ms (cycle_us div USEC_PER_MSEC))"

definition hop_policy_keepalive_is_active :: "u8 \<Rightarrow> bool" where
  "hop_policy_keepalive_is_active byte \<longleftrightarrow> byte = 0x01"

definition hop_policy_rssi_to_dbm :: "i8 \<Rightarrow> i8" where
  "hop_policy_rssi_to_dbm rssi_magnitude = - rssi_magnitude"

definition hop_policy_loss_penalty :: "i8 \<Rightarrow> i8 \<Rightarrow> u8" where
  "hop_policy_loss_penalty rssi_dbm floor_dbm =
     (if sint rssi_dbm \<ge> sint floor_dbm then 0
      else
        let below = sint floor_dbm - sint rssi_dbm;
            penalty = 1 + below sdiv HOP_POLICY_RSSI_GRADE_STEP_DB
        in of_int (if penalty > HOP_POLICY_MAX_LOSS_PENALTY then HOP_POLICY_MAX_LOSS_PENALTY
                   else penalty))"

section \<open>Channel indices and masks\<close>

definition hop_policy_index_next :: "u8 \<Rightarrow> nat \<Rightarrow> u8" where
  "hop_policy_index_next index count = of_nat ((unat index + 1) mod count)"

definition hop_policy_channel_for_epoch :: "u16 \<Rightarrow> nat \<Rightarrow> u8" where
  "hop_policy_channel_for_epoch epoch hop_count = of_nat (unat epoch mod hop_count)"

definition hop_policy_anchor_default_index :: "nat \<Rightarrow> nat \<Rightarrow> nat \<Rightarrow> u8" where
  "hop_policy_anchor_default_index slot pool_count anchor_count =
     of_nat ((pool_count * (2 * slot + 1)) div (2 * anchor_count))"

definition hop_policy_mask_get :: "bytes \<Rightarrow> nat \<Rightarrow> bool" where
  "hop_policy_mask_get pool_mask index \<longleftrightarrow> pool_mask ! (index div 8) AND byte_bit index \<noteq> 0"

definition hop_policy_mask_set :: "bytes \<Rightarrow> nat \<Rightarrow> bool \<Rightarrow> bytes" where
  "hop_policy_mask_set pool_mask index active =
     (if active then pool_mask[index div 8 := pool_mask ! (index div 8) OR byte_bit index]
      else pool_mask[index div 8 := pool_mask ! (index div 8) AND NOT (byte_bit index)])"

text \<open>\<open>set & (1u << index)\<close> on a pipe set kept in a \<open>uint32_t\<close>.\<close>

abbreviation pipe_in :: "nat \<Rightarrow> u32 \<Rightarrow> bool" where
  "pipe_in index pipes \<equiv> bit pipes index"

definition pipe_penalty :: "u32 \<Rightarrow> i8 list \<Rightarrow> i8 \<Rightarrow> nat \<Rightarrow> u8" where
  "pipe_penalty motion_mask rssi_dbm floor_dbm index =
     (if pipe_in index motion_mask then hop_policy_loss_penalty (rssi_dbm ! index) floor_dbm
      else of_int HOP_POLICY_MAX_LOSS_PENALTY)"

definition hop_policy_window_penalty :: "u32 \<Rightarrow> u32 \<Rightarrow> i8 list \<Rightarrow> i8 \<Rightarrow> nat \<Rightarrow> u8" where
  "hop_policy_window_penalty motion_mask active_mask rssi_dbm floor_dbm count =
     fold (\<lambda>index worst.
       if \<not> pipe_in index active_mask then worst
       else
         let penalty = pipe_penalty motion_mask rssi_dbm floor_dbm index
         in if penalty > worst then penalty else worst) [0..<count] 0"

definition hop_policy_mask_active_count :: "bytes \<Rightarrow> nat \<Rightarrow> nat" where
  "hop_policy_mask_active_count pool_mask pool_count =
     fold (\<lambda>index count. if hop_policy_mask_get pool_mask index then count + 1 else count) [0..<pool_count] 0"

section \<open>The persisted mask\<close>

definition HOP_POLICY_MASK_STORE_LENGTH :: "nat \<Rightarrow> nat" where
  "HOP_POLICY_MASK_STORE_LENGTH pool_count = 1 + pool_count + (pool_count + 7) div 8"

text \<open>\<open>stored\<close> is the caller's buffer; the result is its new content and the length
  written, 0 when it does not fit.\<close>

definition hop_policy_mask_store_encode :: "bytes \<Rightarrow> bytes \<Rightarrow> bytes \<Rightarrow> nat \<Rightarrow> bytes \<times> nat" where
  "hop_policy_mask_store_encode stored channels pool_mask pool_count =
     (let len = HOP_POLICY_MASK_STORE_LENGTH pool_count
      in if pool_count > 255 \<or> length stored < len then (stored, 0)
         else
           let stored = stored[0 := of_nat pool_count];
               stored = overwrite stored 1 (take pool_count channels);
               stored = overwrite stored (1 + pool_count) (take ((pool_count + 7) div 8) pool_mask)
           in (stored, len))"

definition hop_policy_mask_store_matches :: "bytes \<Rightarrow> nat \<Rightarrow> bytes \<Rightarrow> nat \<Rightarrow> bool" where
  "hop_policy_mask_store_matches stored stored_length channels pool_count =
     (if pool_count > 255 \<or> stored_length \<noteq> HOP_POLICY_MASK_STORE_LENGTH pool_count then False
      else if unat (stored ! 0) \<noteq> pool_count then False
      else take pool_count (drop 1 stored) = take pool_count channels)"

definition hop_policy_mask_store_mask :: "bytes \<Rightarrow> nat \<Rightarrow> bytes" where
  "hop_policy_mask_store_mask stored pool_count = drop (1 + pool_count) stored"

section \<open>Scores, masking and retests\<close>

definition hop_policy_score_update :: "u8 \<Rightarrow> u8 \<Rightarrow> u8 \<Rightarrow> u8" where
  "hop_policy_score_update score penalty decay =
     (if penalty = 0 then score - min score decay else hop_policy_saturating_add score penalty)"

text \<open>The scan both maskings share: the first channel of greatest \<open>rank\<close> among
  those in use, not an anchor and not below the threshold; \<open>pool_count\<close> when there is none.\<close>

definition hop_policy_worst_channel :: "bytes \<Rightarrow> bytes \<Rightarrow> bytes \<Rightarrow> nat \<Rightarrow> u16 \<Rightarrow> nat" where
  "hop_policy_worst_channel channel_bad pool_mask anchor_mask pool_count mask_threshold =
     fold (\<lambda>channel worst.
       if hop_policy_mask_get anchor_mask channel \<or> \<not> hop_policy_mask_get pool_mask channel then worst
       else if unat (channel_bad ! channel) < unat mask_threshold then worst
       else if worst = pool_count \<or> channel_bad ! channel > channel_bad ! worst then channel
       else worst) [0..<pool_count] pool_count"

definition hop_policy_retest_threshold :: "u16 \<Rightarrow> u8 \<Rightarrow> u16" where
  "hop_policy_retest_threshold base_windows level =
     (let level = (if level > HOP_POLICY_RETEST_LEVEL_MAX then HOP_POLICY_RETEST_LEVEL_MAX else level);
          threshold = push_bit (unat level) (ucast base_windows) :: u32
      in if threshold > 65535 then 65535 else ucast threshold)"

definition hop_policy_index_next_active :: "u8 \<Rightarrow> bytes \<Rightarrow> nat \<Rightarrow> u8" where
  "hop_policy_index_next_active index pool_mask count =
     (case first_index (\<lambda>step. hop_policy_mask_get pool_mask ((unat index + step) mod count)) [1..<Suc count] of
        Some k \<Rightarrow> of_nat ((unat index + (k + 1)) mod count)
      | None \<Rightarrow> index)"

definition hop_policy_channel_for_epoch_masked :: "u16 \<Rightarrow> bytes \<Rightarrow> nat \<Rightarrow> u8" where
  "hop_policy_channel_for_epoch_masked epoch pool_mask pool_count =
     (let base = unat epoch mod pool_count
      in case first_index (\<lambda>step. hop_policy_mask_get pool_mask ((base + step) mod pool_count)) [0..<pool_count] of
           Some step \<Rightarrow> of_nat ((base + step) mod pool_count)
         | None \<Rightarrow> of_nat base)"

definition hop_policy_hop_vote :: "bytes \<Rightarrow> bytes \<Rightarrow> nat \<Rightarrow> u16 \<Rightarrow> bool" where
  "hop_policy_hop_vote link_loss weights count threshold =
     (let weighted = fold (\<lambda>index weighted.
            weighted + ucast (link_loss ! index) * ucast (weights ! index)) [0..<count] (0 :: u32)
      in weighted \<ge> ucast threshold)"

definition hop_policy_accrue_loss :: "bytes \<Rightarrow> nat \<Rightarrow> u32 \<Rightarrow> u32 \<Rightarrow> i8 list \<Rightarrow> i8 \<Rightarrow> bytes" where
  "hop_policy_accrue_loss link_loss count motion_mask active_mask rssi_dbm floor_dbm =
     fold (\<lambda>index link_loss.
       if \<not> pipe_in index active_mask then link_loss[index := 0]
       else
         let penalty = pipe_penalty motion_mask rssi_dbm floor_dbm index
         in if penalty = 0 then link_loss[index := 0]
            else link_loss[index := hop_policy_saturating_add (link_loss ! index) penalty])
       [0..<count] link_loss"

definition survey_worst :: "i8 list \<Rightarrow> bytes \<Rightarrow> bytes \<Rightarrow> nat \<Rightarrow> i8 \<Rightarrow> nat" where
  "survey_worst energy_dbm pool_mask anchor_mask pool_count threshold_dbm =
     fold (\<lambda>channel worst.
       if hop_policy_mask_get anchor_mask channel \<or> \<not> hop_policy_mask_get pool_mask channel then worst
       else if sint (energy_dbm ! channel) < sint threshold_dbm then worst
       else if worst = pool_count \<or> sint (energy_dbm ! channel) > sint (energy_dbm ! worst) then channel
       else worst) [0..<pool_count] pool_count"

lemma mask_get_bit: "hop_policy_mask_get pool_mask i \<longleftrightarrow> bit (pool_mask ! (i div 8)) (i mod 8)"
  by (simp add: hop_policy_mask_get_def byte_bit_get)

lemma div_mod_neq: "i \<noteq> j \<Longrightarrow> i div 8 = j div 8 \<Longrightarrow> i mod 8 \<noteq> j mod (8 :: nat)"
  by (metis div_mult_mod_eq)

interpretation hop_mask: bit_table "\<lambda>pool_mask i. i < 8 * length pool_mask" hop_policy_mask_get hop_policy_mask_set
proof
  fix pool_mask :: bytes and i j b
  assume "i < 8 * length pool_mask" and "j < 8 * length pool_mask"
  then show "hop_policy_mask_get (hop_policy_mask_set pool_mask i b) j =
      (if i = j then b else hop_policy_mask_get pool_mask j)"
    using div_mod_neq [of i j]
    by (cases "i div 8 = j div 8")
       (auto simp: mask_get_bit hop_policy_mask_set_def bit_simps bit_byte_bit nth_list_update)
qed (auto simp: hop_policy_mask_set_def)

lemma length_mask_set [simp]: "length (hop_policy_mask_set pool_mask i b) = length pool_mask"
  by (simp add: hop_policy_mask_set_def)

lemma fold_count: "fold (\<lambda>i c. if p i then c + 1 else c) xs c = c + length (filter p xs)"
  by (induction xs arbitrary: c) auto

lemma mask_active_count: "hop_policy_mask_active_count pool_mask n = hop_mask.count pool_mask n"
  by (simp add: hop_policy_mask_active_count_def hop_mask.count_def fold_count)

text \<open>The scan for the worst channel, for any eligibility and rank.\<close>

lemma fold_worst:
  assumes "set xs \<subseteq> {..<n :: nat}"
    and scan: "w = fold (\<lambda>c worst. if \<not> eligible c then worst
        else if worst = n \<or> (rank c :: int) > rank worst then c else worst) xs w0"
    and "w0 = n \<or> eligible w0 \<and> w0 < n"
  shows "(w = n \<or> eligible w \<and> w < n \<and> (w0 < n \<longrightarrow> rank w0 \<le> rank w)) \<and> (w0 < n \<longrightarrow> w < n) \<and>
    (\<forall>c \<in> set xs. eligible c \<longrightarrow> w < n \<and> rank c \<le> rank w)"
  using assms
proof (induction xs arbitrary: w0)
  case Nil
  then show ?case by auto
next
  case (Cons c xs)
  define w1 where "w1 = (if \<not> eligible c then w0 else if w0 = n \<or> rank c > rank w0 then c else w0)"
  have "w1 = n \<or> eligible w1 \<and> w1 < n"
    using Cons.prems by (auto simp: w1_def)
  with Cons.IH [of w1] Cons.prems(1,2) have ih:
    "w = n \<or> eligible w \<and> w < n \<and> (w1 < n \<longrightarrow> rank w1 \<le> rank w)" "w1 < n \<longrightarrow> w < n"
    "\<forall>c \<in> set xs. eligible c \<longrightarrow> w < n \<and> rank c \<le> rank w"
    by (simp_all add: w1_def)
  have "c < n"
    using Cons.prems(1) by simp
  then show ?case
    using ih Cons.prems(3) by (auto simp: w1_def split: if_splits)
qed

definition survey_eligible :: "i8 list \<Rightarrow> bytes \<Rightarrow> bytes \<Rightarrow> i8 \<Rightarrow> nat \<Rightarrow> bool" where
  "survey_eligible energy_dbm pool_mask anchor_mask threshold_dbm channel \<longleftrightarrow>
     \<not> hop_policy_mask_get anchor_mask channel \<and> hop_policy_mask_get pool_mask channel \<and>
     sint (energy_dbm ! channel) \<ge> sint threshold_dbm"

lemma survey_worst_cases:
  assumes "worst = survey_worst energy pool_mask anchor n threshold"
  shows "(worst = n \<or> worst < n \<and> survey_eligible energy pool_mask anchor threshold worst) \<and>
    (\<forall>c < n. survey_eligible energy pool_mask anchor threshold c \<longrightarrow>
       worst < n \<and> sint (energy ! c) \<le> sint (energy ! worst))"
proof -
  have "worst = fold (\<lambda>c worst. if \<not> survey_eligible energy pool_mask anchor threshold c then worst
      else if worst = n \<or> sint (energy ! c) > sint (energy ! worst) then c else worst) [0..<n] n"
    unfolding assms survey_worst_def survey_eligible_def
    by (rule arg_cong2 [where f = "\<lambda>f x. fold f [0..<n] x"]) (auto intro!: ext)
  from fold_worst [OF _ this] show ?thesis by (simp add: atLeast0LessThan) blast
qed

text \<open>Boot survey verdict: the loop clears the worst channel until the floor is reached or
  no channel qualifies. The caller's mask holds the whole pool; one that does not, whose
  scan would read past it in C, ends the loop here.\<close>

function hop_policy_survey_mask ::
  "i8 list \<Rightarrow> nat \<Rightarrow> bytes \<Rightarrow> nat \<Rightarrow> i8 \<Rightarrow> bytes \<Rightarrow> bytes \<times> nat" where
  "hop_policy_survey_mask energy_dbm pool_count anchor_mask min_active threshold_dbm pool_mask =
     (if hop_policy_mask_active_count pool_mask pool_count > min_active then
        let worst = survey_worst energy_dbm pool_mask anchor_mask pool_count threshold_dbm
        in if worst = pool_count \<or> pool_count > 8 * length pool_mask then (pool_mask, 0)
           else
             let (pool_mask, masked) = hop_policy_survey_mask energy_dbm pool_count anchor_mask min_active
                   threshold_dbm (hop_policy_mask_set pool_mask worst False)
             in (pool_mask, masked + 1)
      else (pool_mask, 0))"
  by pat_completeness auto

termination
proof (relation "measure (\<lambda>(energy, n, anchor, min_active, threshold, pool_mask). hop_policy_mask_active_count pool_mask n)",
    goal_cases)
  case (2 energy n anchor min_active threshold pool_mask worst)
  then have "worst < n" "survey_eligible energy pool_mask anchor threshold worst" "n \<le> 8 * length pool_mask"
    using survey_worst_cases [OF 2(2)] by auto
  then show ?case
    using hop_mask.count_clear [of worst n pool_mask] 2
    by (simp add: mask_active_count survey_eligible_def)
qed simp

declare hop_policy_survey_mask.simps [simp del]

definition hop_policy_window_period_fires :: "u8 \<Rightarrow> u8 \<Rightarrow> bool \<times> u8" where
  "hop_policy_window_period_fires counter period =
     (let counter = counter + 1 in if counter \<ge> period then (True, 0) else (False, counter))"

text \<open>The results are the verdict, \<open>beaconed_epoch\<close> and \<open>repeats_left\<close>.\<close>

definition hop_policy_should_beacon :: "u8 \<Rightarrow> u8 \<Rightarrow> u8 \<Rightarrow> u8 \<Rightarrow> bool \<times> u8 \<times> u8" where
  "hop_policy_should_beacon epoch beaconed_epoch repeats_left repeat_windows =
     (let (beaconed_epoch, repeats_left) =
            (if epoch \<noteq> beaconed_epoch then (epoch, repeat_windows) else (beaconed_epoch, repeats_left))
      in if repeats_left > 0 then (True, beaconed_epoch, repeats_left - 1)
         else (False, beaconed_epoch, repeats_left))"


section \<open>Fixed-width arithmetic\<close>

lemma uint_saturating_add: "uint (hop_policy_saturating_add x y) = min 255 (uint x + uint y)"
  by (simp add: hop_policy_saturating_add_def uint_plus_u8)

lemma sdiv_nonneg: "0 \<le> a \<Longrightarrow> 0 < b \<Longrightarrow> a sdiv b = a div (b :: int)"
  by (simp add: signed_divide_int_def sgn_if)

lemma sdiv_neg: "a < 0 \<Longrightarrow> 0 < b \<Longrightarrow> a sdiv b = - ((- a) div (b :: int))"
  by (auto simp: signed_divide_int_def sgn_if)

text \<open>Every penalty lies between 0 and the cap.\<close>

lemma loss_penalty_val:
  "uint (hop_policy_loss_penalty rssi floor) =
     (if sint rssi \<ge> sint floor then 0 else min 4 (1 + (sint floor - sint rssi) div 6))"
  by (auto simp: hop_policy_loss_penalty_def policy_consts sdiv_nonneg uint_of_int_u8 Let_def
      pos_imp_zdiv_nonneg_iff)

lemma attempts_penalty_val:
  "uint (hop_policy_attempts_penalty attempts good) =
     (if attempts \<le> good then 0 else min 4 (1 + (uint attempts - uint good) div 4))"
  by (auto simp: hop_policy_attempts_penalty_def policy_consts sdiv_nonneg uint_of_int_u8 Let_def
      word_le_def not_le pos_imp_zdiv_nonneg_iff)

text \<open>One step of the average, over the integers.\<close>

definition ewma_step :: "int \<Rightarrow> int \<Rightarrow> int" where
  "ewma_step x target = x + (let d = target - x in
     if d = 0 then 0 else if d > 0 then max 1 (d div 4) else - max 1 ((- d) div 4))"

lemma ewma_update_step:
  "uint (hop_policy_ewma_update ewma sample) = ewma_step (uint ewma) (uint sample * 10)"
proof -
  define x where "x = uint ewma"
  define t where "t = uint sample * 10"
  have x: "0 \<le> x" "x < 65536"
    using uint_u16_less [of ewma] by (simp_all add: x_def)
  have t: "0 \<le> t" "t \<le> 2550"
    using uint_u8_less [of sample] by (simp_all add: t_def)
  have b: "0 \<le> ewma_step x t" "ewma_step x t < 65536"
    using x t by (auto simp: ewma_step_def Let_def max_def)
  have "hop_policy_ewma_update ewma sample = of_int (ewma_step x t)"
    by (auto simp: hop_policy_ewma_update_def ewma_step_def Let_def policy_consts x_def [symmetric]
        t_def [symmetric] sdiv_nonneg sdiv_neg max_def intro!: arg_cong [where f = of_int])
  then show ?thesis
    using b by (simp add: uint_of_int_u16 x_def t_def)
qed

text \<open>The distance to a constant target shrinks by one at least, and the step never crosses it.\<close>

lemma ewma_step_shrinks:
  "x \<noteq> t \<Longrightarrow> \<bar>ewma_step x t - t\<bar> < \<bar>x - t\<bar> \<and> (x < t \<longrightarrow> ewma_step x t \<le> t) \<and> (t < x \<longrightarrow> t \<le> ewma_step x t)"
  by (auto simp: ewma_step_def Let_def max_def)

lemma ewma_step_fix: "ewma_step t t = t"
  by (simp add: ewma_step_def)

lemma ewma_converges:
  "nat \<bar>x - t\<bar> \<le> n \<Longrightarrow> ((\<lambda>x. ewma_step x t) ^^ n) x = t"
proof (induction n arbitrary: x)
  case 0
  then show ?case by simp
next
  case (Suc n)
  have "nat \<bar>ewma_step x t - t\<bar> \<le> n"
    using Suc.prems ewma_step_shrinks [of x t] by (cases "x = t") (auto simp: ewma_step_fix)
  from Suc.IH [OF this] show ?case
    by (simp only: funpow_Suc_right o_def)
qed

lemma ewma_update_iterate:
  "uint (((\<lambda>e. hop_policy_ewma_update e sample) ^^ n) ewma) =
     ((\<lambda>x. ewma_step x (uint sample * 10)) ^^ n) (uint ewma)"
  by (induction n) (simp_all add: ewma_update_step)

lemma adaptive_retransmits_val:
  assumes "lo \<le> hi"
  shows "uint (hop_policy_adaptive_retransmits ewma lo hi) =
    (if uint ewma \<le> 15 then uint lo else if uint ewma \<ge> 45 then uint hi
     else uint lo + (uint ewma - 15) * (uint hi - uint lo) div 30)"
proof -
  have lh: "0 \<le> uint lo" "uint lo \<le> uint hi" "uint hi < 256"
    using assms uint_u8_less by (simp_all add: word_le_def)
  have "uint (ucast (ucast lo + (ucast ewma - 15) * of_int (uint hi - uint lo) div 30 :: u32) :: u8) =
      uint lo + (uint ewma - 15) * (uint hi - uint lo) div 30"
    if e: "15 < uint ewma" "uint ewma < 45"
  proof -
    define d where "d = uint hi - uint lo"
    define e where "e = uint ewma - 15"
    have d: "0 \<le> d" "d < 256" and e: "0 \<le> e" "e < 30"
      using lh(1-3) that unfolding d_def e_def by linarith+
    have "e * d \<le> 30 * d"
      using d e by (intro mult_right_mono) auto
    then have q: "0 \<le> e * d" "e * d < 4294967296" "0 \<le> e * d div 30" "e * d div 30 \<le> d"
      using d e by (auto simp: pos_imp_zdiv_nonneg_iff)
    have sub: "uint (ucast ewma - 15 :: u32) = e"
      using that by (simp add: e_def uint_sub_if' )
    have dw: "uint (of_int d :: u32) = d"
      using d by (intro uint_of_int_u32) auto
    have m: "uint ((ucast ewma - 15 :: u32) * of_int d) = e * d"
      using q by (simp add: uint_times_u32 sub dw)
    have v: "uint ((ucast ewma - 15 :: u32) * of_int d div 30) = e * d div 30"
      using m by (simp add: uint_div)
    have s: "uint (ucast lo + (ucast ewma - 15) * of_int d div 30 :: u32) = uint lo + e * d div 30"
      using lh q d v by (subst uint_plus_u32) (auto simp: d_def)
    have "uint lo + e * d div 30 < 256"
      using lh q by (simp add: d_def)
    then show ?thesis
      using s lh q by (simp add: unsigned_ucast_eq take_bit_int_eq_self_iff d_def [symmetric] e_def [symmetric])
  qed
  moreover have "unat ewma \<le> 15 \<longleftrightarrow> uint ewma \<le> 15" "45 \<le> unat ewma \<longleftrightarrow> 45 \<le> uint ewma"
    using of_nat_le_iff [of "unat ewma" 15, where 'a = int] of_nat_le_iff [of 45 "unat ewma", where 'a = int]
    by simp_all
  ultimately show ?thesis
    by (auto simp: hop_policy_adaptive_retransmits_def policy_consts Let_def not_le)
qed

section \<open>Properties of the policy\<close>

text \<open>
  The smoothed retransmit count moves toward each sample without crossing it, and
  a steady sample is reached exactly within as many windows as the distance in tenths.
\<close>

theorem hop_policy_ewma_converges:
  assumes "\<bar>uint ewma - uint sample * 10\<bar> \<le> int n"
  shows "uint (((\<lambda>e. hop_policy_ewma_update e sample) ^^ n) ewma) = uint sample * 10 \<and>
    min (uint ewma) (uint sample * 10) \<le> uint (hop_policy_ewma_update ewma sample) \<and>
    uint (hop_policy_ewma_update ewma sample) \<le> max (uint ewma) (uint sample * 10)"
  using assms ewma_converges [of "uint ewma" "uint sample * 10" n]
    ewma_step_shrinks [of "uint ewma" "uint sample * 10"] ewma_step_fix [of "uint ewma"]
  unfolding ewma_update_iterate ewma_update_step
  by (cases "uint ewma = uint sample * 10") auto

theorem hop_policy_ewma_converges_witness:
  "uint (((\<lambda>e. hop_policy_ewma_update e 2) ^^ 10) 10) = 20"
  using hop_policy_ewma_converges [of 10 2 10] by simp

text \<open>
  The adaptive retransmit budget stays between its floor and its ceiling, never
  shrinks when the smoothed retransmit count grows, and its 32-bit product cannot wrap: it
  is the linear interpolation of the ideal integers.
\<close>

theorem hop_policy_adaptive_retransmits_bounds:
  assumes "count_min \<le> count_max" and "ewma \<le> ewma'"
  shows "count_min \<le> hop_policy_adaptive_retransmits ewma count_min count_max \<and>
    hop_policy_adaptive_retransmits ewma count_min count_max \<le> count_max \<and>
    hop_policy_adaptive_retransmits ewma count_min count_max
      \<le> hop_policy_adaptive_retransmits ewma' count_min count_max \<and>
    (15 < uint ewma \<and> uint ewma < 45 \<longrightarrow>
      uint (hop_policy_adaptive_retransmits ewma count_min count_max) =
        uint count_min + (uint ewma - 15) * (uint count_max - uint count_min) div 30)"
proof -
  define d where "d = uint count_max - uint count_min"
  have d: "0 \<le> d"
    using assms(1) by (simp add: d_def word_le_def)
  have mono: "x * d div 30 \<le> y * d div 30" if "x \<le> y" for x y
    using d that by (intro zdiv_mono1 mult_right_mono) auto
  have q: "0 \<le> (uint ewma - 15) * d div 30" "(uint ewma - 15) * d div 30 \<le> d"
    if "15 < uint ewma" "uint ewma < 45"
    using mono [of 0 "uint ewma - 15"] mono [of "uint ewma - 15" 30] that by simp_all
  have q': "0 \<le> (uint ewma' - 15) * d div 30" "(uint ewma' - 15) * d div 30 \<le> d"
    if "15 < uint ewma'" "uint ewma' < 45"
    using mono [of 0 "uint ewma' - 15"] mono [of "uint ewma' - 15" 30] that by simp_all
  have le: "uint ewma \<le> uint ewma'" "uint count_max = uint count_min + d"
    using assms(2) by (simp_all add: word_le_def d_def)
  note v = adaptive_retransmits_val [OF assms(1), folded d_def]
  have "uint count_min \<le> uint (hop_policy_adaptive_retransmits ewma count_min count_max)"
    using q d le(2) unfolding v by (auto simp: not_le)
  moreover have "uint (hop_policy_adaptive_retransmits ewma count_min count_max) \<le> uint count_max"
    using q d le(2) unfolding v by (auto simp: not_le)
  moreover have "uint (hop_policy_adaptive_retransmits ewma count_min count_max)
      \<le> uint (hop_policy_adaptive_retransmits ewma' count_min count_max)"
    using q q' d le mono [of "uint ewma - 15" "uint ewma' - 15"] unfolding v by (auto simp: not_le)
  ultimately show ?thesis
    unfolding word_le_def using v [of ewma] by (simp add: d_def)
qed

theorem hop_policy_adaptive_retransmits_bounds_witness:
  "hop_policy_adaptive_retransmits 30 3 10 \<le> hop_policy_adaptive_retransmits 31 3 10"
  using hop_policy_adaptive_retransmits_bounds [of 3 10 30 31] by simp

text \<open>
  The retry cycle time is the exact product of margin, retransmit count and delay,
  floored: no argument the link can pass wraps its 32 bits.
\<close>

lemma retry_cycle_ms_exact:
  "uint (hop_policy_retry_cycle_ms count delay_us margin floor_ms) =
     max (uint floor_ms) (uint margin * uint count * uint delay_us div 1000)"
proof -
  have a: "uint margin * uint count \<le> 255 * 255"
    using uint_u8_less [of margin] uint_u8_less [of count] by (intro mult_mono) auto
  have b: "uint margin * uint count * uint delay_us \<le> (255 * 255) * 65535"
    using a uint_u16_less [of delay_us] by (intro mult_mono [of _ "255 * 255"]) auto
  have "uint (ucast margin * ucast count :: u32) = uint margin * uint count"
    using a by (subst uint_times_u32) auto
  then have "uint (ucast margin * ucast count * ucast delay_us :: u32) =
      uint margin * uint count * uint delay_us"
    using b by (subst uint_times_u32) auto
  then show ?thesis
    by (simp add: hop_policy_retry_cycle_ms_def policy_consts max_def word_le_def uint_div)
qed

lemma survey_mask_spec:
  assumes "n \<le> 8 * length pool_mask"
    and "hop_policy_survey_mask energy n anchor min_active threshold pool_mask = (pool_mask', masked)"
  shows "(\<forall>c < n. hop_policy_mask_get pool_mask' c \<longrightarrow> hop_policy_mask_get pool_mask c) \<and>
    (\<forall>c < n. hop_policy_mask_get anchor c \<longrightarrow> hop_policy_mask_get pool_mask c \<longrightarrow>
      hop_policy_mask_get pool_mask' c) \<and>
    masked + hop_mask.count pool_mask' n = hop_mask.count pool_mask n \<and>
    min (hop_mask.count pool_mask n) min_active \<le> hop_mask.count pool_mask' n \<and>
    (hop_mask.count pool_mask' n \<le> min_active \<or>
      (\<forall>c < n. \<not> survey_eligible energy pool_mask' anchor threshold c)) \<and>
    (\<forall>c < n. hop_policy_mask_get pool_mask c \<longrightarrow> \<not> hop_policy_mask_get pool_mask' c \<longrightarrow>
      sint threshold \<le> sint (energy ! c) \<and>
      (\<forall>d < n. survey_eligible energy pool_mask' anchor threshold d \<longrightarrow>
        sint (energy ! d) \<le> sint (energy ! c)))"
  using assms
proof (induction energy n anchor min_active threshold pool_mask arbitrary: pool_mask' masked
    rule: hop_policy_survey_mask.induct)
  case (1 energy n anchor min_active threshold pool_mask)
  define worst where "worst = survey_worst energy pool_mask anchor n threshold"
  note worst = survey_worst_cases [OF worst_def]
  show ?case
  proof (cases "min_active < hop_mask.count pool_mask n \<and> worst \<noteq> n")
    case False
    then have "pool_mask' = pool_mask" "masked = 0"
      using "1.prems"(2)
      by (auto simp: hop_policy_survey_mask.simps [of energy n anchor min_active threshold pool_mask]
          mask_active_count worst_def [symmetric] Let_def split: if_splits)
    then show ?thesis
      using False worst by auto
  next
    case True
    define next_mask where "next_mask = hop_policy_mask_set pool_mask worst False"
    have w: "worst < n" "survey_eligible energy pool_mask anchor threshold worst"
      using True worst by auto
    obtain rest where r: "hop_policy_survey_mask energy n anchor min_active threshold next_mask = (pool_mask', rest)"
      "masked = Suc rest"
      using "1.prems" True
      by (auto simp: hop_policy_survey_mask.simps [of energy n anchor min_active threshold pool_mask]
          mask_active_count worst_def [symmetric] Let_def next_mask_def split: prod.splits)
    have c: "hop_mask.count pool_mask n = Suc (hop_mask.count next_mask n)"
      using hop_mask.count_clear [of worst n pool_mask] w "1.prems"(1)
      by (simp add: next_mask_def survey_eligible_def)
    have g: "hop_policy_mask_get next_mask i \<longleftrightarrow> i \<noteq> worst \<and> hop_policy_mask_get pool_mask i" if "i < n" for i
      using hop_mask.get_set [of worst pool_mask i False] w that "1.prems"(1) by (auto simp: next_mask_def)
    have ih: "(\<forall>c < n. hop_policy_mask_get pool_mask' c \<longrightarrow> hop_policy_mask_get next_mask c)"
      "(\<forall>c < n. hop_policy_mask_get anchor c \<longrightarrow> hop_policy_mask_get next_mask c \<longrightarrow>
        hop_policy_mask_get pool_mask' c)"
      "rest + hop_mask.count pool_mask' n = hop_mask.count next_mask n"
      "min (hop_mask.count next_mask n) min_active \<le> hop_mask.count pool_mask' n"
      "hop_mask.count pool_mask' n \<le> min_active \<or>
        (\<forall>c < n. \<not> survey_eligible energy pool_mask' anchor threshold c)"
      "\<forall>c < n. hop_policy_mask_get next_mask c \<longrightarrow> \<not> hop_policy_mask_get pool_mask' c \<longrightarrow>
        sint threshold \<le> sint (energy ! c) \<and>
        (\<forall>d < n. survey_eligible energy pool_mask' anchor threshold d \<longrightarrow>
          sint (energy ! d) \<le> sint (energy ! c))"
      using "1.IH" [OF _ worst_def, of pool_mask' rest] True r(1) "1.prems"(1)
      by (simp_all add: mask_active_count next_mask_def [symmetric]) (simp_all add: next_mask_def)
    have sub: "survey_eligible energy pool_mask anchor threshold d"
      if "d < n" "survey_eligible energy pool_mask' anchor threshold d" for d
      using that ih(1) g by (auto simp: survey_eligible_def)
    have top: "sint threshold \<le> sint (energy ! worst)"
      "\<forall>d < n. survey_eligible energy pool_mask' anchor threshold d \<longrightarrow> sint (energy ! d) \<le> sint (energy ! worst)"
      using w worst sub by (auto simp: survey_eligible_def)
    have anchor: "\<not> hop_policy_mask_get anchor worst"
      using w(2) by (simp add: survey_eligible_def)
    show ?thesis
    proof (intro conjI)
      show "\<forall>c < n. hop_policy_mask_get pool_mask' c \<longrightarrow> hop_policy_mask_get pool_mask c"
        using ih(1) g by blast
      show "\<forall>c < n. hop_policy_mask_get anchor c \<longrightarrow> hop_policy_mask_get pool_mask c \<longrightarrow>
          hop_policy_mask_get pool_mask' c"
        using ih(2) g anchor by blast
      show "masked + hop_mask.count pool_mask' n = hop_mask.count pool_mask n"
        "min (hop_mask.count pool_mask n) min_active \<le> hop_mask.count pool_mask' n"
        using ih(3,4) c r(2) True by simp_all
      show "hop_mask.count pool_mask' n \<le> min_active \<or>
          (\<forall>c < n. \<not> survey_eligible energy pool_mask' anchor threshold c)"
        by (rule ih(5))
      show "\<forall>c < n. hop_policy_mask_get pool_mask c \<longrightarrow> \<not> hop_policy_mask_get pool_mask' c \<longrightarrow>
          sint threshold \<le> sint (energy ! c) \<and>
          (\<forall>d < n. survey_eligible energy pool_mask' anchor threshold d \<longrightarrow>
            sint (energy ! d) \<le> sint (energy ! c))"
        using ih(6) g top by metis
    qed
  qed
qed

text \<open>
  Claim C32: the boot survey only clears bits, never an anchor's; it stops at the floor or when
  no channel at or above the threshold is left; what it clears is at least as loud as every
  qualifying channel it leaves; and it returns how many it cleared.
\<close>

theorem hop_policy_survey_mask_correct:
  assumes "n \<le> 8 * length pool_mask"
    and "hop_policy_survey_mask energy n anchor min_active threshold pool_mask = (pool_mask', masked)"
  shows "(\<forall>c < n. hop_policy_mask_get pool_mask' c \<longrightarrow> hop_policy_mask_get pool_mask c) \<and>
    (\<forall>c < n. hop_policy_mask_get anchor c \<longrightarrow> hop_policy_mask_get pool_mask c \<longrightarrow>
      hop_policy_mask_get pool_mask' c) \<and>
    masked + hop_policy_mask_active_count pool_mask' n = hop_policy_mask_active_count pool_mask n \<and>
    min (hop_policy_mask_active_count pool_mask n) min_active \<le> hop_policy_mask_active_count pool_mask' n \<and>
    (hop_policy_mask_active_count pool_mask' n \<le> min_active \<or>
      (\<forall>c < n. \<not> survey_eligible energy pool_mask' anchor threshold c)) \<and>
    (\<forall>c < n. hop_policy_mask_get pool_mask c \<longrightarrow> \<not> hop_policy_mask_get pool_mask' c \<longrightarrow>
      sint threshold \<le> sint (energy ! c) \<and>
      (\<forall>d < n. survey_eligible energy pool_mask' anchor threshold d \<longrightarrow>
        sint (energy ! d) \<le> sint (energy ! c)))"
  using survey_mask_spec [OF assms] by (simp add: mask_active_count)

theorem hop_policy_survey_mask_correct_witness:
  "hop_policy_mask_active_count (fst (hop_policy_survey_mask [-40, -90, -30, -50] 4 [0x04] 2 (-60) [0x0F])) 4 \<ge> 2"
proof -
  obtain pool_mask' masked where
    r: "hop_policy_survey_mask [-40, -90, -30, -50] 4 [0x04] 2 (-60) [0x0F] = (pool_mask', masked)"
    by fastforce
  have "hop_policy_mask_active_count [0x0F] 4 = 4"
    by (simp add: hop_policy_mask_active_count_def mask_get_bit upt_rec)
  with hop_policy_survey_mask_correct [OF _ r] show ?thesis
    by (simp add: r)
qed

section \<open>Channels both ends agree on\<close>

lemma rotation_covers:
  assumes "0 < n" and "c < n"
  shows "\<exists>step < n. (b + step) mod n = (c :: nat)"
proof -
  define r where "r = b mod n"
  have "r < n" using assms by (simp add: r_def)
  have "(b + (c + n - r) mod n) mod n = (b + (c + n - r)) mod n"
    by (rule mod_add_right_eq)
  also have "\<dots> = (r + (c + n - r)) mod n"
    unfolding r_def by (rule mod_add_left_eq [symmetric])
  also have "\<dots> = c"
    using assms \<open>r < n\<close> by simp
  finally show ?thesis
    using assms by (intro exI [of _ "(c + n - r) mod n"]) simp
qed

text \<open>The epoch's channel is a pool index, one in use whenever the mask leaves any, and
  the first such at or after the epoch's own position.\<close>

lemma channel_for_epoch_masked_spec:
  assumes "0 < pool_count" and "pool_count \<le> 256"
  shows "unat (hop_policy_channel_for_epoch_masked epoch pool_mask pool_count) < pool_count \<and>
    ((\<exists>c < pool_count. hop_policy_mask_get pool_mask c) \<longrightarrow>
      hop_policy_mask_get pool_mask (unat (hop_policy_channel_for_epoch_masked epoch pool_mask pool_count)) \<and>
      (\<exists>step < pool_count.
        unat (hop_policy_channel_for_epoch_masked epoch pool_mask pool_count) = (unat epoch + step) mod pool_count \<and>
        (\<forall>earlier < step. \<not> hop_policy_mask_get pool_mask ((unat epoch + earlier) mod pool_count))))"
proof -
  have b: "unat (of_nat (k mod pool_count) :: u8) = k mod pool_count" for k
    using assms mod_less_divisor [OF assms(1), of k] by (intro unat_of_nat_u8) linarith
  show ?thesis
  proof (cases "first_index (\<lambda>step. hop_policy_mask_get pool_mask ((unat epoch mod pool_count + step) mod pool_count))
      [0..<pool_count]")
    case None
    then have "\<forall>step < pool_count. \<not> hop_policy_mask_get pool_mask ((unat epoch + step) mod pool_count)"
      by (simp add: first_index_None mod_simps)
    then have "\<not> (\<exists>c < pool_count. hop_policy_mask_get pool_mask c)"
      using rotation_covers [OF assms(1)] by metis
    then show ?thesis
      using None b assms(1) by (simp add: hop_policy_channel_for_epoch_masked_def)
  next
    case (Some step)
    with first_index_SomeD [OF this] b assms(1) show ?thesis
      by (auto simp: hop_policy_channel_for_epoch_masked_def mod_simps intro!: exI [of _ step])
  qed
qed

text \<open>The sweep's next channel is in use whenever any is, and moves off the current one
  unless that is the only one left.\<close>

lemma index_next_active_spec:
  assumes "0 < count" and "count \<le> 256" and "unat index < count"
  shows "unat (hop_policy_index_next_active index pool_mask count) < count \<and>
    ((\<exists>c < count. hop_policy_mask_get pool_mask c) \<longrightarrow>
      hop_policy_mask_get pool_mask (unat (hop_policy_index_next_active index pool_mask count))) \<and>
    ((\<exists>c < count. c \<noteq> unat index \<and> hop_policy_mask_get pool_mask c) \<longrightarrow>
      hop_policy_index_next_active index pool_mask count \<noteq> index)"
proof -
  have b: "unat (of_nat (k mod count) :: u8) = k mod count" for k
    using assms(2) mod_less_divisor [OF assms(1), of k] by (intro unat_of_nat_u8) linarith
  have reach: "\<exists>k < count. (Suc (unat index + k)) mod count = c" if "c < count" for c
    using rotation_covers [OF assms(1) that, of "Suc (unat index)"] by simp
  show ?thesis
  proof (cases "first_index (\<lambda>step. hop_policy_mask_get pool_mask ((unat index + step) mod count)) [1..<Suc count]")
    case None
    then have none: "\<forall>step \<in> set [1..<Suc count]. \<not> hop_policy_mask_get pool_mask ((unat index + step) mod count)"
      by (simp only: first_index_None)
    have "\<forall>k < count. \<not> hop_policy_mask_get pool_mask ((Suc (unat index + k)) mod count)"
    proof (intro allI impI)
      fix k
      assume "k < count"
      then show "\<not> hop_policy_mask_get pool_mask ((Suc (unat index + k)) mod count)"
        using bspec [OF none, of "Suc k"] by (simp add: Suc_le_eq del: upt_Suc)
    qed
    then have "\<not> (\<exists>c < count. hop_policy_mask_get pool_mask c)"
      using reach by metis
    then show ?thesis
      using None assms(3) by (auto simp: hop_policy_index_next_active_def)
  next
    case (Some k)
    from first_index_SomeD [OF Some] have k: "k < count"
      "hop_policy_mask_get pool_mask (Suc (unat index + k) mod count)"
      "\<forall>j < k. \<not> hop_policy_mask_get pool_mask (Suc (unat index + j) mod count)"
      by (auto simp del: upt_Suc)
    have "hop_policy_index_next_active index pool_mask count \<noteq> index"
      if c: "c < count" "c \<noteq> unat index" "hop_policy_mask_get pool_mask c" for c
    proof
      assume "hop_policy_index_next_active index pool_mask count = index"
      then have eq: "Suc (unat index + k) mod count = unat index"
        using Some b [of "Suc (unat index + k)"] by (simp add: hop_policy_index_next_active_def)
      have "k = count - 1"
      proof (rule ccontr)
        assume "k \<noteq> count - 1"
        with k(1) have "Suc k < count" by simp
        then show False
          using eq assms(3) by (cases "Suc (unat index + k) < count") (auto simp: mod_if split: if_splits)
      qed
      moreover obtain j where "j < count" "Suc (unat index + j) mod count = c"
        using reach c(1) by blast
      ultimately show False
        using k(3) c eq by (cases "j = k") auto
    qed
    then show ?thesis
      using Some k(2) b assms(1) by (auto simp: hop_policy_index_next_active_def)
  qed
qed

section \<open>Loss accounting\<close>

lemma fold_update_each:
  assumes "\<forall>i \<in> set is. i < length xs" and "distinct is"
  shows "length (fold (\<lambda>i xs. xs[i := f i (xs ! i)]) is xs) = length xs \<and>
    (\<forall>j < length xs. fold (\<lambda>i xs. xs[i := f i (xs ! i)]) is xs ! j =
      (if j \<in> set is then f j (xs ! j) else xs ! j))"
  using assms
proof (induction "is" arbitrary: xs)
  case (Cons i "is")
  then show ?case
    using Cons.IH [of "xs[i := f i (xs ! i)]"] by (auto simp: nth_list_update)
qed simp

text \<open>
  Each window every pipe's loss is cleared when the pipe is idle or heard at or
  above the floor, and otherwise grows by the graded penalty, saturating; no other pipe is
  touched.
\<close>

theorem hop_policy_accrue_loss_correct:
  assumes "count \<le> length link_loss" and "j < length link_loss"
  shows "uint (hop_policy_accrue_loss link_loss count motion active rssi floor ! j) =
      (if count \<le> j then uint (link_loss ! j)
       else if \<not> pipe_in j active \<or> pipe_in j motion \<and> sint (rssi ! j) \<ge> sint floor then 0
       else min 255 (uint (link_loss ! j) +
         (if pipe_in j motion then min 4 (1 + (sint floor - sint (rssi ! j)) div 6) else 4)))"
proof -
  define step where "step i old =
    (if \<not> pipe_in i active \<or> pipe_penalty motion rssi floor i = 0 then 0
     else hop_policy_saturating_add old (pipe_penalty motion rssi floor i))" for i old
  have "hop_policy_accrue_loss link_loss count motion active rssi floor =
      fold (\<lambda>i xs. xs[i := step i (xs ! i)]) [0..<count] link_loss"
    unfolding hop_policy_accrue_loss_def step_def
    by (rule arg_cong2 [where f = "\<lambda>f x. fold f [0..<count] x"]) (auto intro!: ext simp: Let_def)
  then have j: "hop_policy_accrue_loss link_loss count motion active rssi floor ! j =
      (if j < count then step j (link_loss ! j) else link_loss ! j)"
    using fold_update_each [of "[0..<count]" link_loss step] assms by simp
  have z: "x = 0 \<longleftrightarrow> uint x = 0" for x :: u8
    by (simp add: word_uint_eq_iff)
  have p: "uint (pipe_penalty motion rssi floor j) =
      (if pipe_in j motion then uint (hop_policy_loss_penalty (rssi ! j) floor) else 4)"
    by (simp add: pipe_penalty_def policy_consts)
  have pos: "sint (rssi ! j) < sint floor \<Longrightarrow> 0 \<le> (sint floor - sint (rssi ! j)) div 6"
    by (simp add: pos_imp_zdiv_nonneg_iff)
  show ?thesis
    unfolding j step_def z p loss_penalty_val
    using pos by (auto simp: uint_saturating_add p loss_penalty_val not_le)
qed

theorem hop_policy_accrue_loss_correct_witness:
  "uint (hop_policy_accrue_loss [7, 250] 2 0b01 0b11 [-90, 0] (-80) ! 1) = 254"
  using hop_policy_accrue_loss_correct [of 2 "[7, 250]" 1 "0b01" "0b11" "[-90, 0]" "-80"]
  by (simp add: bit_simps)

text \<open>A window without an active pipe clears every loss, and no loss never wins a vote.\<close>

lemma fold_clear: "fold (\<lambda>i xs. xs[i := 0]) [0..<k] xs = replicate k 0 @ drop k xs" if "k \<le> length xs"
  using that
proof (induction k)
  case (Suc k)
  then have "drop k xs = xs ! k # drop (Suc k) xs"
    by (simp add: Cons_nth_drop_Suc)
  then show ?case
    using Suc by (simp add: list_update_append replicate_append_same [symmetric])
qed simp

lemma accrue_loss_idle:
  "hop_policy_accrue_loss link_loss (length link_loss) motion 0 rssi floor = replicate (length link_loss) 0"
proof -
  have "hop_policy_accrue_loss link_loss (length link_loss) motion 0 rssi floor =
      fold (\<lambda>i xs. xs[i := 0]) [0..<length link_loss] link_loss"
    by (simp add: hop_policy_accrue_loss_def)
  then show ?thesis by (simp add: fold_clear)
qed

lemma hop_vote_idle: "hop_policy_hop_vote (replicate n 0) weights n threshold \<longleftrightarrow> threshold = 0"
proof -
  have "fold (\<lambda>i w. w + ucast (replicate n (0 :: u8) ! i) * ucast (weights ! i)) is (a :: u32) = a"
    if "\<forall>i \<in> set is. i < n" for "is" a
    using that by (induction "is" arbitrary: a) auto
  then have "hop_policy_hop_vote (replicate n 0) weights n threshold \<longleftrightarrow> (0 :: u32) \<ge> ucast threshold"
    by (simp add: hop_policy_hop_vote_def)
  also have "\<dots> \<longleftrightarrow> uint threshold = 0"
    by (simp add: word_le_def)
  finally show ?thesis by (simp add: uint_0_iff)
qed

lemma fold_weighted:
  assumes "\<forall>i \<in> set is. (0 :: int) \<le> f i \<and> f i \<le> 65025 \<and> uint (g i :: u32) = f i"
    and "uint w + 65025 * int (length is) < 4294967296"
  shows "uint (fold (\<lambda>i w. w + g i) is w) = uint w + (\<Sum>i\<leftarrow>is. f i)"
  using assms
proof (induction "is" arbitrary: w)
  case (Cons i "is")
  have "uint (w + g i) = uint w + f i"
    using Cons.prems by (subst uint_plus_u32) auto
  then show ?case
    using Cons.IH [of "w + g i"] Cons.prems by simp
qed simp

lemma product_bound: "uint (x :: u8) * uint (y :: u8) \<le> 65025"
proof -
  have "uint x * uint y \<le> 255 * 255"
    using uint_u8_less [of x] uint_u8_less [of y] by (intro mult_mono) auto
  then show ?thesis by simp
qed

text \<open>
  The hop vote compares the exact weighted sum of the pipes' losses with the
  threshold: 32 bits hold it for any number of pipes the radio has.
\<close>

theorem hop_policy_hop_vote_exact:
  assumes "count \<le> 1024"
  shows "hop_policy_hop_vote link_loss weights count threshold \<longleftrightarrow>
    uint threshold \<le> (\<Sum>i\<leftarrow>[0..<count]. uint (link_loss ! i) * uint (weights ! i))"
proof -
  have "uint (ucast (link_loss ! i) * ucast (weights ! i) :: u32) = uint (link_loss ! i) * uint (weights ! i)" for i
    using product_bound [of "link_loss ! i" "weights ! i"] by (subst uint_times_u32) auto
  then show ?thesis
    using fold_weighted [of "[0..<count]" "\<lambda>i. uint (link_loss ! i) * uint (weights ! i)"
        "\<lambda>i. ucast (link_loss ! i) * ucast (weights ! i)" 0] assms product_bound
    by (simp add: hop_policy_hop_vote_def word_le_def)
qed

theorem hop_policy_hop_vote_exact_witness:
  "hop_policy_hop_vote [200, 3] [1, 10] 2 230"
  using hop_policy_hop_vote_exact [of 2 "[200, 3]" "[1, 10]" 230] by (simp add: upt_rec)

section \<open>The persisted mask\<close>

text \<open>
  A stored mask is recognised for the channel list it was stored with and gives
  back the mask it was stored from; any other channel list of the same length is refused.
\<close>

theorem hop_policy_mask_store_roundtrip:
  assumes "length channels = pool_count" and "length pool_mask = (pool_count + 7) div 8"
    and "pool_count \<le> 255" and "length stored = HOP_POLICY_MASK_STORE_LENGTH pool_count"
    and "hop_policy_mask_store_encode stored channels pool_mask pool_count = (stored', len)"
  shows "len = HOP_POLICY_MASK_STORE_LENGTH pool_count \<and> length stored' = len \<and>
    hop_policy_mask_store_mask stored' pool_count = pool_mask \<and>
    (\<forall>others. length others = pool_count \<longrightarrow>
      (hop_policy_mask_store_matches stored' len others pool_count \<longleftrightarrow> others = channels))"
proof -
  obtain b bs where stored: "stored = b # bs" "length bs = pool_count + (pool_count + 7) div 8"
    using assms(4) by (cases stored) (auto simp: HOP_POLICY_MASK_STORE_LENGTH_def)
  have "stored' = of_nat pool_count # channels @ pool_mask"
    "len = HOP_POLICY_MASK_STORE_LENGTH pool_count"
    using assms stored
    by (auto simp: hop_policy_mask_store_encode_def Let_def overwrite_def HOP_POLICY_MASK_STORE_LENGTH_def)
  then show ?thesis
    using assms(1,2,3)
    by (auto simp: hop_policy_mask_store_mask_def hop_policy_mask_store_matches_def
        HOP_POLICY_MASK_STORE_LENGTH_def unat_of_nat_u8)
qed

theorem hop_policy_mask_store_roundtrip_witness:
  "snd (hop_policy_mask_store_encode [0, 0, 0, 0, 0] [2, 26, 80] [0x05] 3) = 5"
proof -
  obtain stored' len where
    e: "hop_policy_mask_store_encode [0, 0, 0, 0, 0] [2, 26, 80] [0x05] 3 = (stored', len)"
    by fastforce
  show ?thesis
    using hop_policy_mask_store_roundtrip [OF _ _ _ _ e] by (simp add: e HOP_POLICY_MASK_STORE_LENGTH_def)
qed

section \<open>Beacon bursts\<close>

text \<open>The verdicts of a run of windows in one epoch.\<close>

fun beacon_verdicts :: "u8 \<Rightarrow> u8 \<Rightarrow> nat \<Rightarrow> u8 \<times> u8 \<Rightarrow> bool list" where
  "beacon_verdicts epoch repeats 0 (beaconed, left) = []"
| "beacon_verdicts epoch repeats (Suc windows) (beaconed, left) =
     (let (verdict, beaconed, left) = hop_policy_should_beacon epoch beaconed left repeats
      in verdict # beacon_verdicts epoch repeats windows (beaconed, left))"

lemma beacon_verdicts_same:
  "beacon_verdicts epoch repeats windows (epoch, left) =
     replicate (min windows (unat left)) True @ replicate (windows - unat left) False"
proof (induction windows arbitrary: left)
  case (Suc windows)
  show ?case
  proof (cases "left = 0")
    case True
    then show ?thesis
      using Suc.IH [of 0] by (simp add: hop_policy_should_beacon_def)
  next
    case False
    then have "0 < left" "0 < unat left"
      by (simp_all add: word_neq_0_conv unat_gt_0)
    then have "unat left = Suc (unat (left - 1))"
      using False by (simp add: unat_minus_one)
    then show ?thesis
      using Suc.IH [of "left - 1"] \<open>0 < left\<close> by (simp add: hop_policy_should_beacon_def)
  qed
qed simp

text \<open>
  A fresh epoch is announced in exactly the first \<open>repeat_windows\<close>
  windows of its dwell and then never again.
\<close>

theorem hop_policy_should_beacon_bursts:
  assumes "epoch \<noteq> beaconed"
  shows "beacon_verdicts epoch repeats windows (beaconed, left) =
    replicate (min windows (unat repeats)) True @ replicate (windows - unat repeats) False"
proof (cases windows)
  case (Suc n)
  have "beacon_verdicts epoch repeats windows (beaconed, left) =
      beacon_verdicts epoch repeats windows (epoch, repeats)"
    using assms Suc by (simp add: hop_policy_should_beacon_def)
  then show ?thesis
    by (simp add: beacon_verdicts_same)
qed simp

theorem hop_policy_should_beacon_bursts_witness:
  "beacon_verdicts 5 2 4 (4, 0) = replicate 2 True @ replicate 2 False"
  using hop_policy_should_beacon_bursts [of 5 4 2 4 0] by simp

section \<open>The worst channel and retests\<close>

definition mask_candidate :: "bytes \<Rightarrow> bytes \<Rightarrow> bytes \<Rightarrow> u16 \<Rightarrow> nat \<Rightarrow> bool" where
  "mask_candidate channel_bad pool_mask anchor_mask mask_threshold channel \<longleftrightarrow>
     \<not> hop_policy_mask_get anchor_mask channel \<and> hop_policy_mask_get pool_mask channel \<and>
     unat mask_threshold \<le> unat (channel_bad ! channel)"

lemma worst_channel_cases:
  assumes "worst = hop_policy_worst_channel bad pool_mask anchor n threshold"
  shows "(worst = n \<or> worst < n \<and> mask_candidate bad pool_mask anchor threshold worst) \<and>
    (\<forall>c < n. mask_candidate bad pool_mask anchor threshold c \<longrightarrow>
      worst < n \<and> uint (bad ! c) \<le> uint (bad ! worst))"
proof -
  have "worst = fold (\<lambda>c worst. if \<not> mask_candidate bad pool_mask anchor threshold c then worst
      else if worst = n \<or> uint (bad ! c) > uint (bad ! worst) then c else worst) [0..<n] n"
    unfolding assms hop_policy_worst_channel_def mask_candidate_def
    by (rule arg_cong2 [where f = "\<lambda>f x. fold f [0..<n] x"]) (auto intro!: ext simp: word_less_def)
  from fold_worst [OF _ this] show ?thesis by (simp add: atLeast0LessThan) blast
qed

end
