(* ===== verification/Hop.thy ===== *)
theory Hop
  imports Hop_Policy
begin

text \<open>
  What both roles of the hop engine share (\<open>src/hop.c\<close>, \<open>src/hop_internal.h\<close>):
  the channel pool with its anchors, the retune of the radio, and the two control packets,
  beacon and mask update. The devicetree's properties are a record; the anchor indices the
  code resolves once and caches are a function of it.
\<close>

record hop_pool =
  hop_channels :: bytes
  hop_anchors :: "bytes option"
  beacon_peer_count :: nat

definition HOP_COUNT :: "hop_pool \<Rightarrow> nat" where
  "HOP_COUNT pool = length (hop_channels pool)"

definition ESB_HOP_MASK_BYTES :: "hop_pool \<Rightarrow> nat" where
  "ESB_HOP_MASK_BYTES pool = (HOP_COUNT pool + 7) div 8"

definition ESB_HOP_ANCHOR_COUNT :: "hop_pool \<Rightarrow> nat" where
  "ESB_HOP_ANCHOR_COUNT pool =
     (case hop_anchors pool of
        Some anchors \<Rightarrow> length anchors
      | None \<Rightarrow> unat (min (3 :: u8) (of_nat (HOP_COUNT pool))))"

text \<open>The build assertions: the pool is not empty and leaves a spare index value, the
  anchors are channels of the pool and there are no more of them.\<close>

definition pool_ok :: "hop_pool \<Rightarrow> bool" where
  "pool_ok pool \<longleftrightarrow>
     1 \<le> HOP_COUNT pool \<and> HOP_COUNT pool < 255 \<and>
     1 \<le> ESB_HOP_ANCHOR_COUNT pool \<and> ESB_HOP_ANCHOR_COUNT pool \<le> HOP_COUNT pool \<and>
     (case hop_anchors pool of None \<Rightarrow> True | Some anchors \<Rightarrow> set anchors \<subseteq> set (hop_channels pool))"

definition hop_channel_at :: "hop_pool \<Rightarrow> u8 \<Rightarrow> u8" where
  "hop_channel_at pool index = hop_channels pool ! unat index"

section \<open>Anchors\<close>

definition resolve_anchors :: "hop_pool \<Rightarrow> bytes" where
  "resolve_anchors pool =
     (case hop_anchors pool of
        Some anchors \<Rightarrow>
          map (\<lambda>anchor. case first_index (\<lambda>channel. channel = anchor) (hop_channels pool) of
              Some index \<Rightarrow> of_nat index
            | None \<Rightarrow> 0) anchors
      | None \<Rightarrow>
          map (\<lambda>slot. hop_policy_anchor_default_index slot (HOP_COUNT pool) (ESB_HOP_ANCHOR_COUNT pool))
            [0..<ESB_HOP_ANCHOR_COUNT pool])"

definition hop_is_anchor_index :: "hop_pool \<Rightarrow> u8 \<Rightarrow> bool" where
  "hop_is_anchor_index pool index \<longleftrightarrow> first_index (\<lambda>anchor. anchor = index) (resolve_anchors pool) \<noteq> None"

section \<open>Retuning\<close>

datatype radio_call = Stop_rx | Set_rf_channel u8 | Start_rx

record tuner =
  hop_index :: u8
  applied_index :: u8

definition tuner_boot :: tuner where
  "tuner_boot = \<lparr>hop_index = 0, applied_index = 255\<rparr>"

text \<open>\<open>set_error\<close> is what \<open>esb_set_rf_channel\<close> answers; only the central stops
  its receiver around the call.\<close>

definition apply_channel_index ::
  "hop_pool \<Rightarrow> bool \<Rightarrow> status \<Rightarrow> u8 \<Rightarrow> tuner \<Rightarrow> tuner \<times> radio_call list" where
  "apply_channel_index pool role_central set_error index t =
     (if index = applied_index t then (t, [])
      else
        let calls = (if role_central
                     then [Stop_rx, Set_rf_channel (hop_channels pool ! unat index), Start_rx]
                     else [Set_rf_channel (hop_channels pool ! unat index)])
        in (if set_error = Ok then t\<lparr>applied_index := index\<rparr> else t, calls))"

definition apply_hop_channel ::
  "hop_pool \<Rightarrow> bool \<Rightarrow> status \<Rightarrow> tuner \<Rightarrow> tuner \<times> radio_call list" where
  "apply_hop_channel pool role_central set_error t =
     apply_channel_index pool role_central set_error (hop_index t) t"

definition hop_current_channel :: "hop_pool \<Rightarrow> tuner \<Rightarrow> u8" where
  "hop_current_channel pool t = hop_channels pool ! unat (hop_index t)"

section \<open>The public link status\<close>

record zmk_split_esb_status =
  status_channel :: u8
  status_epoch :: u8
  status_searching :: bool
  status_rssi_dbm :: i8
  status_attempts_ewma_x10 :: u16
  status_config_mismatch :: bool

section \<open>Control packets\<close>

definition ESB_MASK_UPDATE_TAG :: u8 where "ESB_MASK_UPDATE_TAG = 0xFD"

definition ESB_MASK_UPDATE_LENGTH :: "hop_pool \<Rightarrow> nat" where
  "ESB_MASK_UPDATE_LENGTH pool = 1 + ESB_HOP_MASK_BYTES pool"

text \<open>The packed struct as its bytes.\<close>

definition esb_mask_update :: "hop_pool \<Rightarrow> bytes \<Rightarrow> bytes" where
  "esb_mask_update pool hop_mask = ESB_MASK_UPDATE_TAG # take (ESB_HOP_MASK_BYTES pool) hop_mask"

definition esb_has_mask_update_tag :: "bytes \<Rightarrow> u8 \<Rightarrow> bool" where
  "esb_has_mask_update_tag data len = (if len = 0 then False else data ! 0 = ESB_MASK_UPDATE_TAG)"

definition esb_is_mask_update :: "hop_pool \<Rightarrow> bytes \<Rightarrow> u8 \<Rightarrow> bool" where
  "esb_is_mask_update pool data len =
     (if unat len \<noteq> ESB_MASK_UPDATE_LENGTH pool then False else esb_has_mask_update_tag data len)"

definition ESB_BEACON_TAG :: u8 where "ESB_BEACON_TAG = 0xFE"

record esb_beacon_peer =
  peer_battery :: u8
  peer_rssi_dbm :: i8

record esb_beacon =
  beacon_epoch_of :: u8
  beacon_modifiers :: u8
  beacon_indicators :: u8
  beacon_peers :: "esb_beacon_peer list"

definition ESB_BEACON_LENGTH :: "hop_pool \<Rightarrow> nat" where
  "ESB_BEACON_LENGTH pool = 4 + beacon_peer_count pool * 2"

definition beacon_peer_bytes :: "esb_beacon_peer \<Rightarrow> bytes" where
  "beacon_peer_bytes peer = [peer_battery peer, peer_rssi_dbm peer]"

definition beacon_bytes :: "esb_beacon \<Rightarrow> bytes" where
  "beacon_bytes beacon =
     [ESB_BEACON_TAG, beacon_epoch_of beacon, beacon_modifiers beacon, beacon_indicators beacon] @
     concat (map beacon_peer_bytes (beacon_peers beacon))"

text \<open>The \<open>memcpy\<close> of a packet of the right length over the struct.\<close>

definition beacon_of_bytes :: "hop_pool \<Rightarrow> bytes \<Rightarrow> esb_beacon" where
  "beacon_of_bytes pool data =
     \<lparr>beacon_epoch_of = data ! 1, beacon_modifiers = data ! 2, beacon_indicators = data ! 3,
      beacon_peers = map (\<lambda>peer. \<lparr>peer_battery = data ! (4 + 2 * peer), peer_rssi_dbm = data ! (5 + 2 * peer)\<rparr>)
        [0..<beacon_peer_count pool]\<rparr>"

definition esb_has_beacon_tag :: "bytes \<Rightarrow> u8 \<Rightarrow> bool" where
  "esb_has_beacon_tag data len = (if len = 0 then False else data ! 0 = ESB_BEACON_TAG)"

definition esb_is_beacon :: "hop_pool \<Rightarrow> bytes \<Rightarrow> u8 \<Rightarrow> bool" where
  "esb_is_beacon pool data len =
     (if unat len \<noteq> ESB_BEACON_LENGTH pool then False else esb_has_beacon_tag data len)"

section \<open>Lemmas\<close>

lemma concat_pairs_nth:
  "i < length xs \<Longrightarrow> concat (map beacon_peer_bytes xs) ! (2 * i) = peer_battery (xs ! i) \<and>
     concat (map beacon_peer_bytes xs) ! (2 * i + 1) = peer_rssi_dbm (xs ! i)"
proof (induction xs arbitrary: i)
  case Nil
  then show ?case by simp
next
  case (Cons x xs)
  then show ?case by (cases i) (auto simp: beacon_peer_bytes_def)
qed

lemma length_concat_pairs: "length (concat (map beacon_peer_bytes xs)) = 2 * length xs"
  by (induction xs) (auto simp: beacon_peer_bytes_def)

lemma length_beacon_bytes:
  "length (beacon_peers beacon) = beacon_peer_count pool \<Longrightarrow>
   length (beacon_bytes beacon) = ESB_BEACON_LENGTH pool"
  by (simp add: beacon_bytes_def length_concat_pairs ESB_BEACON_LENGTH_def)

lemma beacon_of_bytes_bytes:
  assumes "length (beacon_peers beacon) = beacon_peer_count pool"
  shows "beacon_of_bytes pool (beacon_bytes beacon) = beacon"
proof -
  have nth4: "(a # b # c # d # xs) ! (4 + j) = xs ! j" "(a # b # c # d # xs) ! (5 + j) = xs ! (j + 1)"
    for a b c d :: u8 and xs j
    by (simp_all add: eval_nat_numeral)
  have "beacon_peers (beacon_of_bytes pool (beacon_bytes beacon)) = beacon_peers beacon"
    by (rule nth_equalityI)
      (use assms concat_pairs_nth [of _ "beacon_peers beacon"] in
        \<open>auto simp: beacon_of_bytes_def beacon_bytes_def nth4\<close>)
  then show ?thesis
    by (simp add: beacon_of_bytes_def beacon_bytes_def eval_nat_numeral)
qed

lemma beacon_tag_bytes:
  "len \<noteq> 0 \<Longrightarrow> esb_has_beacon_tag (beacon_bytes beacon) len"
  by (simp add: esb_has_beacon_tag_def beacon_bytes_def)

text \<open>An anchor index is an index of the pool.\<close>

lemma default_anchor_less:
  assumes "slot < anchors" "anchors \<le> n" "n < 255"
  shows "unat (hop_policy_anchor_default_index slot n anchors) < n"
proof -
  have "2 * slot + 1 < 2 * anchors" using assms(1) by simp
  then have "n * (2 * slot + 1) < n * (2 * anchors)"
    by (rule mult_strict_left_mono) (use assms in simp)
  then have "n * (2 * slot + 1) div (2 * anchors) < n"
    using assms(1) by (simp add: less_mult_imp_div_less)
  then show ?thesis using assms(3)
    by (simp add: hop_policy_anchor_default_index_def unat_of_nat_u8)
qed

lemma resolve_anchors_less:
  assumes "pool_ok pool" "index \<in> set (resolve_anchors pool)"
  shows "unat index < HOP_COUNT pool"
proof (cases "hop_anchors pool")
  case None
  then show ?thesis
    using assms default_anchor_less [of _ "ESB_HOP_ANCHOR_COUNT pool" "HOP_COUNT pool"]
    by (auto simp: resolve_anchors_def pool_ok_def)
next
  case (Some anchors)
  then obtain anchor where anchor: "anchor \<in> set anchors"
    and index: "index = (case first_index (\<lambda>channel. channel = anchor) (hop_channels pool) of
        Some index \<Rightarrow> of_nat index | None \<Rightarrow> 0)"
    using assms(2) by (auto simp: resolve_anchors_def)
  have n: "length (hop_channels pool) < 255" "1 \<le> length (hop_channels pool)"
    using assms(1) by (simp_all add: pool_ok_def HOP_COUNT_def)
  show ?thesis
  proof (cases "first_index (\<lambda>channel. channel = anchor) (hop_channels pool)")
    case None
    then show ?thesis using index n by (auto simp: HOP_COUNT_def)
  next
    case (Some k)
    then show ?thesis
      using index n first_index_less [OF Some] by (simp add: HOP_COUNT_def unat_of_nat_u8)
  qed
qed

lemma anchor_exists:
  assumes "pool_ok pool"
  obtains index where "index < HOP_COUNT pool" "hop_is_anchor_index pool (of_nat index)"
proof -
  have "resolve_anchors pool \<noteq> []"
    using assms by (auto simp: pool_ok_def resolve_anchors_def ESB_HOP_ANCHOR_COUNT_def split: option.splits)
  then obtain index where index: "index \<in> set (resolve_anchors pool)" by (cases "resolve_anchors pool") auto
  show ?thesis
    by (rule that [of "unat index"])
      (use index assms resolve_anchors_less in \<open>auto simp: hop_is_anchor_index_def table_simps\<close>)
qed

lemma apply_hop_channel_index [simp]:
  "hop_index (fst (apply_hop_channel pool role_central set_error t)) = hop_index t"
  by (simp add: apply_hop_channel_def apply_channel_index_def)

end
