(* ===== verification/Hop_Central.thy ===== *)
theory Hop_Central
  imports Hop Keepalive Esb_Wire
begin

text \<open>
  The central's hop engine (\<open>src/hop_central.c\<close>): the loss vote that leaves a degrading
  channel, the escape from a silent one, the adaptive channel mask with its retests, the
  beacons and mask updates it stages, and the boot mask. Each work item and each packet is one
  step on the record of the file's static variables; what other files and the drivers answer
  in a step is an argument. Effects that leave the file are the list of \<open>hop_call\<close>s.
\<close>

section \<open>State\<close>

record hop_central_config =
  pool :: hop_pool
  pipe_weights :: bytes
  vote_threshold :: u16
  rssi_floor_dbm :: i8
  survey_threshold_dbm :: i8
  mask_threshold :: u16
  restore_windows :: u16
  min_active :: u8
  loss_detect_ms :: u32
  self_pipe_of :: "nat option"
  wire_pipe_of :: "nat option"

definition PERIPHERAL_COUNT :: "hop_central_config \<Rightarrow> nat" where
  "PERIPHERAL_COUNT config = length (pipe_weights config)"

definition SILENT_ESCAPE_CAP :: nat where "SILENT_ESCAPE_CAP = 32"

definition SILENT_ESCAPE_WINDOWS :: "hop_central_config \<Rightarrow> nat" where
  "SILENT_ESCAPE_WINDOWS config = min (2 * HOP_COUNT (pool config)) SILENT_ESCAPE_CAP"

definition SILENT_ESCAPE_LIMIT :: "hop_central_config \<Rightarrow> nat" where
  "SILENT_ESCAPE_LIMIT config = HOP_COUNT (pool config)"

definition BEACON_REPEAT_WINDOWS :: u8 where "BEACON_REPEAT_WINDOWS = 4"
definition BEACON_RSSI_PERIOD_WINDOWS :: u8 where "BEACON_RSSI_PERIOD_WINDOWS = 4"
definition MASK_UPDATE_REPEAT_WINDOWS :: u8 where "MASK_UPDATE_REPEAT_WINDOWS = 4"
definition MASK_REFRESH_WINDOWS :: u8 where "MASK_REFRESH_WINDOWS = 32"
definition CHANNEL_BAD_DECAY :: u8 where "CHANNEL_BAD_DECAY = 1"

datatype control_kind = Control_beacon | Control_mask

datatype hop_call =
    Latch_control nat control_kind bytes
  | Wire_central_send bytes
  | Radio "radio_call list"
  | Schedule_mask_save
  | Reschedule_decision
  | Cancel_decision

record hop_central =
  hop_epoch :: u8
  tuned :: tuner
  pipe_loss :: bytes
  pipe_rssi_dbm :: "i8 list"
  pipe_heard_mask :: u32
  pipe_motion_mask :: u32
  pipe_active_mask :: u32
  silent_windows :: u16
  silent_escapes :: u8
  pipe_last_heard_ms :: "u32 list"
  pipe_ever_heard :: "bool list"
  pipe_was_lost_mask :: u32
  beaconed_epoch :: u8
  beacon_repeats_left :: u8
  beacon_window :: u8
  channel_bad :: bytes
  channel_masked_windows :: "u16 list"
  channel_active_windows :: "u16 list"
  channel_retest_level :: bytes
  active_mask :: bytes
  pending_mask :: bytes
  anchor_mask :: bytes
  pending_valid :: bool
  mask_ready :: bool
  mask_update_repeats :: u8
  mask_window :: u8
  persisted_mask :: bytes
  persisted_mask_valid :: bool

definition hop_central_boot :: "hop_central_config \<Rightarrow> hop_central" where
  "hop_central_boot config =
     (let peers = PERIPHERAL_COUNT config; n = HOP_COUNT (pool config);
          blank = replicate (ESB_HOP_MASK_BYTES (pool config)) 0
      in \<lparr>hop_epoch = 0, tuned = tuner_boot, pipe_loss = replicate peers 0,
          pipe_rssi_dbm = replicate peers 0, pipe_heard_mask = 0, pipe_motion_mask = 0,
          pipe_active_mask = 0, silent_windows = 0, silent_escapes = 0,
          pipe_last_heard_ms = replicate peers 0, pipe_ever_heard = replicate peers False,
          pipe_was_lost_mask = 0, beaconed_epoch = 0, beacon_repeats_left = 0, beacon_window = 0,
          channel_bad = replicate n 0, channel_masked_windows = replicate n 0,
          channel_active_windows = replicate n 0, channel_retest_level = replicate n 0,
          active_mask = blank, pending_mask = blank, anchor_mask = blank, pending_valid = False,
          mask_ready = False, mask_update_repeats = 0, mask_window = 0, persisted_mask = blank,
          persisted_mask_valid = False\<rparr>)"

section \<open>The persisted mask\<close>

definition pool_channels :: "hop_central_config \<Rightarrow> bytes" where
  "pool_channels config = map (\<lambda>index. hop_channel_at (pool config) (of_nat index)) [0..<HOP_COUNT (pool config)]"

text \<open>\<open>name_is_mask\<close> is the test of the settings name, \<open>stored\<close> what \<open>read_cb\<close>
  gives, \<open>None\<close> when it fails.\<close>

definition hop_mask_settings_set ::
  "hop_central_config \<Rightarrow> bool \<Rightarrow> nat \<Rightarrow> bytes option \<Rightarrow> hop_central \<Rightarrow> hop_central \<times> status" where
  "hop_mask_settings_set config name_is_mask len read_result hc =
     (if \<not> name_is_mask then (hc, Err ENOENT)
      else if len \<noteq> HOP_POLICY_MASK_STORE_LENGTH (HOP_COUNT (pool config)) then (hc, Ok)
      else
        case read_result of
          None \<Rightarrow> (hc, Err EIO)
        | Some stored \<Rightarrow>
            if \<not> hop_policy_mask_store_matches stored len (pool_channels config) (HOP_COUNT (pool config))
            then (hc, Ok)
            else (hc\<lparr>persisted_mask := take (ESB_HOP_MASK_BYTES (pool config))
                      (hop_policy_mask_store_mask stored (HOP_COUNT (pool config))),
                     persisted_mask_valid := True\<rparr>, Ok))"

text \<open>What the debounced save writes; \<open>stack_bytes\<close> is the buffer's old content.\<close>

definition mask_save_work_fn :: "hop_central_config \<Rightarrow> bytes \<Rightarrow> hop_central \<Rightarrow> bytes option" where
  "mask_save_work_fn config stack_bytes hc =
     (let (stored, len) = hop_policy_mask_store_encode stack_bytes (pool_channels config) (active_mask hc)
            (HOP_COUNT (pool config))
      in if len = 0 then None else Some (take len stored))"

section \<open>Pipes\<close>

definition clear_pipe_loss :: "hop_central \<Rightarrow> hop_central" where
  "clear_pipe_loss hc = hc\<lparr>pipe_loss := replicate (length (pipe_loss hc)) 0\<rparr>"

definition pipe_is_self :: "hop_central_config \<Rightarrow> nat \<Rightarrow> bool" where
  "pipe_is_self config pipe \<longleftrightarrow> self_pipe_of config = Some pipe"

definition wire_owns :: "hop_central_config \<Rightarrow> nat \<Rightarrow> bool" where
  "wire_owns config pipe \<longleftrightarrow> wire_pipe_of config = Some pipe"

text \<open>\<open>now\<close> is \<open>k_uptime_get_32()\<close> throughout.\<close>

definition hop_pipe_quiet_ms :: "hop_central_config \<Rightarrow> u32 \<Rightarrow> nat \<Rightarrow> hop_central \<Rightarrow> u32" where
  "hop_pipe_quiet_ms config now pipe hc =
     (if pipe \<ge> PERIPHERAL_COUNT config then 0xFFFFFFFF else now - pipe_last_heard_ms hc ! pipe)"

definition hop_pipe_heard :: "hop_central_config \<Rightarrow> nat \<Rightarrow> hop_central \<Rightarrow> bool" where
  "hop_pipe_heard config pipe hc =
     (if pipe \<ge> PERIPHERAL_COUNT config then False else pipe_ever_heard hc ! pipe)"

definition hop_pipe_note_seen :: "hop_central_config \<Rightarrow> u32 \<Rightarrow> nat \<Rightarrow> hop_central \<Rightarrow> hop_central" where
  "hop_pipe_note_seen config now pipe hc =
     (if pipe \<ge> PERIPHERAL_COUNT config then hc
      else hc\<lparr>pipe_last_heard_ms := (pipe_last_heard_ms hc)[pipe := now],
              pipe_ever_heard := (pipe_ever_heard hc)[pipe := True]\<rparr>)"

definition hop_pipe_needs_rendezvous :: "hop_central_config \<Rightarrow> u32 \<Rightarrow> nat \<Rightarrow> hop_central \<Rightarrow> bool" where
  "hop_pipe_needs_rendezvous config now pipe hc =
     (if pipe \<ge> PERIPHERAL_COUNT config then True
      else if pipe_is_self config pipe \<or> wire_owns config pipe then False
      else hop_pipe_quiet_ms config now pipe hc \<ge> loss_detect_ms config)"

section \<open>Beacons\<close>

text \<open>What the step reads from the rest of the central: battery levels per pipe, the HID
  state word, whether the wire peer is up, and the results of the send calls.\<close>

record hop_world =
  uptime :: u32
  battery_of :: "nat \<Rightarrow> u8"
  hid_modifiers :: u8
  hid_indicators :: u8
  wire_peer_up :: bool
  retune_error :: status

definition staged_beacon :: "hop_central_config \<Rightarrow> (nat \<Rightarrow> u8) \<Rightarrow> u8 \<Rightarrow> u8 \<Rightarrow> hop_central \<Rightarrow> esb_beacon" where
  "staged_beacon config battery modifiers indicators hc =
     \<lparr>beacon_epoch_of = hop_epoch hc, beacon_modifiers = modifiers, beacon_indicators = indicators,
      beacon_peers = map (\<lambda>peer. \<lparr>peer_battery = battery peer, peer_rssi_dbm = pipe_rssi_dbm hc ! peer\<rparr>)
        [0..<PERIPHERAL_COUNT config]\<rparr>"

definition hop_stage_beacon ::
  "hop_central_config \<Rightarrow> (nat \<Rightarrow> u8) \<Rightarrow> nat \<Rightarrow> u8 \<Rightarrow> u8 \<Rightarrow> hop_central \<Rightarrow> errno + hop_call" where
  "hop_stage_beacon config battery pipe modifiers indicators hc =
     (if pipe \<ge> PERIPHERAL_COUNT config then Inl EINVAL
      else
        let beacon = beacon_bytes (staged_beacon config battery modifiers indicators hc)
        in if wire_owns config pipe then Inr (Wire_central_send beacon)
           else Inr (Latch_control pipe Control_beacon beacon))"

definition stage_beacon_to :: "hop_central_config \<Rightarrow> hop_world \<Rightarrow> nat \<Rightarrow> hop_central \<Rightarrow> hop_call list" where
  "stage_beacon_to config world pipe hc =
     (case hop_stage_beacon config (battery_of world) pipe (hid_modifiers world) (hid_indicators world) hc of
        Inl _ \<Rightarrow> [] | Inr call \<Rightarrow> [call])"

definition stage_rejoin_beacon :: "hop_central_config \<Rightarrow> hop_world \<Rightarrow> u32 \<Rightarrow> hop_central \<Rightarrow> hop_call list" where
  "stage_rejoin_beacon config world rejoining hc =
     concat (map (\<lambda>pipe. if bit rejoining pipe then stage_beacon_to config world pipe hc else [])
       [0..<PERIPHERAL_COUNT config])"

definition pipe_heard_in_window :: "hop_central_config \<Rightarrow> hop_world \<Rightarrow> nat \<Rightarrow> u32 \<Rightarrow> bool" where
  "pipe_heard_in_window config world pipe heard =
     (if wire_owns config pipe then wire_peer_up world else bit heard pipe)"

definition stage_beacon :: "hop_central_config \<Rightarrow> hop_world \<Rightarrow> u32 \<Rightarrow> hop_central \<Rightarrow> hop_central \<times> hop_call list" where
  "stage_beacon config world heard hc =
     (let (burst, epoch, repeats) = hop_policy_should_beacon (hop_epoch hc) (beaconed_epoch hc)
            (beacon_repeats_left hc) BEACON_REPEAT_WINDOWS;
          (refresh, window) = hop_policy_window_period_fires (beacon_window hc) BEACON_RSSI_PERIOD_WINDOWS;
          hc = hc\<lparr>beaconed_epoch := epoch, beacon_repeats_left := repeats, beacon_window := window\<rparr>
      in if \<not> burst \<and> \<not> refresh then (hc, [])
         else
           (hc, concat (map (\<lambda>pipe.
              if pipe_is_self config pipe then []
              else if \<not> burst \<and> \<not> pipe_heard_in_window config world pipe heard then []
              else stage_beacon_to config world pipe hc) [0..<PERIPHERAL_COUNT config])))"

section \<open>Hopping\<close>

definition ensure_mask :: "hop_central_config \<Rightarrow> hop_central \<Rightarrow> hop_central" where
  "ensure_mask config hc =
     (if mask_ready hc then hc
      else
        (fold (\<lambda>channel hc.
           let hc = hc\<lparr>active_mask := hop_policy_mask_set (active_mask hc) channel True,
                       pending_mask := hop_policy_mask_set (pending_mask hc) channel True\<rparr>
           in if hop_is_anchor_index (pool config) (of_nat channel)
              then hc\<lparr>anchor_mask := hop_policy_mask_set (anchor_mask hc) channel True\<rparr> else hc)
         [0..<HOP_COUNT (pool config)] hc)\<lparr>mask_ready := True\<rparr>)"

definition commit_pending_mask :: "hop_central \<Rightarrow> hop_central" where
  "commit_pending_mask hc =
     (if pending_valid hc then hc\<lparr>active_mask := pending_mask hc, pending_valid := False\<rparr> else hc)"

definition hop_to_next_epoch :: "hop_central_config \<Rightarrow> status \<Rightarrow> hop_central \<Rightarrow> hop_central \<times> hop_call list" where
  "hop_to_next_epoch config set_error hc =
     (let hc = commit_pending_mask hc;
          hc = hc\<lparr>hop_epoch := hop_epoch hc + 1\<rparr>;
          index = hop_policy_channel_for_epoch_masked (ucast (hop_epoch hc)) (active_mask hc) (HOP_COUNT (pool config));
          (t, calls) = apply_hop_channel (pool config) True set_error ((tuned hc)\<lparr>hop_index := index\<rparr>)
      in (clear_pipe_loss (hc\<lparr>tuned := t\<rparr>), [Radio calls]))"

definition escape_silent_channel :: "hop_central_config \<Rightarrow> status \<Rightarrow> hop_central \<Rightarrow> hop_central \<times> hop_call list" where
  "escape_silent_channel config set_error hc = hop_to_next_epoch config set_error (hc\<lparr>silent_windows := 0\<rparr>)"

definition score_current_channel :: "hop_central_config \<Rightarrow> u32 \<Rightarrow> u32 \<Rightarrow> i8 list \<Rightarrow> hop_central \<Rightarrow> hop_central" where
  "score_current_channel config motion active rssi_dbm hc =
     (if active = 0 then hc
      else
        let penalty = hop_policy_window_penalty motion active rssi_dbm (rssi_floor_dbm config) (PERIPHERAL_COUNT config);
            index = unat (hop_index (tuned hc))
        in hc\<lparr>channel_bad := (channel_bad hc)[index :=
                hop_policy_score_update (channel_bad hc ! index) penalty CHANNEL_BAD_DECAY]\<rparr>)"

section \<open>The adaptive mask\<close>

text \<open>One channel of the loop of \<open>recompute_mask\<close>, with its flag \<open>changed\<close>.\<close>

definition recompute_channel :: "hop_central_config \<Rightarrow> u32 \<Rightarrow> nat \<Rightarrow> hop_central \<times> bool \<Rightarrow> hop_central \<times> bool" where
  "recompute_channel config active channel state =
     (let (hc, changed) = state
      in if hop_policy_mask_get (pending_mask hc) channel then
           let served = (channel = unat (hop_index (tuned hc)) \<and> active \<noteq> 0)
           in if served \<and> channel_active_windows hc ! channel < restore_windows config then
                let windows = channel_active_windows hc ! channel + 1;
                    hc = hc\<lparr>channel_active_windows := (channel_active_windows hc)[channel := windows]\<rparr>
                in if windows \<ge> restore_windows config
                   then (hc\<lparr>channel_retest_level := (channel_retest_level hc)[channel := 0]\<rparr>, changed)
                   else (hc, changed)
              else (hc, changed)
         else
           let retest = hop_policy_retest_threshold (restore_windows config) (channel_retest_level hc ! channel);
               windows = channel_masked_windows hc ! channel + 1;
               hc = hc\<lparr>channel_masked_windows := (channel_masked_windows hc)[channel := windows]\<rparr>
           in if windows \<ge> retest
              then (hc\<lparr>pending_mask := hop_policy_mask_set (pending_mask hc) channel True,
                       channel_bad := (channel_bad hc)[channel := 0],
                       channel_masked_windows := (channel_masked_windows hc)[channel := 0]\<rparr>, True)
              else (hc, changed))"

text \<open>The masking of the worst channel.\<close>

definition mask_worst :: "hop_central_config \<Rightarrow> hop_central \<times> bool \<Rightarrow> hop_central \<times> bool" where
  "mask_worst config state =
     (let (hc, changed) = state; n = HOP_COUNT (pool config)
      in if hop_policy_mask_active_count (pending_mask hc) n > unat (min_active config) then
           let worst = hop_policy_worst_channel (channel_bad hc) (pending_mask hc) (anchor_mask hc) n (mask_threshold config)
           in if worst < n then
                let hc = hc\<lparr>pending_mask := hop_policy_mask_set (pending_mask hc) worst False,
                            channel_masked_windows := (channel_masked_windows hc)[worst := 0]\<rparr>;
                    level = channel_retest_level hc ! worst;
                    hc = (if channel_active_windows hc ! worst < restore_windows config \<and> level < HOP_POLICY_RETEST_LEVEL_MAX
                          then hc\<lparr>channel_retest_level := (channel_retest_level hc)[worst := level + 1]\<rparr> else hc)
                in (hc\<lparr>channel_active_windows := (channel_active_windows hc)[worst := 0]\<rparr>, True)
              else (hc, changed)
         else (hc, changed))"

definition recompute_mask :: "hop_central_config \<Rightarrow> u32 \<Rightarrow> hop_central \<Rightarrow> hop_central \<times> hop_call list" where
  "recompute_mask config active hc =
     (let hc = ensure_mask config hc;
          (hc, changed) = mask_worst config
            (fold (recompute_channel config active) [0..<HOP_COUNT (pool config)] (hc, False))
      in if changed
         then (hc\<lparr>pending_valid := True, mask_update_repeats := MASK_UPDATE_REPEAT_WINDOWS\<rparr>, [Schedule_mask_save])
         else (hc, []))"

definition stage_mask_update :: "hop_central_config \<Rightarrow> hop_world \<Rightarrow> hop_central \<Rightarrow> hop_central \<times> hop_call list" where
  "stage_mask_update config world hc =
     (let burst = mask_update_repeats hc > 0;
          (refresh, window) = hop_policy_window_period_fires (mask_window hc) MASK_REFRESH_WINDOWS;
          hc = hc\<lparr>mask_window := window\<rparr>
      in if \<not> burst \<and> \<not> refresh then (hc, [])
         else
           let hc = (if burst then hc\<lparr>mask_update_repeats := mask_update_repeats hc - 1\<rparr> else hc);
               sent = (if pending_valid hc then pending_mask hc else active_mask hc)
           in (hc, concat (map (\<lambda>pipe.
                if pipe_is_self config pipe \<or> wire_owns config pipe then []
                else if hop_pipe_needs_rendezvous config (uptime world) pipe hc then []
                else [Latch_control pipe Control_mask (esb_mask_update (pool config) sent)])
                [0..<PERIPHERAL_COUNT config])))"

section \<open>The decision window\<close>

definition pipes_in :: "hop_central_config \<Rightarrow> (nat \<Rightarrow> bool) \<Rightarrow> u32" where
  "pipes_in config p = fold (\<lambda>pipe pipes. if p pipe then pipes OR push_bit pipe 1 else pipes) [0..<PERIPHERAL_COUNT config] 0"

text \<open>The vote and the walk off a silent channel.\<close>

definition decide_hop :: "hop_central_config \<Rightarrow> status \<Rightarrow> u32 \<Rightarrow> hop_central \<Rightarrow> hop_central \<times> hop_call list" where
  "decide_hop config set_error heard hc =
     (let hc = (if heard \<noteq> 0 then hc\<lparr>silent_windows := 0, silent_escapes := 0\<rparr>
                else hc\<lparr>silent_windows := silent_windows hc + 1\<rparr>);
          (hc, voted) = (if hop_policy_hop_vote (pipe_loss hc) (pipe_weights config) (PERIPHERAL_COUNT config) (vote_threshold config)
                         then hop_to_next_epoch config set_error hc else (hc, []));
          (hc, escaped) = (if unat (silent_windows hc) \<ge> SILENT_ESCAPE_WINDOWS config
                              \<and> unat (silent_escapes hc) < SILENT_ESCAPE_LIMIT config
                           then escape_silent_channel config set_error (hc\<lparr>silent_escapes := silent_escapes hc + 1\<rparr>)
                           else (hc, []))
      in (hc, voted @ escaped))"

definition decision_work_fn :: "hop_central_config \<Rightarrow> hop_world \<Rightarrow> hop_central \<Rightarrow> hop_central \<times> hop_call list" where
  "decision_work_fn config world hc =
     (let heard = pipe_heard_mask hc;
          hc = hc\<lparr>pipe_heard_mask := 0\<rparr>
      in if HOP_COUNT (pool config) \<le> 1 then
           let (hc, beacons) = stage_beacon config world heard hc
           in (hc, beacons @ [Reschedule_decision])
         else
           let motion = pipe_motion_mask hc; active = pipe_active_mask hc;
               hc = hc\<lparr>pipe_motion_mask := 0, pipe_active_mask := 0\<rparr>;
               rssi_snapshot = pipe_rssi_dbm hc;
               hc = hc\<lparr>pipe_loss := hop_policy_accrue_loss (pipe_loss hc) (PERIPHERAL_COUNT config) motion active
                       rssi_snapshot (rssi_floor_dbm config)\<rparr>;
               hc = score_current_channel config motion active rssi_snapshot hc;
               (hc, saved) = recompute_mask config active hc;
               rejoining = pipes_in config (\<lambda>pipe. bit heard pipe \<and> bit (pipe_was_lost_mask hc) pipe);
               hc = hc\<lparr>pipe_was_lost_mask :=
                       pipes_in config (\<lambda>pipe. hop_pipe_needs_rendezvous config (uptime world) pipe hc)\<rparr>;
               (hc, hops) = decide_hop config (retune_error world) heard hc;
               rejoins = (if rejoining \<noteq> 0 then stage_rejoin_beacon config world rejoining hc else []);
               (hc, beacons) = stage_beacon config world heard hc;
               (hc, masks) = stage_mask_update config world hc
           in (hc, saved @ hops @ rejoins @ beacons @ masks @ [Reschedule_decision]))"

section \<open>Boot and reception\<close>

text \<open>\<open>energy_dbm\<close> is what \<open>esb_survey_run\<close> measured.\<close>

definition hop_boot_mask :: "hop_central_config \<Rightarrow> i8 list \<Rightarrow> hop_central \<Rightarrow> hop_central" where
  "hop_boot_mask config energy_dbm hc =
     (let n = HOP_COUNT (pool config)
      in if n \<le> 1 then hc
         else
           let hc = ensure_mask config hc;
               hc = (if persisted_mask_valid hc then
                       fold (\<lambda>channel hc.
                         if \<not> hop_policy_mask_get (persisted_mask hc) channel \<and> \<not> hop_policy_mask_get (anchor_mask hc) channel
                         then hc\<lparr>pending_mask := hop_policy_mask_set (pending_mask hc) channel False\<rparr> else hc) [0..<n] hc
                     else hc);
               (surveyed, masked) = hop_policy_survey_mask energy_dbm n (anchor_mask hc) (unat (min_active config))
                 (survey_threshold_dbm config) (pending_mask hc);
               hc = hc\<lparr>pending_mask := surveyed\<rparr>
           in if hop_policy_mask_active_count (pending_mask hc) n = n then hc
              else
                let hc = hc\<lparr>active_mask := pending_mask hc, mask_update_repeats := MASK_UPDATE_REPEAT_WINDOWS,
                            hop_epoch := hop_epoch hc + 1\<rparr>
                in hc\<lparr>tuned := (tuned hc)\<lparr>hop_index :=
                     hop_policy_channel_for_epoch_masked (ucast (hop_epoch hc)) (active_mask hc) n\<rparr>\<rparr>)"

definition ESB_RELAY_POLL_LENGTH :: nat where "ESB_RELAY_POLL_LENGTH = 1"

definition esb_is_relay_poll :: "bytes \<Rightarrow> nat \<Rightarrow> bool" where
  "esb_is_relay_poll data len = (if len \<noteq> ESB_RELAY_POLL_LENGTH then False else data ! 0 = ESB_RELAY_POLL_TAG)"

definition hop_consume_rx ::
  "hop_central_config \<Rightarrow> u32 \<Rightarrow> nat \<Rightarrow> bytes \<Rightarrow> i8 \<Rightarrow> hop_central \<Rightarrow> hop_central \<times> bool" where
  "hop_consume_rx config now pipe data rssi hc =
     (if pipe \<ge> PERIPHERAL_COUNT config then (hc, False)
      else
        let keepalive = esb_keepalive_matches data (length data);
            poll = esb_is_relay_poll data (length data);
            data_packet = (\<not> keepalive \<and> \<not> poll);
            hc = (if data_packet
                  then hc\<lparr>pipe_rssi_dbm := (pipe_rssi_dbm hc)[pipe := hop_policy_rssi_to_dbm rssi]\<rparr> else hc);
            hc = hc\<lparr>pipe_heard_mask := pipe_heard_mask hc OR push_bit pipe 1,
                    pipe_last_heard_ms := (pipe_last_heard_ms hc)[pipe := now],
                    pipe_ever_heard := (pipe_ever_heard hc)[pipe := True]\<rparr>
        in if poll then (hc, True)
           else if HOP_COUNT (pool config) \<le> 1 then (hc, False)
           else if keepalive then
             (if hop_policy_keepalive_is_active (esb_keepalive_state data)
              then hc\<lparr>pipe_active_mask := pipe_active_mask hc OR push_bit pipe 1\<rparr> else hc, False)
           else (hc\<lparr>pipe_active_mask := pipe_active_mask hc OR push_bit pipe 1,
                    pipe_motion_mask := pipe_motion_mask hc OR push_bit pipe 1\<rparr>, False))"

section \<open>Starting and stopping the decision work\<close>

definition hop_start :: "hop_call list" where
  "hop_start = [Reschedule_decision]"

definition hop_stop :: "hop_call list" where
  "hop_stop = [Cancel_decision]"

section \<open>Status\<close>

definition worst_pipe_rssi_dbm :: "hop_central \<Rightarrow> i8" where
  "worst_pipe_rssi_dbm hc = fold (\<lambda>rssi worst. if sint rssi < sint worst then rssi else worst) (pipe_rssi_dbm hc) 0"

definition zmk_split_esb_get_status :: "hop_central_config \<Rightarrow> hop_central \<Rightarrow> zmk_split_esb_status" where
  "zmk_split_esb_get_status config hc =
     \<lparr>status_channel = hop_current_channel (pool config) (tuned hc), status_epoch = hop_epoch hc,
      status_searching = (silent_windows hc > 0), status_rssi_dbm = worst_pipe_rssi_dbm hc,
      status_attempts_ewma_x10 = 0, status_config_mismatch = False\<rparr>"

definition zmk_split_esb_pipe_rssi_dbm :: "hop_central_config \<Rightarrow> nat \<Rightarrow> hop_central \<Rightarrow> i8" where
  "zmk_split_esb_pipe_rssi_dbm config pipe hc =
     (if pipe \<ge> PERIPHERAL_COUNT config then 0 else pipe_rssi_dbm hc ! pipe)"

definition zmk_split_esb_peer_battery :: "hop_central_config \<Rightarrow> (nat \<Rightarrow> u8) \<Rightarrow> nat \<Rightarrow> u8" where
  "zmk_split_esb_peer_battery config battery pipe =
     (if pipe \<ge> PERIPHERAL_COUNT config then ESB_KEEPALIVE_BATTERY_UNKNOWN else battery pipe)"

definition zmk_split_esb_peer_rssi_dbm :: "hop_central_config \<Rightarrow> nat \<Rightarrow> hop_central \<Rightarrow> i8" where
  "zmk_split_esb_peer_rssi_dbm config pipe hc =
     (if pipe \<ge> PERIPHERAL_COUNT config then 0 else pipe_rssi_dbm hc ! pipe)"

definition zmk_split_esb_pipe_count :: "hop_central_config \<Rightarrow> u8" where
  "zmk_split_esb_pipe_count config = of_nat (PERIPHERAL_COUNT config)"

section \<open>The masks a run can reach\<close>

lemma mask_bytes_valid: "c < HOP_COUNT p \<Longrightarrow> c < 8 * ESB_HOP_MASK_BYTES p"
  by (simp add: ESB_HOP_MASK_BYTES_def)

lemma get_mask_set:
  "length m = ESB_HOP_MASK_BYTES p \<Longrightarrow> i < HOP_COUNT p \<Longrightarrow> j < HOP_COUNT p \<Longrightarrow>
   hop_policy_mask_get (hop_policy_mask_set m i b) j = (if i = j then b else hop_policy_mask_get m j)"
  using mask_bytes_valid [of i p] mask_bytes_valid [of j p] hop_mask.get_set [of i m j b] by simp

lemma length_fold_mask_set [simp]: "length (fold (\<lambda>c m. hop_policy_mask_set m c b) cs m) = length m"
  by (induction cs arbitrary: m) auto

lemma get_fold_mask_set:
  assumes "length m = ESB_HOP_MASK_BYTES p" "\<forall>c \<in> set cs. c < HOP_COUNT p" "j < HOP_COUNT p"
  shows "hop_policy_mask_get (fold (\<lambda>c m. hop_policy_mask_set m c b) cs m) j =
    (if j \<in> set cs then b else hop_policy_mask_get m j)"
  using assms(2)
proof (induction cs rule: rev_induct)
  case Nil
  then show ?case by simp
next
  case (snoc c cs)
  then show ?case
    using assms by (auto simp: get_mask_set [where p = p])
qed

text \<open>The part of the state the mask work leaves alone.\<close>

definition mask_frame :: "hop_central \<Rightarrow> hop_central" where
  "mask_frame hc = hc\<lparr>active_mask := [], pending_mask := [], anchor_mask := [], mask_ready := False,
     channel_bad := [], channel_masked_windows := [], channel_active_windows := [], channel_retest_level := [],
     pending_valid := False, mask_update_repeats := 0\<rparr>"

lemma mask_frame_fields:
  assumes "mask_frame a = mask_frame b"
  shows "hop_epoch a = hop_epoch b" "tuned a = tuned b" "pipe_loss a = pipe_loss b"
    "pipe_rssi_dbm a = pipe_rssi_dbm b" "pipe_heard_mask a = pipe_heard_mask b"
    "pipe_motion_mask a = pipe_motion_mask b" "pipe_active_mask a = pipe_active_mask b"
    "silent_windows a = silent_windows b" "silent_escapes a = silent_escapes b"
    "pipe_last_heard_ms a = pipe_last_heard_ms b" "pipe_was_lost_mask a = pipe_was_lost_mask b"
    "persisted_mask a = persisted_mask b" "persisted_mask_valid a = persisted_mask_valid b"
  using assms by (cases a; cases b; simp add: mask_frame_def)+

lemma ensure_fold:
  fixes hc :: hop_central and p :: hop_pool
  defines "step \<equiv> \<lambda>channel hc.
     let hc = hc\<lparr>active_mask := hop_policy_mask_set (active_mask hc) channel True,
                 pending_mask := hop_policy_mask_set (pending_mask hc) channel True\<rparr>
     in if hop_is_anchor_index p (of_nat channel)
        then hc\<lparr>anchor_mask := hop_policy_mask_set (anchor_mask hc) channel True\<rparr> else hc"
  shows "active_mask (fold step cs hc) = fold (\<lambda>c m. hop_policy_mask_set m c True) cs (active_mask hc)"
    and "pending_mask (fold step cs hc) = fold (\<lambda>c m. hop_policy_mask_set m c True) cs (pending_mask hc)"
    and "anchor_mask (fold step cs hc) =
      fold (\<lambda>c m. hop_policy_mask_set m c True) (filter (\<lambda>c. hop_is_anchor_index p (of_nat c)) cs) (anchor_mask hc)"
    and "mask_frame (fold step cs hc) = mask_frame hc"
    and "mask_ready (fold step cs hc) = mask_ready hc"
    and "pending_valid (fold step cs hc) = pending_valid hc"
  by (induction cs arbitrary: hc) (simp_all add: step_def Let_def mask_frame_def)

text \<open>The masks cover the pool, the anchors are in every mask and the tuned channel is in use.\<close>

definition mask_lengths :: "hop_pool \<Rightarrow> hop_central \<Rightarrow> bool" where
  "mask_lengths p hc \<longleftrightarrow> length (active_mask hc) = ESB_HOP_MASK_BYTES p \<and>
     length (pending_mask hc) = ESB_HOP_MASK_BYTES p \<and> length (anchor_mask hc) = ESB_HOP_MASK_BYTES p"

definition anchors_kept :: "hop_pool \<Rightarrow> hop_central \<Rightarrow> bool" where
  "anchors_kept p hc \<longleftrightarrow> (\<forall>c < HOP_COUNT p. hop_is_anchor_index p (of_nat c) \<longrightarrow>
     hop_policy_mask_get (anchor_mask hc) c \<and> hop_policy_mask_get (active_mask hc) c \<and>
     hop_policy_mask_get (pending_mask hc) c)"

definition tuned_in_use :: "hop_pool \<Rightarrow> hop_central \<Rightarrow> bool" where
  "tuned_in_use p hc \<longleftrightarrow> unat (hop_index (tuned hc)) < HOP_COUNT p \<and>
     (mask_ready hc \<longrightarrow> hop_policy_mask_get (active_mask hc) (unat (hop_index (tuned hc))))"

definition masks_ok :: "hop_pool \<Rightarrow> hop_central \<Rightarrow> bool" where
  "masks_ok p hc \<longleftrightarrow> mask_lengths p hc \<and> (mask_ready hc \<longrightarrow> anchors_kept p hc) \<and> tuned_in_use p hc"

lemma ensure_mask_ready [simp]: "mask_ready (ensure_mask config hc)"
  by (simp add: ensure_mask_def)

lemma ensure_mask_frame: "mask_frame (ensure_mask config hc) = mask_frame hc"
  using ensure_fold(4) [of "pool config" "[0..<HOP_COUNT (pool config)]" hc]
  by (auto simp: ensure_mask_def mask_frame_def)

lemma ensure_mask_fresh:
  assumes "\<not> mask_ready hc" "mask_lengths (pool config) hc"
  shows "mask_lengths (pool config) (ensure_mask config hc) \<and>
    (\<forall>c < HOP_COUNT (pool config). hop_policy_mask_get (active_mask (ensure_mask config hc)) c \<and>
       hop_policy_mask_get (pending_mask (ensure_mask config hc)) c \<and>
       (hop_is_anchor_index (pool config) (of_nat c) \<longrightarrow>
          hop_policy_mask_get (anchor_mask (ensure_mask config hc)) c))"
  using assms
  by (auto simp: ensure_mask_def ensure_fold mask_lengths_def
      get_fold_mask_set [where p = "pool config"])

lemma ensure_mask_ok:
  assumes "masks_ok (pool config) hc"
  shows "masks_ok (pool config) (ensure_mask config hc)"
proof (cases "mask_ready hc")
  case True
  then show ?thesis using assms by (simp add: ensure_mask_def)
next
  case False
  have "tuned (ensure_mask config hc) = tuned hc" by (rule mask_frame_fields(2)) (rule ensure_mask_frame)
  then show ?thesis
    using assms False ensure_mask_fresh [OF False, of config]
    by (auto simp: masks_ok_def anchors_kept_def tuned_in_use_def)
qed

text \<open>What the mask work may do to a well-formed state: change the pending mask only, keep the
  anchors in it, and not fall below the floor.\<close>

definition floor_kept :: "hop_central_config \<Rightarrow> hop_central \<Rightarrow> bool" where
  "floor_kept config hc \<longleftrightarrow>
     min (unat (min_active config)) (HOP_COUNT (pool config))
       \<le> hop_policy_mask_active_count (pending_mask hc) (HOP_COUNT (pool config)) \<and>
     min (unat (min_active config)) (HOP_COUNT (pool config))
       \<le> hop_policy_mask_active_count (active_mask hc) (HOP_COUNT (pool config))"

definition pending_only :: "hop_central_config \<Rightarrow> hop_central \<Rightarrow> hop_central \<Rightarrow> bool" where
  "pending_only config hc hc' \<longleftrightarrow> mask_frame hc' = mask_frame hc \<and> mask_ready hc' = mask_ready hc \<and>
     active_mask hc' = active_mask hc \<and> anchor_mask hc' = anchor_mask hc \<and>
     (mask_lengths (pool config) hc \<longrightarrow> mask_lengths (pool config) hc' \<and>
       (anchors_kept (pool config) hc \<longrightarrow> anchors_kept (pool config) hc') \<and>
       (floor_kept config hc \<longrightarrow> floor_kept config hc'))"

lemma pending_only_refl: "pending_only config hc hc"
  by (simp add: pending_only_def)

lemma pending_only_trans: "pending_only config a b \<Longrightarrow> pending_only config b c \<Longrightarrow> pending_only config a c"
  by (auto simp: pending_only_def)

lemma count_mono:
  assumes "\<And>i. i < n \<Longrightarrow> hop_policy_mask_get m i \<Longrightarrow> hop_policy_mask_get m' i"
  shows "hop_policy_mask_active_count m n \<le> hop_policy_mask_active_count m' n"
  unfolding mask_active_count hop_mask.count_card
  by (rule card_mono) (use assms in auto)

lemma recompute_channel_pending_only:
  assumes "channel < HOP_COUNT (pool config)"
  shows "pending_only config (fst state) (fst (recompute_channel config active channel state))"
proof -
  obtain hc changed where state: "state = (hc, changed)" by fastforce
  have set_ok: "hop_policy_mask_get m c \<Longrightarrow> hop_policy_mask_get (hop_policy_mask_set m channel True) c"
    if "length m = ESB_HOP_MASK_BYTES (pool config)" "c < HOP_COUNT (pool config)" for m c
    using that assms by (simp add: get_mask_set [where p = "pool config"])
  have count_ok: "k \<le> hop_policy_mask_active_count m (HOP_COUNT (pool config)) \<Longrightarrow>
      k \<le> hop_policy_mask_active_count (hop_policy_mask_set m channel True) (HOP_COUNT (pool config))"
    if "length m = ESB_HOP_MASK_BYTES (pool config)" for m k
    by (erule order_trans) (rule count_mono, rule set_ok [OF that])
  show ?thesis
    unfolding state recompute_channel_def pending_only_def
    by (auto simp: Let_def mask_frame_def mask_lengths_def anchors_kept_def floor_kept_def set_ok count_ok)
qed

lemma fold_recompute_pending_only:
  "set cs \<subseteq> {..<HOP_COUNT (pool config)} \<Longrightarrow>
   pending_only config (fst state) (fst (fold (recompute_channel config active) cs state))"
proof (induction cs arbitrary: state)
  case Nil
  then show ?case by (simp add: pending_only_refl)
next
  case (Cons c cs)
  then show ?case
    using pending_only_trans [OF recompute_channel_pending_only [of c config state active]] by simp
qed

lemma mask_worst_pending_only: "pending_only config (fst state) (fst (mask_worst config state))"
proof -
  obtain hc changed where state: "state = (hc, changed)" by fastforce
  define n where "n = HOP_COUNT (pool config)"
  define worst where "worst = hop_policy_worst_channel (channel_bad hc) (pending_mask hc) (anchor_mask hc) n (mask_threshold config)"
  show ?thesis
  proof (cases "hop_policy_mask_active_count (pending_mask hc) n > unat (min_active config) \<and> worst < n")
    case False
    then show ?thesis
      by (auto simp: state mask_worst_def Let_def n_def [symmetric] worst_def [symmetric] pending_only_refl)
  next
    case True
    have worst: "\<not> hop_policy_mask_get (anchor_mask hc) worst" "hop_policy_mask_get (pending_mask hc) worst"
      using worst_channel_cases [OF worst_def] True by (auto simp: mask_candidate_def)
    have len: "mask_lengths (pool config) hc \<Longrightarrow> n \<le> 8 * length (pending_mask hc)"
      by (auto simp: mask_lengths_def n_def ESB_HOP_MASK_BYTES_def)
    have floor: "min (unat (min_active config)) n \<le> hop_policy_mask_active_count (hop_policy_mask_set (pending_mask hc) worst False) n"
      if "mask_lengths (pool config) hc"
      using True worst len [OF that] hop_mask.count_clear [of worst n "pending_mask hc"]
      by (simp add: mask_active_count min_def)
    have keep: "hop_policy_mask_get (hop_policy_mask_set (pending_mask hc) worst False) c"
      if "mask_lengths (pool config) hc" "c < n" "hop_policy_mask_get (pending_mask hc) c"
        "hop_policy_mask_get (anchor_mask hc) c" for c
      using that worst True by (auto simp: mask_lengths_def n_def get_mask_set [where p = "pool config"])
    show ?thesis
      using True floor keep
      by (auto simp: state mask_worst_def Let_def n_def [symmetric] worst_def [symmetric] pending_only_def
          mask_frame_def mask_lengths_def anchors_kept_def floor_kept_def)
  qed
qed

lemma recompute_mask_pending_only:
  "pending_only config (ensure_mask config hc) (fst (recompute_mask config active hc))"
proof -
  let ?state = "mask_worst config (fold (recompute_channel config active) [0..<HOP_COUNT (pool config)] (ensure_mask config hc, False))"
  have "pending_only config (ensure_mask config hc) (fst ?state)"
    using pending_only_trans [OF fold_recompute_pending_only mask_worst_pending_only,
        of "[0..<HOP_COUNT (pool config)]" config "(ensure_mask config hc, False)" active]
    by (simp add: atLeast0LessThan)
  moreover have "pending_only config (fst ?state) (fst (recompute_mask config active hc))"
    by (cases "?state")
      (simp add: recompute_mask_def Let_def pending_only_def mask_frame_def mask_lengths_def anchors_kept_def floor_kept_def)
  ultimately show ?thesis by (rule pending_only_trans)
qed

section \<open>Every step keeps the masks well-formed\<close>

definition hop_inv :: "hop_central_config \<Rightarrow> hop_central \<Rightarrow> bool" where
  "hop_inv config hc \<longleftrightarrow> masks_ok (pool config) hc \<and>
     (mask_ready hc \<and> \<not> persisted_mask_valid hc \<longrightarrow> floor_kept config hc)"

definition hop_config_ok :: "hop_central_config \<Rightarrow> bool" where
  "hop_config_ok config \<longleftrightarrow> pool_ok (pool config) \<and> PERIPHERAL_COUNT config \<le> 8"

lemma pending_only_inv:
  assumes "pending_only config hc hc'" "hop_inv config hc"
  shows "hop_inv config hc'"
  using assms mask_frame_fields(2) [of hc' hc] mask_frame_fields(13) [of hc' hc]
  by (auto simp: pending_only_def hop_inv_def masks_ok_def tuned_in_use_def)

lemma count_full: "\<forall>c < n. hop_policy_mask_get m c \<Longrightarrow> hop_policy_mask_active_count m n = n"
  by (simp add: mask_active_count hop_mask.count_all)

lemma ensure_mask_inv:
  assumes "hop_config_ok config" "hop_inv config hc"
  shows "hop_inv config (ensure_mask config hc)"
proof (cases "mask_ready hc")
  case True
  then show ?thesis using assms by (simp add: ensure_mask_def)
next
  case False
  have "mask_lengths (pool config) hc" using assms by (simp add: hop_inv_def masks_ok_def)
  from ensure_mask_fresh [OF False this] show ?thesis
    using assms ensure_mask_ok [of config hc] by (simp add: hop_inv_def floor_kept_def count_full hop_config_ok_def)
qed

lemma recompute_mask_inv:
  "hop_config_ok config \<Longrightarrow> hop_inv config hc \<Longrightarrow> hop_inv config (fst (recompute_mask config active hc))"
  using pending_only_inv [OF recompute_mask_pending_only] ensure_mask_inv by blast

text \<open>The part of the state a hop leaves alone.\<close>

lemma commit_pending_mask_inv: "hop_inv config hc \<Longrightarrow> mask_lengths (pool config) (commit_pending_mask hc) \<and>
    (mask_ready hc \<longrightarrow> anchors_kept (pool config) (commit_pending_mask hc) \<and>
      (\<not> persisted_mask_valid hc \<longrightarrow> floor_kept config (commit_pending_mask hc))) \<and>
    mask_ready (commit_pending_mask hc) = mask_ready hc \<and>
    persisted_mask_valid (commit_pending_mask hc) = persisted_mask_valid hc"
  by (auto simp: commit_pending_mask_def hop_inv_def masks_ok_def mask_lengths_def anchors_kept_def floor_kept_def)

lemma channel_for_epoch_in_use:
  assumes "pool_ok p" "mask_ready hc \<longrightarrow> anchors_kept p hc"
  shows "unat (hop_policy_channel_for_epoch_masked epoch (active_mask hc) (HOP_COUNT p)) < HOP_COUNT p"
    and "mask_ready hc \<Longrightarrow>
      hop_policy_mask_get (active_mask hc) (unat (hop_policy_channel_for_epoch_masked epoch (active_mask hc) (HOP_COUNT p)))"
proof -
  have n: "0 < HOP_COUNT p" "HOP_COUNT p \<le> 256" using assms(1) by (auto simp: pool_ok_def)
  note spec = channel_for_epoch_masked_spec [OF n, of epoch "active_mask hc"]
  show "unat (hop_policy_channel_for_epoch_masked epoch (active_mask hc) (HOP_COUNT p)) < HOP_COUNT p"
    using spec by blast
  assume "mask_ready hc"
  then have "\<exists>c < HOP_COUNT p. hop_policy_mask_get (active_mask hc) c"
    using assms anchor_exists [OF assms(1)] by (metis anchors_kept_def)
  then show "hop_policy_mask_get (active_mask hc)
      (unat (hop_policy_channel_for_epoch_masked epoch (active_mask hc) (HOP_COUNT p)))"
    using spec by blast
qed

lemma hop_to_next_epoch_inv:
  assumes "hop_config_ok config" "hop_inv config hc"
  shows "hop_inv config (fst (hop_to_next_epoch config set_error hc))"
proof -
  define c where "c = commit_pending_mask hc"
  have c: "mask_lengths (pool config) c" "mask_ready c \<longrightarrow> anchors_kept (pool config) c"
    "mask_ready c \<and> \<not> persisted_mask_valid c \<longrightarrow> floor_kept config c"
    using commit_pending_mask_inv [OF assms(2)] by (simp_all add: c_def)
  have p: "pool_ok (pool config)" using assms(1) by (simp add: hop_config_ok_def)
  note in_use = channel_for_epoch_in_use [OF p c(2)]
  show ?thesis
    using c in_use
    by (auto simp: hop_to_next_epoch_def Let_def split_beta c_def [symmetric] clear_pipe_loss_def hop_inv_def
        masks_ok_def mask_lengths_def anchors_kept_def floor_kept_def tuned_in_use_def)
qed

text \<open>A step that leaves the masks and the tuner alone keeps the invariant.\<close>

lemma hop_inv_frame:
  assumes "hop_inv config hc" "active_mask hc' = active_mask hc" "pending_mask hc' = pending_mask hc"
    "anchor_mask hc' = anchor_mask hc" "mask_ready hc' = mask_ready hc" "tuned hc' = tuned hc"
    "persisted_mask_valid hc \<longrightarrow> persisted_mask_valid hc'"
  shows "hop_inv config hc'"
  using assms by (auto simp: hop_inv_def masks_ok_def mask_lengths_def anchors_kept_def floor_kept_def tuned_in_use_def)

lemma decide_hop_inv:
  assumes "hop_config_ok config" "hop_inv config hc"
  shows "hop_inv config (fst (decide_hop config set_error heard hc))"
proof -
  have escape: "hop_inv config (fst (escape_silent_channel config set_error (h\<lparr>silent_escapes := k\<rparr>)))"
    if "hop_inv config h" for h k
    unfolding escape_silent_channel_def
    by (rule hop_to_next_epoch_inv [OF assms(1)]) (rule hop_inv_frame [OF that]; simp)
  define h0 where "h0 = (if heard \<noteq> 0 then hc\<lparr>silent_windows := 0, silent_escapes := 0\<rparr>
                else hc\<lparr>silent_windows := silent_windows hc + 1\<rparr>)"
  have h0: "hop_inv config h0" by (rule hop_inv_frame [OF assms(2)]) (auto simp: h0_def)
  define h1 where "h1 = fst (if hop_policy_hop_vote (pipe_loss h0) (pipe_weights config) (PERIPHERAL_COUNT config) (vote_threshold config)
                         then hop_to_next_epoch config set_error h0 else (h0, []))"
  have h1: "hop_inv config h1" using h0 hop_to_next_epoch_inv [OF assms(1) h0] by (simp add: h1_def)
  show ?thesis
    using h1 escape [OF h1]
    by (auto simp: decide_hop_def Let_def h0_def [symmetric] split_beta h1_def [symmetric])
qed

lemma stage_beacon_inv: "hop_inv config hc \<Longrightarrow> hop_inv config (fst (stage_beacon config world heard hc))"
  by (erule hop_inv_frame) (auto simp: stage_beacon_def Let_def split: prod.splits)

lemma stage_mask_update_inv: "hop_inv config hc \<Longrightarrow> hop_inv config (fst (stage_mask_update config world hc))"
  by (erule hop_inv_frame) (auto simp: stage_mask_update_def Let_def split: prod.splits)

lemma score_current_channel_inv: "hop_inv config hc \<Longrightarrow> hop_inv config (score_current_channel config motion active rssi hc)"
  by (erule hop_inv_frame) (auto simp: score_current_channel_def Let_def)

lemma decision_work_fn_inv:
  assumes "hop_config_ok config" "hop_inv config hc"
  shows "hop_inv config (fst (decision_work_fn config world hc))"
proof -
  have clear: "hop_inv config (hc\<lparr>pipe_heard_mask := 0\<rparr>)"
    by (rule hop_inv_frame [OF assms(2)]) auto
  define h where "h = score_current_channel config (pipe_motion_mask hc) (pipe_active_mask hc) (pipe_rssi_dbm hc)
      (hc\<lparr>pipe_heard_mask := 0, pipe_motion_mask := 0, pipe_active_mask := 0,
          pipe_loss := hop_policy_accrue_loss (pipe_loss hc) (PERIPHERAL_COUNT config) (pipe_motion_mask hc)
            (pipe_active_mask hc) (pipe_rssi_dbm hc) (rssi_floor_dbm config)\<rparr>)"
  have h: "hop_inv config h"
    unfolding h_def by (rule score_current_channel_inv, rule hop_inv_frame [OF assms(2)]) auto
  define r where "r = fst (recompute_mask config (pipe_active_mask hc) h)"
  have r: "hop_inv config r" unfolding r_def by (rule recompute_mask_inv [OF assms(1) h])
  have r': "hop_inv config (r\<lparr>pipe_was_lost_mask := m\<rparr>)" for m
    by (rule hop_inv_frame [OF r]) auto
  show ?thesis
    using stage_beacon_inv [OF clear]
      stage_mask_update_inv [OF stage_beacon_inv [OF decide_hop_inv [OF assms(1) r']]]
    by (auto simp: decision_work_fn_def Let_def h_def [symmetric] split_beta r_def [symmetric])
qed

lemma survey_mask_length:
  "length (fst (hop_policy_survey_mask energy n anchor least threshold m)) = length m"
proof (induction energy n anchor least threshold m rule: hop_policy_survey_mask.induct)
  case (1 energy n anchor least threshold m)
  then show ?case
    by (subst hop_policy_survey_mask.simps) (auto simp: Let_def split: prod.splits)
qed

text \<open>Masking the persisted channels: the loop leaves everything but the pending mask alone.\<close>

definition mask_persisted :: "nat \<Rightarrow> hop_central \<Rightarrow> hop_central" where
  "mask_persisted channel hc =
     (if \<not> hop_policy_mask_get (persisted_mask hc) channel \<and> \<not> hop_policy_mask_get (anchor_mask hc) channel
      then hc\<lparr>pending_mask := hop_policy_mask_set (pending_mask hc) channel False\<rparr> else hc)"

definition but_pending :: "hop_central \<Rightarrow> hop_central" where
  "but_pending hc = hc\<lparr>pending_mask := []\<rparr>"

lemma mask_persisted_ok:
  assumes "channel < HOP_COUNT p" "mask_lengths p hc" "anchors_kept p hc"
  shows "mask_lengths p (mask_persisted channel hc) \<and> anchors_kept p (mask_persisted channel hc) \<and>
    but_pending (mask_persisted channel hc) = but_pending hc"
  using assms
  by (auto simp: but_pending_def mask_persisted_def mask_lengths_def anchors_kept_def get_mask_set [where p = p])

lemma fold_mask_persisted_ok:
  assumes "\<forall>channel \<in> set cs. channel < HOP_COUNT p" "mask_lengths p hc" "anchors_kept p hc"
  shows "mask_lengths p (fold mask_persisted cs hc) \<and> anchors_kept p (fold mask_persisted cs hc) \<and>
    but_pending (fold mask_persisted cs hc) = but_pending hc"
  using assms
proof (induction cs arbitrary: hc)
  case (Cons channel cs)
  then show ?case using mask_persisted_ok [of channel p hc] by simp
qed simp

lemma pending_frame:
  assumes "but_pending a = but_pending b"
  shows "active_mask a = active_mask b" "anchor_mask a = anchor_mask b" "mask_ready a = mask_ready b"
    "tuned a = tuned b" "persisted_mask_valid a = persisted_mask_valid b" "hop_epoch a = hop_epoch b"
  using assms by (cases a; cases b; simp add: but_pending_def)+

text \<open>The boot's mask before the survey, and after it.\<close>

definition boot_persisted :: "hop_central_config \<Rightarrow> hop_central \<Rightarrow> hop_central" where
  "boot_persisted config hc =
     (if persisted_mask_valid hc then fold mask_persisted [0..<HOP_COUNT (pool config)] hc else hc)"

definition boot_surveyed :: "hop_central_config \<Rightarrow> i8 list \<Rightarrow> hop_central \<Rightarrow> hop_central" where
  "boot_surveyed config energy_dbm hc = hc\<lparr>pending_mask := fst (hop_policy_survey_mask energy_dbm
     (HOP_COUNT (pool config)) (anchor_mask hc) (unat (min_active config)) (survey_threshold_dbm config) (pending_mask hc))\<rparr>"

lemma hop_boot_mask_stages:
  "hop_boot_mask config energy_dbm hc =
     (let n = HOP_COUNT (pool config)
      in if n \<le> 1 then hc
         else
           let hc = boot_surveyed config energy_dbm (boot_persisted config (ensure_mask config hc))
           in if hop_policy_mask_active_count (pending_mask hc) n = n then hc
              else
                let hc = hc\<lparr>active_mask := pending_mask hc, mask_update_repeats := MASK_UPDATE_REPEAT_WINDOWS,
                            hop_epoch := hop_epoch hc + 1\<rparr>
                in hc\<lparr>tuned := (tuned hc)\<lparr>hop_index :=
                     hop_policy_channel_for_epoch_masked (ucast (hop_epoch hc)) (active_mask hc) n\<rparr>\<rparr>)"
  unfolding hop_boot_mask_def boot_surveyed_def boot_persisted_def mask_persisted_def [abs_def] Let_def split_beta
  by (rule refl)

lemma boot_persisted_inv:
  assumes "hop_inv config hc" "mask_ready hc"
  shows "hop_inv config (boot_persisted config hc) \<and> mask_ready (boot_persisted config hc)"
proof (cases "persisted_mask_valid hc")
  case False
  then show ?thesis using assms by (simp add: boot_persisted_def)
next
  case True
  have "mask_lengths (pool config) hc" "anchors_kept (pool config) hc"
    using assms by (simp_all add: hop_inv_def masks_ok_def)
  from fold_mask_persisted_ok [of "[0..<HOP_COUNT (pool config)]", OF _ this]
  have fold: "mask_lengths (pool config) (boot_persisted config hc)" "anchors_kept (pool config) (boot_persisted config hc)"
    and frame: "but_pending (boot_persisted config hc) = but_pending hc"
    using True by (simp_all add: boot_persisted_def)
  show ?thesis
    using assms True fold pending_frame [OF frame] by (simp add: hop_inv_def masks_ok_def tuned_in_use_def)
qed

lemma boot_surveyed_inv:
  assumes "hop_inv config hc" "mask_ready hc"
  shows "hop_inv config (boot_surveyed config energy hc) \<and> mask_ready (boot_surveyed config energy hc)"
proof -
  define n where "n = HOP_COUNT (pool config)"
  obtain m masked where survey: "hop_policy_survey_mask energy n (anchor_mask hc) (unat (min_active config))
      (survey_threshold_dbm config) (pending_mask hc) = (m, masked)"
    by fastforce
  have ok: "mask_lengths (pool config) hc" "anchors_kept (pool config) hc"
    using assms by (simp_all add: hop_inv_def masks_ok_def)
  then have len: "n \<le> 8 * length (pending_mask hc)"
    by (simp add: mask_lengths_def n_def ESB_HOP_MASK_BYTES_def)
  have "length m = length (pending_mask hc)"
    using survey_mask_length [of energy n "anchor_mask hc" "unat (min_active config)" "survey_threshold_dbm config" "pending_mask hc"]
      survey by simp
  moreover have "\<forall>c < n. hop_policy_mask_get (anchor_mask hc) c \<longrightarrow> hop_policy_mask_get (pending_mask hc) c \<longrightarrow>
      hop_policy_mask_get m c"
    "min (hop_policy_mask_active_count (pending_mask hc) n) (unat (min_active config)) \<le> hop_policy_mask_active_count m n"
    using survey_mask_spec [OF len survey] by (auto simp: mask_active_count)
  ultimately show ?thesis
    using assms ok survey
    by (auto simp: boot_surveyed_def n_def [symmetric] hop_inv_def masks_ok_def mask_lengths_def anchors_kept_def
        floor_kept_def tuned_in_use_def)
qed

lemma hop_boot_mask_inv:
  assumes "hop_config_ok config" "hop_inv config hc"
  shows "hop_inv config (hop_boot_mask config energy hc)"
proof -
  define b where "b = boot_surveyed config energy (boot_persisted config (ensure_mask config hc))"
  have b: "hop_inv config b" "mask_ready b"
    using boot_surveyed_inv boot_persisted_inv [OF ensure_mask_inv [OF assms]] by (simp_all add: b_def)
  define a where "a = b\<lparr>active_mask := pending_mask b\<rparr>"
  have a: "mask_lengths (pool config) a" "mask_ready a \<longrightarrow> anchors_kept (pool config) a"
    using b by (auto simp: a_def hop_inv_def masks_ok_def mask_lengths_def anchors_kept_def)
  have p: "pool_ok (pool config)" using assms(1) by (simp add: hop_config_ok_def)
  show ?thesis
    using b assms a channel_for_epoch_in_use [OF p a(2), of "ucast (hop_epoch b + 1)"]
    by (auto simp: hop_boot_mask_stages Let_def b_def [symmetric] a_def hop_inv_def masks_ok_def mask_lengths_def
        anchors_kept_def floor_kept_def tuned_in_use_def)
qed

lemma hop_consume_rx_inv: "hop_inv config hc \<Longrightarrow> hop_inv config (fst (hop_consume_rx config now pipe data rssi hc))"
  by (erule hop_inv_frame) (auto simp: hop_consume_rx_def Let_def)

lemma hop_pipe_note_seen_inv: "hop_inv config hc \<Longrightarrow> hop_inv config (hop_pipe_note_seen config now pipe hc)"
  by (erule hop_inv_frame) (auto simp: hop_pipe_note_seen_def)

lemma hop_mask_settings_set_inv:
  "hop_inv config hc \<Longrightarrow> hop_inv config (fst (hop_mask_settings_set config name len read_result hc))"
  by (erule hop_inv_frame) (auto simp: hop_mask_settings_set_def split: option.splits)

lemma hop_central_boot_inv: "pool_ok (pool config) \<Longrightarrow> hop_inv config (hop_central_boot config)"
  by (auto simp: hop_central_boot_def Let_def hop_inv_def masks_ok_def mask_lengths_def tuned_in_use_def
      tuner_boot_def pool_ok_def)

section \<open>Reachable states\<close>

inductive hop_central_reachable :: "hop_central_config \<Rightarrow> hop_central \<Rightarrow> bool" for config where
  boot: "hop_central_reachable config (hop_central_boot config)"
| settings: "hop_central_reachable config hc \<Longrightarrow>
    hop_central_reachable config (fst (hop_mask_settings_set config name len read_result hc))"
| boot_mask: "hop_central_reachable config hc \<Longrightarrow> hop_central_reachable config (hop_boot_mask config energy hc)"
| received: "hop_central_reachable config hc \<Longrightarrow>
    hop_central_reachable config (fst (hop_consume_rx config now pipe data rssi hc))"
| seen: "hop_central_reachable config hc \<Longrightarrow> hop_central_reachable config (hop_pipe_note_seen config now pipe hc)"
| beacon: "hop_central_reachable config hc \<Longrightarrow> hop_stage_beacon config battery pipe modifiers indicators hc = Inr call \<Longrightarrow>
    hop_central_reachable config hc"
| decided: "hop_central_reachable config hc \<Longrightarrow>
    hop_central_reachable config (fst (decision_work_fn config world hc))"

lemma reachable_inv: "hop_config_ok config \<Longrightarrow> hop_central_reachable config hc \<Longrightarrow> hop_inv config hc"
  by (rotate_tac, induction rule: hop_central_reachable.induct)
    (auto intro: hop_mask_settings_set_inv hop_boot_mask_inv hop_consume_rx_inv hop_pipe_note_seen_inv
      decision_work_fn_inv hop_central_boot_inv simp: hop_config_ok_def)

text \<open>
  Claim C14: whatever packets, ticks, boot surveys, persisted masks and driver failures a central
  goes through, the channel it tunes is a pool channel its mask has in use, no anchor is ever
  masked, in the mask in force or in the one the next hop adopts, and without a persisted mask
  neither falls below hop-min-active channels.
\<close>

theorem hop_central_masks_safe:
  assumes "hop_config_ok config" "hop_central_reachable config hc"
  shows "unat (hop_index (tuned hc)) < HOP_COUNT (pool config) \<and>
    (mask_ready hc \<longrightarrow>
      hop_policy_mask_get (active_mask hc) (unat (hop_index (tuned hc))) \<and>
      (\<forall>c < HOP_COUNT (pool config). hop_is_anchor_index (pool config) (of_nat c) \<longrightarrow>
        hop_policy_mask_get (active_mask hc) c \<and> hop_policy_mask_get (pending_mask hc) c) \<and>
      (\<not> persisted_mask_valid hc \<longrightarrow>
        min (unat (min_active config)) (HOP_COUNT (pool config))
          \<le> hop_policy_mask_active_count (active_mask hc) (HOP_COUNT (pool config))))"
  using reachable_inv [OF assms]
  by (auto simp: hop_inv_def masks_ok_def tuned_in_use_def anchors_kept_def floor_kept_def)

text \<open>A central of eight channels with one anchor and two peripherals.\<close>

definition hop_config_example :: hop_central_config where
  "hop_config_example = \<lparr>pool = \<lparr>hop_channels = [2, 12, 22, 32, 42, 52, 62, 72], hop_anchors = Some [32], beacon_peer_count = 2\<rparr>,
     pipe_weights = [1, 1], vote_threshold = 24, rssi_floor_dbm = -80, survey_threshold_dbm = -70, mask_threshold = 16,
     restore_windows = 100, min_active = 6, loss_detect_ms = 400, self_pipe_of = None, wire_pipe_of = None\<rparr>"

definition hop_world_example :: hop_world where
  "hop_world_example = \<lparr>uptime = 1000, battery_of = (\<lambda>_. 50), hid_modifiers = 0, hid_indicators = 0,
     wire_peer_up = False, retune_error = Ok\<rparr>"

definition hop_central_example :: hop_central where
  "hop_central_example = fst (decision_work_fn hop_config_example hop_world_example
     (hop_boot_mask hop_config_example [-40, -90, -30, -20, -90, -90, -90, -50] (hop_central_boot hop_config_example)))"

lemma hop_config_example_ok: "hop_config_ok hop_config_example"
  by (simp add: hop_config_ok_def hop_config_example_def pool_ok_def HOP_COUNT_def ESB_HOP_ANCHOR_COUNT_def PERIPHERAL_COUNT_def)

lemma hop_central_masks_safe_witness:
  "hop_central_reachable hop_config_example hop_central_example \<and>
   unat (hop_index (tuned hop_central_example)) < 8"
proof -
  have "hop_central_reachable hop_config_example hop_central_example"
    unfolding hop_central_example_def by (intro decided boot_mask boot)
  then show ?thesis
    using hop_central_masks_safe [OF hop_config_example_ok, of hop_central_example]
    by (simp add: hop_config_example_def HOP_COUNT_def)
qed

text \<open>A persisted mask is taken over without the floor: here one channel of eight stays, with a
  floor of six.\<close>

definition persisted_example :: hop_central where
  "persisted_example = hop_boot_mask hop_config_example (replicate 8 (-100))
     (fst (hop_mask_settings_set hop_config_example True 10
        (Some [8, 2, 12, 22, 32, 42, 52, 62, 72, 0x08]) (hop_central_boot hop_config_example)))"

lemma persisted_mask_ignores_floor:
  "persisted_mask_valid persisted_example \<and> hop_policy_mask_active_count (active_mask persisted_example) 8 = 1"
  by code_simp

section \<open>Silence\<close>

text \<open>No packet has arrived since the last window.\<close>

definition quiet :: "hop_central_config \<Rightarrow> hop_central \<Rightarrow> bool" where
  "quiet config hc \<longleftrightarrow> pipe_heard_mask hc = 0 \<and> pipe_motion_mask hc = 0 \<and> pipe_active_mask hc = 0 \<and>
     length (pipe_loss hc) = PERIPHERAL_COUNT config"

definition silence :: "hop_central \<Rightarrow> u16 \<times> u8 \<times> u8" where
  "silence hc = (silent_windows hc, silent_escapes hc, hop_epoch hc)"

definition silent_walk :: "hop_central_config \<Rightarrow> u16 \<times> u8 \<times> u8 \<Rightarrow> u16 \<times> u8 \<times> u8" where
  "silent_walk config s = (let (windows, escapes, epoch) = s; windows = windows + 1
     in if unat windows \<ge> SILENT_ESCAPE_WINDOWS config \<and> unat escapes < SILENT_ESCAPE_LIMIT config
        then (0, escapes + 1, epoch + 1) else (windows, escapes, epoch))"

lemma hop_to_next_epoch_silence:
  "silence (fst (hop_to_next_epoch config e hc)) = (silent_windows hc, silent_escapes hc, hop_epoch hc + 1)"
  "quiet config (fst (hop_to_next_epoch config e hc)) = quiet config hc"
  by (simp_all add: silence_def quiet_def hop_to_next_epoch_def Let_def split_beta clear_pipe_loss_def
      commit_pending_mask_def)

lemma decide_hop_silent:
  assumes "vote_threshold config \<noteq> 0" "pipe_loss hc = replicate (PERIPHERAL_COUNT config) 0" "quiet config hc"
  shows "silence (fst (decide_hop config e 0 hc)) = silent_walk config (silence hc)"
    and "quiet config (fst (decide_hop config e 0 hc))"
proof -
  define h where "h = hc\<lparr>silent_windows := silent_windows hc + 1\<rparr>"
  have no_vote: "\<not> hop_policy_hop_vote (pipe_loss h) (pipe_weights config) (PERIPHERAL_COUNT config) (vote_threshold config)"
    using assms by (simp add: h_def hop_vote_idle)
  have q: "quiet config (h\<lparr>silent_escapes := k, silent_windows := 0\<rparr>)" for k
    using assms(3) by (simp add: quiet_def h_def)
  show "silence (fst (decide_hop config e 0 hc)) = silent_walk config (silence hc)"
    using no_vote
    by (simp add: decide_hop_def h_def [symmetric] escape_silent_channel_def split_beta hop_to_next_epoch_silence)
      (simp add: h_def silence_def silent_walk_def Let_def)
  show "quiet config (fst (decide_hop config e 0 hc))"
    using no_vote q assms(3)
    by (simp add: decide_hop_def h_def [symmetric] escape_silent_channel_def split_beta hop_to_next_epoch_silence)
      (simp add: h_def quiet_def)
qed

lemma stage_silence [simp]:
  "silence (fst (stage_beacon config world heard hc)) = silence hc"
  "quiet config (fst (stage_beacon config world heard hc)) = quiet config hc"
  "silence (fst (stage_mask_update config world hc)) = silence hc"
  "quiet config (fst (stage_mask_update config world hc)) = quiet config hc"
  by (auto simp: stage_beacon_def stage_mask_update_def Let_def silence_def quiet_def split: prod.splits)

lemma recompute_mask_frame: "mask_frame (fst (recompute_mask config active hc)) = mask_frame hc"
  using recompute_mask_pending_only [of config hc active] ensure_mask_frame [of config hc]
  by (simp add: pending_only_def)

lemma decision_work_fn_silent:
  assumes "quiet config hc" "vote_threshold config \<noteq> 0" "1 < HOP_COUNT (pool config)"
  shows "silence (fst (decision_work_fn config world hc)) = silent_walk config (silence hc)"
    and "quiet config (fst (decision_work_fn config world hc))"
proof -
  define h where "h = hc\<lparr>pipe_loss := replicate (PERIPHERAL_COUNT config) 0\<rparr>"
  have accrue: "hop_policy_accrue_loss (pipe_loss hc) (PERIPHERAL_COUNT config) 0 0 (pipe_rssi_dbm hc) (rssi_floor_dbm config)
      = replicate (PERIPHERAL_COUNT config) 0"
    using assms(1) accrue_loss_idle [of "pipe_loss hc"] by (simp add: quiet_def)
  have cleared: "score_current_channel config 0 0 (pipe_rssi_dbm hc)
      (hc\<lparr>pipe_heard_mask := 0, pipe_motion_mask := 0, pipe_active_mask := 0,
          pipe_loss := replicate (PERIPHERAL_COUNT config) 0\<rparr>) = h"
    using assms(1) by (cases hc) (simp add: score_current_channel_def h_def quiet_def)
  define r where "r = (fst (recompute_mask config 0 h))\<lparr>pipe_was_lost_mask :=
      pipes_in config (\<lambda>pipe. hop_pipe_needs_rendezvous config (uptime world) pipe (fst (recompute_mask config 0 h)))\<rparr>"
  have r: "pipe_loss r = replicate (PERIPHERAL_COUNT config) 0" "quiet config r" "silence r = silence hc"
    using mask_frame_fields [OF recompute_mask_frame [of config 0 h]] assms(1)
    by (simp_all add: r_def h_def quiet_def silence_def)
  have step: "fst (decision_work_fn config world hc) =
      fst (stage_mask_update config world (fst (stage_beacon config world 0 (fst (decide_hop config (retune_error world) 0 r)))))"
    using assms(1,3) accrue cleared
    by (simp add: decision_work_fn_def Let_def split_beta quiet_def r_def [symmetric])
  show "silence (fst (decision_work_fn config world hc)) = silent_walk config (silence hc)"
    and "quiet config (fst (decision_work_fn config world hc))"
    unfolding step using decide_hop_silent [OF assms(2) r(1,2), of "retune_error world"] r(3) by simp_all
qed

lemma unat_of_nat_u16: "n < 65536 \<Longrightarrow> unat (of_nat n :: u16) = n"
  by (simp add: unat_of_nat take_bit_nat_eq_self)

lemma silent_walk_step:
  "silent_walk config (windows, escapes, epoch) =
     (if unat (windows + 1) \<ge> SILENT_ESCAPE_WINDOWS config \<and> unat escapes < SILENT_ESCAPE_LIMIT config
      then (0, escapes + 1, epoch + 1) else (windows + 1, escapes, epoch))"
  by (simp add: silent_walk_def Let_def)

text \<open>The walk after \<open>k\<close> silent windows: one escape every \<open>SILENT_ESCAPE_WINDOWS\<close>, until
  the limit.\<close>

lemma silent_walk_iter:
  fixes config k
  defines "period \<equiv> SILENT_ESCAPE_WINDOWS config" and "limit \<equiv> SILENT_ESCAPE_LIMIT config"
  assumes "0 < period" "period \<le> 32" "limit < 256"
  shows "\<exists>windows. (silent_walk config ^^ k) (0, 0, epoch) =
      (windows, of_nat (min (k div period) limit), epoch + of_nat (min (k div period) limit)) \<and>
    (k div period < limit \<longrightarrow> windows = of_nat (k mod period))"
proof (induction k)
  case 0
  then show ?case by simp
next
  case (Suc k)
  then obtain windows where walk: "(silent_walk config ^^ k) (0, 0, epoch) =
      (windows, of_nat (min (k div period) limit), epoch + of_nat (min (k div period) limit))"
    and windows: "k div period < limit \<longrightarrow> windows = of_nat (k mod period)"
    by auto
  have escapes: "unat (of_nat (min (k div period) limit) :: u8) = min (k div period) limit"
    using assms(5) by (intro unat_of_nat_u8) simp
  have mod_less: "k mod period < period" using assms(3) by simp
  show ?case
  proof (cases "k div period < limit")
    case True
    have "(of_nat (k mod period) + 1 :: u16) = of_nat (Suc (k mod period))" by simp
    moreover have "unat (of_nat (Suc (k mod period)) :: u16) = Suc (k mod period)"
      using mod_less assms(4) by (intro unat_of_nat_u16) linarith
    ultimately have next_windows: "unat (of_nat (k mod period) + 1 :: u16) = Suc (k mod period)"
      by (simp only:)
    show ?thesis
    proof (cases "Suc (k mod period) = period")
      case True
      then have "Suc k div period = Suc (k div period)" "Suc k mod period = 0"
        by (simp_all add: div_Suc mod_Suc)
      then show ?thesis
        using \<open>k div period < limit\<close> walk windows next_windows escapes True
        by (simp add: silent_walk_step period_def [symmetric] limit_def [symmetric] min_def)
    next
      case False
      then have "Suc k div period = k div period" "Suc k mod period = Suc (k mod period)"
        by (simp_all add: div_Suc mod_Suc)
      moreover have "\<not> period \<le> Suc (k mod period)" using False mod_less by simp
      ultimately show ?thesis
        using \<open>k div period < limit\<close> walk windows next_windows escapes
        by (simp add: silent_walk_step period_def [symmetric] limit_def [symmetric] min_def)
    qed
  next
    case False
    have "k div period \<le> Suc k div period" by (intro div_le_mono) simp
    then have "\<not> Suc k div period < limit" using False by linarith
    then show ?thesis
      using False walk escapes
      by (simp add: silent_walk_step period_def [symmetric] limit_def [symmetric] min_def)
  qed
qed

definition silent_run :: "hop_central_config \<Rightarrow> hop_world list \<Rightarrow> hop_central \<Rightarrow> hop_central" where
  "silent_run config worlds hc = fold (\<lambda>world hc. fst (decision_work_fn config world hc)) worlds hc"

lemma silent_run_silence:
  assumes "quiet config hc" "vote_threshold config \<noteq> 0" "1 < HOP_COUNT (pool config)"
  shows "silence (silent_run config worlds hc) = (silent_walk config ^^ length worlds) (silence hc) \<and>
    quiet config (silent_run config worlds hc)"
  using assms
proof (induction worlds rule: rev_induct)
  case (snoc world worlds)
  then show ?case
    using decision_work_fn_silent [OF _ assms(2,3), of "silent_run config worlds hc" world]
    by (simp add: silent_run_def)
qed (simp add: silent_run_def)

text \<open>
  Claim C30: in total silence the central leaves a channel every \<open>SILENT_ESCAPE_WINDOWS\<close>
  windows, whatever the drivers answer and whatever the masks do meanwhile, and stops after
  one hop per channel of the pool: a sleeping peripheral does not keep it hopping forever.
\<close>

theorem hop_central_silent_walk:
  assumes "hop_config_ok config" "1 < HOP_COUNT (pool config)" "vote_threshold config \<noteq> 0"
    and "quiet config hc" "silent_windows hc = 0" "silent_escapes hc = 0"
  shows "hop_epoch (silent_run config worlds hc) =
    hop_epoch hc + of_nat (min (length worlds div SILENT_ESCAPE_WINDOWS config) (HOP_COUNT (pool config)))"
proof -
  have "0 < SILENT_ESCAPE_WINDOWS config" "SILENT_ESCAPE_WINDOWS config \<le> 32" "SILENT_ESCAPE_LIMIT config < 256"
    using assms(1) by (auto simp: hop_config_ok_def pool_ok_def SILENT_ESCAPE_WINDOWS_def SILENT_ESCAPE_CAP_def
        SILENT_ESCAPE_LIMIT_def)
  from silent_walk_iter [OF this, of "length worlds" "hop_epoch hc"]
    silent_run_silence [OF assms(4,3,2), of worlds] assms(5,6)
  show ?thesis by (auto simp: silence_def SILENT_ESCAPE_LIMIT_def)
qed

lemma hop_example_boot:
  "HOP_COUNT (pool hop_config_example) = 8" "vote_threshold hop_config_example = 24"
  "SILENT_ESCAPE_WINDOWS hop_config_example = 16"
  "quiet hop_config_example (hop_central_boot hop_config_example)"
  "silence (hop_central_boot hop_config_example) = (0, 0, 0)"
  by (simp_all add: hop_config_example_def HOP_COUNT_def SILENT_ESCAPE_WINDOWS_def SILENT_ESCAPE_CAP_def
      quiet_def PERIPHERAL_COUNT_def hop_central_boot_def silence_def Let_def)

lemma hop_central_silent_walk_witness:
  "hop_epoch (silent_run hop_config_example (replicate 40 hop_world_example) (hop_central_boot hop_config_example)) = 2"
  using hop_central_silent_walk [OF hop_config_example_ok, of "hop_central_boot hop_config_example" "replicate 40 hop_world_example"]
    hop_example_boot
  by (simp add: silence_def)

end
