(* ===== verification/Latch.thy ===== *)
theory Latch
  imports Prelude
begin

text \<open>
  The single-producer latest-value latch (\<open>src/spsc_latch.c\<close>) over a pool of slots its
  user owns: control payloads and idle replies (\<open>src/esb_link_central.c\<close>) and staged
  masks (\<open>src/hop_peripheral.c\<close>). A published pointer is the index of its slot.
\<close>

record spsc_latch =
  published :: "nat option"
  next_index :: u32
  slot_count :: u8

definition spsc_latch_claim :: "spsc_latch \<Rightarrow> spsc_latch \<times> nat" where
  "spsc_latch_claim latch =
     (latch\<lparr>next_index := next_index latch + 1\<rparr>, unat (next_index latch) mod unat (slot_count latch))"

definition spsc_latch_publish :: "nat \<Rightarrow> spsc_latch \<Rightarrow> spsc_latch" where
  "spsc_latch_publish slot latch = latch\<lparr>published := Some slot\<rparr>"

definition spsc_latch_peek :: "spsc_latch \<Rightarrow> nat option" where
  "spsc_latch_peek latch = published latch"

definition spsc_latch_release :: "nat \<Rightarrow> spsc_latch \<Rightarrow> spsc_latch \<times> bool" where
  "spsc_latch_release expected latch =
     (if published latch = Some expected then (latch\<lparr>published := None\<rparr>, True) else (latch, False))"

section \<open>A latch and its pool\<close>

record 'v latch_pool =
  latch :: spsc_latch
  pool :: "'v list"

text \<open>What every producer does: claim a slot, fill it, publish it.\<close>

definition latch_stage :: "'v \<Rightarrow> 'v latch_pool \<Rightarrow> 'v latch_pool" where
  "latch_stage v lp =
     (let (l, slot) = spsc_latch_claim (latch lp)
      in \<lparr>latch = spsc_latch_publish slot l, pool = (pool lp)[slot := v]\<rparr>)"

text \<open>What every consumer reads: the published slot and its content.\<close>

definition latch_pending :: "'v latch_pool \<Rightarrow> (nat \<times> 'v) option" where
  "latch_pending lp = map_option (\<lambda>slot. (slot, pool lp ! slot)) (spsc_latch_peek (latch lp))"

definition latch_release :: "nat \<Rightarrow> 'v latch_pool \<Rightarrow> 'v latch_pool" where
  "latch_release slot lp = lp\<lparr>latch := fst (spsc_latch_release slot (latch lp))\<rparr>"

definition latch_new :: "u8 \<Rightarrow> 'v \<Rightarrow> 'v latch_pool" where
  "latch_new slots blank = \<lparr>latch = \<lparr>published = None, next_index = 0, slot_count = slots\<rparr>,
     pool = replicate (unat slots) blank\<rparr>"

text \<open>The slots divide the counter's period, as the pools of two the code declares do, so
  the slots stay in rotation when the counter wraps.\<close>

definition latch_ok :: "'v latch_pool \<Rightarrow> bool" where
  "latch_ok lp \<longleftrightarrow>
     2 \<le> unat (slot_count (latch lp)) \<and> unat (slot_count (latch lp)) dvd 2 ^ 32 \<and>
     length (pool lp) = unat (slot_count (latch lp)) \<and>
     (\<forall>slot. published (latch lp) = Some slot \<longrightarrow>
       slot = unat (next_index (latch lp) - 1) mod unat (slot_count (latch lp)))"

section \<open>Rotation of the slots\<close>

lemma unat_add_mod_dvd:
  "n dvd 2 ^ 32 \<Longrightarrow> unat (x + y :: u32) mod n = (unat x + unat y) mod n"
  by (simp add: unat_word_ariths mod_mod_cancel)

lemma stage_fields:
  assumes "latch_ok lp"
  shows "published (latch (latch_stage v lp)) = Some (unat (next_index (latch lp)) mod unat (slot_count (latch lp)))"
    and "next_index (latch (latch_stage v lp)) = next_index (latch lp) + 1"
    and "slot_count (latch (latch_stage v lp)) = slot_count (latch lp)"
    and "pool (latch_stage v lp) = (pool lp)[unat (next_index (latch lp)) mod unat (slot_count (latch lp)) := v]"
  by (simp_all add: latch_stage_def spsc_latch_claim_def spsc_latch_publish_def Let_def)

lemma latch_ok_stage: "latch_ok lp \<Longrightarrow> latch_ok (latch_stage v lp)"
  by (simp add: latch_ok_def latch_stage_def spsc_latch_claim_def spsc_latch_publish_def Let_def)

lemma latch_ok_release: "latch_ok lp \<Longrightarrow> latch_ok (latch_release slot lp)"
  by (simp add: latch_ok_def latch_release_def spsc_latch_release_def)

lemma latch_ok_new: "2 \<le> unat slots \<Longrightarrow> unat slots dvd 2 ^ 32 \<Longrightarrow> latch_ok (latch_new slots blank)"
  by (simp add: latch_ok_def latch_new_def)

lemma latch_pending_new [simp]: "latch_pending (latch_new slots blank) = None"
  by (simp add: latch_pending_def latch_new_def spsc_latch_peek_def)

lemma pending_stage:
  assumes "latch_ok lp"
  shows "latch_pending (latch_stage v lp) =
    Some (unat (next_index (latch lp)) mod unat (slot_count (latch lp)), v)"
proof -
  have "unat (next_index (latch lp)) mod unat (slot_count (latch lp)) < length (pool lp)"
    using assms by (simp add: latch_ok_def)
  then show ?thesis
    by (simp add: latch_pending_def spsc_latch_peek_def stage_fields [OF assms])
qed

text \<open>Fewer stages than slots leave a slot alone: its number comes back only after a round.\<close>

lemma rotation_distinct:
  assumes "0 < k" and "k < n" shows "(a + k) mod n \<noteq> a mod (n :: nat)"
proof
  assume "(a + k) mod n = a mod n"
  then have "n dvd k"
    using mod_eq_dvd_iff_nat [of a "a + k" n] by simp
  then show False
    using assms nat_dvd_not_less by blast
qed

lemma stages_keep_slot:
  assumes "latch_ok lp" and "Suc (length vs) \<le> unat (slot_count (latch lp))" and "vs \<noteq> []"
    and "held = unat (next_index (latch lp) - 1) mod unat (slot_count (latch lp))"
  shows "pool (fold latch_stage vs lp) ! held = pool lp ! held \<and>
    published (latch (fold latch_stage vs lp)) \<noteq> Some held \<and>
    map_option snd (latch_pending (fold latch_stage vs lp)) = Some (last vs) \<and>
    slot_count (latch (fold latch_stage vs lp)) = slot_count (latch lp) \<and>
    next_index (latch (fold latch_stage vs lp)) = next_index (latch lp) + of_nat (length vs) \<and>
    latch_ok (fold latch_stage vs lp)"
  using assms
proof (induction vs rule: rev_induct)
  case Nil
  then show ?case by simp
next
  case (snoc v vs)
  define lp1 where "lp1 = fold latch_stage vs lp"
  define n where "n = unat (slot_count (latch lp))"
  have before: "pool lp1 ! held = pool lp ! held" "slot_count (latch lp1) = slot_count (latch lp)"
    "next_index (latch lp1) = next_index (latch lp) + of_nat (length vs)" "latch_ok lp1"
    using snoc.IH snoc.prems by (cases "vs = []"; simp add: lp1_def)+
  have n: "length vs + 1 < n" "n dvd 2 ^ 32"
    using snoc.prems by (auto simp: latch_ok_def n_def)
  moreover have "n < 256"
    unfolding n_def by (rule u8_lt)
  ultimately have n: "length vs + 1 < n" "n dvd 2 ^ 32" "length vs + 1 < 256"
    by linarith+
  have "unat (next_index (latch lp1)) mod n = (unat (next_index (latch lp) - 1) + Suc (length vs)) mod n"
  proof -
    have "next_index (latch lp1) = (next_index (latch lp) - 1) + of_nat (Suc (length vs))"
      using before(3) by simp
    moreover have "unat (of_nat (Suc (length vs)) :: u32) = Suc (length vs)"
      using n(3) by (simp add: unat_of_nat take_bit_nat_eq_self del: of_nat_Suc)
    ultimately show ?thesis
      using unat_add_mod_dvd [OF n(2), of "next_index (latch lp) - 1" "of_nat (Suc (length vs))"]
      by (simp only:)
  qed
  then have other: "unat (next_index (latch lp1)) mod n \<noteq> held"
    using rotation_distinct [of "Suc (length vs)" n] n snoc.prems(4) by (simp add: n_def)
  have s: "fold latch_stage (vs @ [v]) lp = latch_stage v lp1"
    by (simp add: lp1_def)
  show ?case
    unfolding s
    using before other pending_stage [OF before(4), of v] stage_fields [OF before(4), of v] latch_ok_stage [OF before(4)]
    by (simp add: n_def)
qed

section \<open>The interface of a latch\<close>

text \<open>What the users of a latch rely on: a staged value is the pending one, releasing what was
  peeked empties the latch, and a value staged in between stays pending.\<close>

locale latest_value =
  fixes ok :: "'s \<Rightarrow> bool"
    and pending :: "'s \<Rightarrow> ('h \<times> 'v) option"
    and stage :: "'v \<Rightarrow> 's \<Rightarrow> 's"
    and release :: "'h \<Rightarrow> 's \<Rightarrow> 's"
  assumes ok_stage: "ok s \<Longrightarrow> ok (stage v s)"
    and ok_release: "ok s \<Longrightarrow> ok (release h s)"
    and staged: "ok s \<Longrightarrow> map_option snd (pending (stage v s)) = Some v"
    and released: "ok s \<Longrightarrow> pending s = Some (h, v) \<Longrightarrow> pending (release h s) = None"
    and republished: "ok s \<Longrightarrow> pending s = Some (h, v) \<Longrightarrow>
      pending (release h (stage w s)) = pending (stage w s)"
begin

text \<open>Values staged one after another: the last one is pending.\<close>

lemma stage_all: "ok s \<Longrightarrow> vs \<noteq> [] \<Longrightarrow> map_option snd (pending (fold stage vs s)) = Some (last vs)"
proof (induction vs arbitrary: s)
  case (Cons v vs)
  then show ?case
    by (cases "vs = []") (simp_all add: staged ok_stage)
qed simp

text \<open>One consumer pass, possibly interrupted by a stage between peek and release: it reads
  the value that was pending and leaves exactly the interrupting one.\<close>

lemma consume_once:
  assumes "ok s" and "pending s = Some (h, v)"
  shows "map_option snd (pending (release h (case interrupt of None \<Rightarrow> s | Some w \<Rightarrow> stage w s))) = interrupt"
  using assms by (cases interrupt) (simp_all add: released republished staged)

end

interpretation slots: latest_value latch_ok latch_pending latch_stage latch_release
proof
  fix lp :: "'v latch_pool" and h v w
  assume ok: "latch_ok lp"
  show "latch_ok (latch_stage v lp)" "latch_ok (latch_release h lp)"
    using ok by (simp_all add: latch_ok_stage latch_ok_release)
  show "map_option snd (latch_pending (latch_stage v lp)) = Some v"
    by (simp add: pending_stage [OF ok])
  assume p: "latch_pending lp = Some (h, v)"
  then have held: "published (latch lp) = Some h" "h = unat (next_index (latch lp) - 1) mod unat (slot_count (latch lp))"
    using ok by (auto simp: latch_pending_def spsc_latch_peek_def latch_ok_def)
  show "latch_pending (latch_release h lp) = None"
    using held by (simp add: latch_pending_def latch_release_def spsc_latch_release_def spsc_latch_peek_def)
  have "published (latch (fold latch_stage [w] lp)) \<noteq> Some h"
    using stages_keep_slot [OF ok _ _ held(2), of "[w]"] ok by (auto simp: latch_ok_def)
  then show "latch_pending (latch_release h (latch_stage w lp)) = latch_pending (latch_stage w lp)"
    by (simp add: latch_pending_def latch_release_def spsc_latch_release_def spsc_latch_peek_def)
qed

section \<open>Every interleaving of a producer and a consumer\<close>

text \<open>The calls one by one: the producer claims a slot, fills it and publishes it, the consumer
  peeks and releases, and any call may come between two of the other side. The last three fields
  are history: the slots claimed so far, the number and value of the newest publication and the
  number of the publication peeked.\<close>

record 'v latch_run =
  run_pool :: "'v latch_pool"
  claimed_slot :: "nat option"
  peeked_slot :: "(nat \<times> 'v) option"
  claims :: nat
  newest :: "(nat \<times> 'v) option"
  peeked_number :: nat

datatype 'v latch_call = Claim_slot | Fill_slot 'v | Publish_slot | Peek_slot | Release_slot

definition latch_call_step :: "'v latch_call \<Rightarrow> 'v latch_run \<Rightarrow> 'v latch_run" where
  "latch_call_step call r =
     (let lp = run_pool r
      in case call of
           Claim_slot \<Rightarrow>
             if claimed_slot r \<noteq> None then r
             else let (l, slot) = spsc_latch_claim (latch lp)
                  in r\<lparr>run_pool := lp\<lparr>latch := l\<rparr>, claimed_slot := Some slot, claims := claims r + 1\<rparr>
         | Fill_slot v \<Rightarrow>
             (case claimed_slot r of None \<Rightarrow> r
              | Some slot \<Rightarrow> r\<lparr>run_pool := lp\<lparr>pool := (pool lp)[slot := v]\<rparr>\<rparr>)
         | Publish_slot \<Rightarrow>
             (case claimed_slot r of None \<Rightarrow> r
              | Some slot \<Rightarrow> r\<lparr>run_pool := lp\<lparr>latch := spsc_latch_publish slot (latch lp)\<rparr>, claimed_slot := None,
                  newest := Some (claims r - 1, pool lp ! slot)\<rparr>)
         | Peek_slot \<Rightarrow> r\<lparr>peeked_slot := latch_pending lp,
             peeked_number := (case newest r of None \<Rightarrow> 0 | Some (number, v) \<Rightarrow> number)\<rparr>
         | Release_slot \<Rightarrow>
             (case peeked_slot r of None \<Rightarrow> r
              | Some (slot, v) \<Rightarrow> r\<lparr>run_pool := latch_release slot lp, peeked_slot := None\<rparr>))"

definition latch_run_start :: "u8 \<Rightarrow> 'v \<Rightarrow> 'v latch_run" where
  "latch_run_start slots blank = \<lparr>run_pool = latch_new slots blank, claimed_slot = None, peeked_slot = None, claims = 0,
     newest = None, peeked_number = 0\<rparr>"

text \<open>\<^const>\<open>latch_stage\<close> is the producer's three calls with nothing in between.\<close>

lemma latch_stage_calls:
  "claimed_slot r = None \<Longrightarrow>
   run_pool (fold latch_call_step [Claim_slot, Fill_slot v, Publish_slot] r) = latch_stage v (run_pool r)"
  by (simp add: latch_call_step_def Let_def latch_stage_def spsc_latch_claim_def spsc_latch_publish_def)

definition latch_run_ok :: "nat \<Rightarrow> 'v latch_run \<Rightarrow> bool" where
  "latch_run_ok n r \<longleftrightarrow>
     unat (slot_count (latch (run_pool r))) = n \<and> length (pool (run_pool r)) = n \<and>
     next_index (latch (run_pool r)) = of_nat (claims r) \<and>
     (\<forall>slot. claimed_slot r = Some slot \<longrightarrow> 0 < claims r \<and> slot = (claims r - 1) mod n) \<and>
     (\<forall>number v. newest r = Some (number, v) \<longrightarrow>
        claims r = number + (if claimed_slot r = None then 1 else 2) \<and> pool (run_pool r) ! (number mod n) = v) \<and>
     (\<forall>slot. published (latch (run_pool r)) = Some slot \<longrightarrow>
        (\<exists>number v. newest r = Some (number, v) \<and> slot = number mod n)) \<and>
     (\<forall>slot v. peeked_slot r = Some (slot, v) \<longrightarrow> slot = peeked_number r mod n \<and>
        (\<exists>number w. newest r = Some (number, w) \<and> peeked_number r \<le> number \<and>
           published (latch (run_pool r)) = Some (number mod n)) \<and>
        (claims r \<le> peeked_number r + n \<longrightarrow> pool (run_pool r) ! slot = v))"

lemma latch_run_peeked:
  assumes "latch_run_ok n r" and "peeked_slot r = Some (slot, v)"
  obtains number w where "slot = peeked_number r mod n" "newest r = Some (number, w)" "peeked_number r \<le> number"
    "published (latch (run_pool r)) = Some (number mod n)" "claims r = number + (if claimed_slot r = None then 1 else 2)"
    "pool (run_pool r) ! (number mod n) = w" "claims r \<le> peeked_number r + n \<Longrightarrow> pool (run_pool r) ! slot = v"
proof -
  have peek: "slot = peeked_number r mod n" "\<exists>number w. newest r = Some (number, w) \<and> peeked_number r \<le> number \<and>
      published (latch (run_pool r)) = Some (number mod n)"
      "claims r \<le> peeked_number r + n \<longrightarrow> pool (run_pool r) ! slot = v"
    using assms unfolding latch_run_ok_def by blast+
  then obtain number w where number: "newest r = Some (number, w)" "peeked_number r \<le> number"
      "published (latch (run_pool r)) = Some (number mod n)" by blast
  then have "claims r = number + (if claimed_slot r = None then 1 else 2)" "pool (run_pool r) ! (number mod n) = w"
    using assms(1) unfolding latch_run_ok_def by blast+
  then show ?thesis using that peek(1,3) number by blast
qed

lemma mod_apart:
  assumes "a < b" "b < a + n" shows "a mod n \<noteq> b mod (n :: nat)"
  using rotation_distinct [of "b - a" n a] assms less_diff_conv2 [of a b n] by (simp add: add.commute)

lemma claim_index:
  "n dvd 2 ^ 32 \<Longrightarrow> unat (of_nat k :: u32) mod n = k mod n"
  by (simp add: unat_of_nat take_bit_eq_mod mod_mod_cancel)

lemma latch_run_ok_start: "latch_run_ok (unat slots) (latch_run_start slots blank)"
  by (simp add: latch_run_ok_def latch_run_start_def latch_new_def)

lemma latch_run_ok_step:
  assumes ok: "latch_run_ok n r" and n: "2 \<le> n" "n dvd 2 ^ 32"
  shows "latch_run_ok n (latch_call_step call r)"
proof (cases call)
  case Claim_slot
  show ?thesis
  proof (cases "claimed_slot r")
    case None
    then show ?thesis
      using ok n by (auto simp: Claim_slot latch_call_step_def Let_def spsc_latch_claim_def latch_run_ok_def claim_index)
  qed (use ok in \<open>simp add: Claim_slot latch_call_step_def Let_def\<close>)
next
  case (Fill_slot v)
  show ?thesis
  proof (cases "claimed_slot r")
    case (Some slot)
    have slot: "0 < claims r" "slot = (claims r - 1) mod n"
      using ok Some by (auto simp: latch_run_ok_def)
    have new: "slot \<noteq> number mod n" if "newest r = Some (number, w)" for number w
      using ok Some that n mod_apart [of number "number + 1" n] by (auto simp: latch_run_ok_def slot(2))
    have old: "slot \<noteq> peeked_number r mod n" 
      if peeked: "peeked_slot r = Some (s, w)" and few: "claims r \<le> peeked_number r + n" for s w
    proof -
      obtain number where "peeked_number r \<le> number" "claims r = number + 2"
        by (rule latch_run_peeked [OF ok peeked]) (simp add: Some)
      then show ?thesis
        using mod_apart [of "peeked_number r" "claims r - 1" n] few by (simp add: slot(2))
    qed
    show ?thesis
      using ok new old by (simp add: Fill_slot latch_call_step_def Let_def Some latch_run_ok_def)
  qed (use ok in \<open>simp add: Fill_slot latch_call_step_def Let_def\<close>)
next
  case Publish_slot
  show ?thesis
  proof (cases "claimed_slot r")
    case (Some slot)
    have slot: "0 < claims r" "slot = (claims r - 1) mod n"
      using ok Some by (auto simp: latch_run_ok_def)
    show ?thesis
      using ok slot by (auto simp: Publish_slot latch_call_step_def Let_def Some latch_run_ok_def spsc_latch_publish_def)
  qed (use ok in \<open>simp add: Publish_slot latch_call_step_def Let_def\<close>)
next
  case Peek_slot
  show ?thesis
    using ok by (auto simp: Peek_slot latch_call_step_def Let_def latch_run_ok_def latch_pending_def spsc_latch_peek_def)
next
  case Release_slot
  then show ?thesis
    using ok by (auto simp: latch_call_step_def Let_def latch_run_ok_def latch_release_def spsc_latch_release_def
        split: option.splits)
qed



text \<open>The bound is sharp: with as many claims as slots the slot peeked comes round, is published again
  under the consumer, and the release takes it for the value peeked and drops it.\<close>

lemma latch_slot_reused:
  defines "r \<equiv> fold latch_call_step [Claim_slot, Fill_slot 7, Publish_slot, Peek_slot, Claim_slot, Fill_slot 8, Publish_slot,
     Claim_slot, Fill_slot 9, Publish_slot] (latch_run_start 2 (0 :: nat))"
  shows "peeked_slot r = Some (0, 7)" "pool (run_pool r) ! 0 = 9" "newest r = Some (2, 9)"
    "latch_pending (run_pool (latch_call_step Release_slot r)) = None"
  unfolding r_def by code_simp+

end
