(* ===== verification/Hop_Peripheral.thy ===== *)
theory Hop_Peripheral
  imports Hop Latch Peripheral
begin

text \<open>
  The peripheral's hop engine (\<open>src/hop_peripheral.c\<close>): adopting the central's epoch
  and mask, leaving a degrading channel, sweeping the pool while the link is lost, the state
  kept over a reboot, and the grading of transmit results. The keepalive work and each radio
  event are steps on the record of the file's static variables; the HID state word and the
  mismatch flag a beacon sets are the \<open>peripheral\<close> record of the device.
\<close>

section \<open>State\<close>

record hop_peripheral_config =
  channel_pool :: hop_pool
  hop_threshold :: u16
  self_pipe :: nat
  self_is_relay :: bool
  retransmit_ceiling_max :: u8
  hop_window_ms :: u16
  idle_keepalive_ms :: u16
  relay_poll_ms :: nat
  wire_relay_pipe :: "nat option"

definition ADAPTIVE_RETRANSMITS_MIN :: u8 where "ADAPTIVE_RETRANSMITS_MIN = 2"
definition HOP_RETAINED_MAGIC :: u32 where "HOP_RETAINED_MAGIC = 0x484F5031"
definition STAGED_MASK_SLOTS :: u8 where "STAGED_MASK_SLOTS = 2"
definition PEER_RSSI_SHIFT :: nat where "PEER_RSSI_SHIFT = 8"

text \<open>\<open>DIV_ROUND_UP(idle-keepalive-ms, hop-window-ms) + 2\<close>.\<close>

definition ESB_HOP_SWEEP_DWELL_WINDOWS :: "hop_peripheral_config \<Rightarrow> nat" where
  "ESB_HOP_SWEEP_DWELL_WINDOWS config =
     (unat (idle_keepalive_ms config) + unat (hop_window_ms config) - 1) div unat (hop_window_ms config) + 2"

record hop_retained =
  magic :: u32
  retained_index :: u8
  retained_epoch :: u8
  retained_mask :: bytes
  checksum :: u8

record hop_peripheral =
  tuned :: tuner
  retransmit_ceiling :: u8
  attempts_ewma_x10 :: u16
  max_tx_attempts :: u8
  window_attempts_sum :: u32
  window_packets :: u32
  window_noack_packets :: u32
  data_sent_since_tick :: bool
  tx_succeeded_since_tick :: bool
  tx_failed_since_tick :: bool
  noack_sent_since_tick :: bool
  link_acked :: bool
  beacon_epoch :: u8
  bad_windows :: u8
  sweep_windows :: u16
  degrade_undo_index :: u8
  degrade_undo_armed :: bool
  adopted_epoch :: u8
  uplink_rssi_dbm :: i8
  active_mask :: bytes
  mask_ready :: bool
  staged_mask :: "bytes latch_pool"
  peer_table :: "u16 list"
  retained_link :: hop_retained

text \<open>\<open>retained\<close> is what the memory that survives a reset holds.\<close>

definition hop_peripheral_boot :: "hop_peripheral_config \<Rightarrow> hop_retained \<Rightarrow> hop_peripheral" where
  "hop_peripheral_boot config retained =
     (let blank = replicate (ESB_HOP_MASK_BYTES (channel_pool config)) 0
      in \<lparr>tuned = tuner_boot, retransmit_ceiling = retransmit_ceiling_max config, attempts_ewma_x10 = 10,
          max_tx_attempts = 0, window_attempts_sum = 0, window_packets = 0, window_noack_packets = 0,
          data_sent_since_tick = False, tx_succeeded_since_tick = False, tx_failed_since_tick = False,
          noack_sent_since_tick = False, link_acked = False, beacon_epoch = 0, bad_windows = 0,
          sweep_windows = 0, degrade_undo_index = 0, degrade_undo_armed = False, adopted_epoch = 0,
          uplink_rssi_dbm = 0, active_mask = blank, mask_ready = False,
          staged_mask = latch_new STAGED_MASK_SLOTS blank,
          peer_table = replicate (beacon_peer_count (channel_pool config)) 0, retained_link = retained\<rparr>)"

datatype hop_link_call =
    Radio "radio_call list"
  | Set_retransmit_count u8
  | Apply_pending
  | Send_keepalive u8
  | Send_relay_poll
  | Reschedule_keepalive nat
  | Reschedule_relay_poll nat
  | Cancel_keepalive
  | Cancel_relay_poll

section \<open>The peer table\<close>

definition peer_pack :: "u8 \<Rightarrow> i8 \<Rightarrow> u16" where
  "peer_pack battery rssi_dbm = ucast battery OR push_bit PEER_RSSI_SHIFT (ucast rssi_dbm)"

definition peer_unpack_battery :: "u16 \<Rightarrow> u8" where
  "peer_unpack_battery entry = ucast entry"

definition peer_unpack_rssi_dbm :: "u16 \<Rightarrow> i8" where
  "peer_unpack_rssi_dbm entry = ucast (drop_bit PEER_RSSI_SHIFT entry)"

section \<open>Masks and the retained state\<close>

definition ensure_mask :: "hop_peripheral_config \<Rightarrow> hop_peripheral \<Rightarrow> hop_peripheral" where
  "ensure_mask config hp =
     (if mask_ready hp then hp
      else hp\<lparr>active_mask := fold (\<lambda>channel m. hop_policy_mask_set m channel True)
                [0..<HOP_COUNT (channel_pool config)] (active_mask hp),
              mask_ready := True\<rparr>)"

definition retained_checksum :: "hop_retained \<Rightarrow> u8" where
  "retained_checksum retained =
     fold (\<lambda>byte sum. sum XOR byte) (retained_mask retained) (retained_index retained XOR retained_epoch retained)"

definition retain_link_state :: "hop_peripheral \<Rightarrow> hop_peripheral" where
  "retain_link_state hp =
     (let retained = (retained_link hp)\<lparr>retained_index := hop_index (tuned hp), retained_epoch := adopted_epoch hp,
            retained_mask := active_mask hp\<rparr>
      in hp\<lparr>retained_link := retained\<lparr>checksum := retained_checksum retained, magic := HOP_RETAINED_MAGIC\<rparr>\<rparr>)"

definition hop_restore :: "hop_peripheral_config \<Rightarrow> hop_peripheral \<Rightarrow> hop_peripheral" where
  "hop_restore config hp =
     (let n = HOP_COUNT (channel_pool config); retained = retained_link hp
      in if n \<le> 1 then hp
         else if magic retained \<noteq> HOP_RETAINED_MAGIC \<or> checksum retained \<noteq> retained_checksum retained
                 \<or> unat (retained_index retained) \<ge> n then hp
         else
           let hp = ensure_mask config hp
           in hp\<lparr>active_mask := retained_mask retained, adopted_epoch := retained_epoch retained,
                 beacon_epoch := retained_epoch retained,
                 tuned := (tuned hp)\<lparr>hop_index := retained_index retained\<rparr>\<rparr>)"

definition adopt_staged_mask :: "hop_peripheral \<Rightarrow> hop_peripheral" where
  "adopt_staged_mask hp =
     (case latch_pending (staged_mask hp) of
        None \<Rightarrow> hp
      | Some (slot, mask_bytes) \<Rightarrow>
          hp\<lparr>active_mask := mask_bytes, staged_mask := latch_release slot (staged_mask hp)\<rparr>)"

section \<open>The keepalive window\<close>

definition clear_window_attempts :: "hop_peripheral \<Rightarrow> hop_peripheral" where
  "clear_window_attempts hp =
     hp\<lparr>max_tx_attempts := 0, window_attempts_sum := 0, window_packets := 0, window_noack_packets := 0\<rparr>"

text \<open>Tuning to an index; \<open>set_error\<close> is the radio's answer.\<close>

definition tune_to :: "hop_peripheral_config \<Rightarrow> status \<Rightarrow> u8 \<Rightarrow> hop_peripheral \<Rightarrow> hop_peripheral \<times> hop_link_call list" where
  "tune_to config set_error index hp =
     (let (t, calls) = apply_hop_channel (channel_pool config) False set_error ((tuned hp)\<lparr>hop_index := index\<rparr>)
      in (hp\<lparr>tuned := t\<rparr>, [Radio calls]))"

definition adopt_epoch :: "hop_peripheral_config \<Rightarrow> status \<Rightarrow> u8 \<Rightarrow> hop_peripheral \<Rightarrow> hop_peripheral \<times> hop_link_call list" where
  "adopt_epoch config set_error epoch hp =
     (let hp = adopt_staged_mask (hp\<lparr>adopted_epoch := epoch\<rparr>);
          (hp, calls) = tune_to config set_error
            (hop_policy_channel_for_epoch_masked (ucast epoch) (active_mask hp) (HOP_COUNT (channel_pool config))) hp;
          hp = hp\<lparr>bad_windows := 0, sweep_windows := 0, degrade_undo_armed := False, attempts_ewma_x10 := 10\<rparr>
      in (clear_window_attempts hp, calls))"

definition connected_window :: "hop_peripheral_config \<Rightarrow> status \<Rightarrow> hop_peripheral \<Rightarrow> hop_peripheral \<times> hop_link_call list" where
  "connected_window config set_error hp =
     (let hp = hp\<lparr>sweep_windows := 0, degrade_undo_armed := False\<rparr>;
          worst_attempts = max_tx_attempts hp;
          attempts_sum = window_attempts_sum hp;
          packets = window_packets hp;
          noack_packets = window_noack_packets hp;
          hp = clear_window_attempts hp;
          hp = (if worst_attempts > 0
                then hp\<lparr>attempts_ewma_x10 := hop_policy_ewma_update (attempts_ewma_x10 hp) worst_attempts\<rparr> else hp);
          typical_attempts = hop_policy_acked_window_attempts attempts_sum packets noack_packets;
          penalty = hop_policy_attempts_penalty typical_attempts HOP_POLICY_GOOD_TX_ATTEMPTS;
          (hop, bad) = hop_policy_should_hop (bad_windows hp) penalty (hop_threshold config);
          hp = hp\<lparr>bad_windows := bad\<rparr>
      in if hop then
           tune_to config set_error
             (hop_policy_index_next_active (hop_index (tuned hp)) (active_mask hp) (HOP_COUNT (channel_pool config)))
             (hp\<lparr>degrade_undo_index := hop_index (tuned hp), degrade_undo_armed := True\<rparr>)
         else (hp, []))"

definition lost_window :: "hop_peripheral_config \<Rightarrow> status \<Rightarrow> hop_peripheral \<Rightarrow> hop_peripheral \<times> hop_link_call list" where
  "lost_window config set_error hp =
     (let hp = clear_window_attempts hp;
          hp = hp\<lparr>bad_windows := 0,
                  sweep_windows := of_nat ((unat (sweep_windows hp) + 1) mod ESB_HOP_SWEEP_DWELL_WINDOWS config)\<rparr>
      in if degrade_undo_armed hp then
           tune_to config set_error (degrade_undo_index hp) (hp\<lparr>degrade_undo_armed := False\<rparr>)
         else if sweep_windows hp = 0 then
           tune_to config set_error (hop_policy_index_next (hop_index (tuned hp)) (HOP_COUNT (channel_pool config))) hp
         else (hp, []))"

definition retransmit_budget :: "hop_peripheral_config \<Rightarrow> hop_peripheral \<Rightarrow> u8" where
  "retransmit_budget config hp =
     (let ceiling = retransmit_ceiling hp
      in if HOP_COUNT (channel_pool config) \<le> 1 then ceiling
         else hop_policy_adaptive_retransmits (attempts_ewma_x10 hp) (min ADAPTIVE_RETRANSMITS_MIN ceiling) ceiling)"

definition settle_link_state :: "hop_peripheral \<Rightarrow> hop_peripheral" where
  "settle_link_state hp =
     (let failed = tx_failed_since_tick hp; succeeded = tx_succeeded_since_tick hp;
          noack_sent = noack_sent_since_tick hp;
          hp = hp\<lparr>tx_failed_since_tick := False, tx_succeeded_since_tick := False, noack_sent_since_tick := False\<rparr>;
          ack_proven = (succeeded \<and> \<not> noack_sent)
      in if failed \<and> \<not> ack_proven then hp\<lparr>link_acked := False\<rparr>
         else if succeeded then hp\<lparr>link_acked := True\<rparr>
         else hp)"

definition keepalive_work_fn :: "hop_peripheral_config \<Rightarrow> status \<Rightarrow> hop_peripheral \<Rightarrow> hop_peripheral \<times> hop_link_call list" where
  "keepalive_work_fn config set_error hp =
     (let hp = settle_link_state hp;
          (hp, hops) =
            (if HOP_COUNT (channel_pool config) > 1 then
               let hp = ensure_mask config hp; epoch = beacon_epoch hp;
                   (hp, calls) =
                     (if epoch \<noteq> adopted_epoch hp then adopt_epoch config set_error epoch hp
                      else if link_acked hp then connected_window config set_error hp
                      else lost_window config set_error hp)
               in (if link_acked hp then retain_link_state hp else hp, calls)
             else (hp, []));
          budget = retransmit_budget config hp;
          active = data_sent_since_tick hp;
          hp = hp\<lparr>data_sent_since_tick := False\<rparr>;
          searching = (\<not> link_acked hp);
          period_ms = (if active \<or> searching then hop_window_ms config else idle_keepalive_ms config)
      in (hp, hops @ [Set_retransmit_count budget, Apply_pending,
                      Send_keepalive (esb_keepalive_peripheral_state active searching),
                      Reschedule_keepalive (unat period_ms)]))"

definition relay_poll_work_fn :: "hop_peripheral_config \<Rightarrow> hop_link_call list" where
  "relay_poll_work_fn config = [Send_relay_poll, Reschedule_relay_poll (relay_poll_ms config)]"

definition hop_start :: "hop_peripheral_config \<Rightarrow> hop_link_call list" where
  "hop_start config =
     Reschedule_keepalive (unat (hop_window_ms config)) #
     (if self_is_relay config then [Reschedule_relay_poll (relay_poll_ms config)] else [])"

definition hop_stop :: "hop_link_call list" where
  "hop_stop = [Cancel_keepalive, Cancel_relay_poll]"

section \<open>Reception\<close>

text \<open>\<open>p\<close> is the device's \<open>peripheral\<close> record.\<close>

definition consume_beacon ::
  "hop_peripheral_config \<Rightarrow> bytes \<Rightarrow> hop_peripheral \<Rightarrow> peripheral \<Rightarrow> hop_peripheral \<times> peripheral" where
  "consume_beacon config data hp p =
     (if length data \<noteq> ESB_BEACON_LENGTH (channel_pool config) then (hp, fst (peripheral_note_config_mismatch p))
      else
        let beacon = beacon_of_bytes (channel_pool config) data;
            hp = hp\<lparr>beacon_epoch := beacon_epoch_of beacon,
                    uplink_rssi_dbm := peer_rssi_dbm (beacon_peers beacon ! self_pipe config)\<rparr>;
            p = peripheral_hid_state_store (beacon_modifiers beacon) (beacon_indicators beacon) p
        in (hp\<lparr>peer_table := map (\<lambda>peer. peer_pack (peer_battery peer) (peer_rssi_dbm peer)) (beacon_peers beacon)\<rparr>, p))"

definition consume_mask_update ::
  "hop_peripheral_config \<Rightarrow> bytes \<Rightarrow> hop_peripheral \<Rightarrow> peripheral \<Rightarrow> hop_peripheral \<times> peripheral" where
  "consume_mask_update config data hp p =
     (if length data \<noteq> ESB_MASK_UPDATE_LENGTH (channel_pool config) then (hp, fst (peripheral_note_config_mismatch p))
      else (hp\<lparr>staged_mask := latch_stage (take (ESB_HOP_MASK_BYTES (channel_pool config)) (drop 1 data)) (staged_mask hp)\<rparr>, p))"

definition hop_consume_rx ::
  "hop_peripheral_config \<Rightarrow> nat \<Rightarrow> bytes \<Rightarrow> hop_peripheral \<Rightarrow> peripheral \<Rightarrow> hop_peripheral \<times> peripheral \<times> bool" where
  "hop_consume_rx config pipe data hp p =
     (if esb_has_beacon_tag data (of_nat (length data)) then
        let (hp, p) = consume_beacon config data hp p in (hp, p, wire_relay_pipe config \<noteq> Some pipe)
      else if HOP_COUNT (channel_pool config) \<le> 1 then (hp, p, False)
      else if esb_has_mask_update_tag data (of_nat (length data)) then
        let (hp, p) = consume_mask_update config data hp p in (hp, p, True)
      else (hp, p, False))"

section \<open>Transmit results\<close>

text \<open>The compare-and-swap loop keeps the larger of the two.\<close>

definition record_tx_attempts :: "u8 \<Rightarrow> hop_peripheral \<Rightarrow> hop_peripheral" where
  "record_tx_attempts attempts hp =
     (if max_tx_attempts hp < attempts then hp\<lparr>max_tx_attempts := attempts\<rparr> else hp)"

definition hop_note_tx_success :: "hop_peripheral_config \<Rightarrow> u8 \<Rightarrow> hop_peripheral \<Rightarrow> hop_peripheral" where
  "hop_note_tx_success config attempts hp =
     (let hp = hp\<lparr>tx_succeeded_since_tick := True\<rparr>
      in if HOP_COUNT (channel_pool config) > 1 then
           (record_tx_attempts attempts hp)\<lparr>window_attempts_sum := window_attempts_sum hp + ucast attempts,
              window_packets := window_packets hp + 1\<rparr>
         else hp)"

definition hop_note_tx_failed :: "hop_peripheral_config \<Rightarrow> hop_peripheral \<Rightarrow> hop_peripheral" where
  "hop_note_tx_failed config hp =
     (let hp = hp\<lparr>tx_failed_since_tick := True, tx_succeeded_since_tick := False\<rparr>
      in if HOP_COUNT (channel_pool config) > 1 then record_tx_attempts 0xFF hp else hp)"

definition hop_note_noack_sent :: "hop_peripheral_config \<Rightarrow> hop_peripheral \<Rightarrow> hop_peripheral" where
  "hop_note_noack_sent config hp =
     (let hp = hp\<lparr>noack_sent_since_tick := True\<rparr>
      in if HOP_COUNT (channel_pool config) > 1 then hp\<lparr>window_noack_packets := window_noack_packets hp + 1\<rparr> else hp)"

text \<open>\<open>remaining_ms\<close> is the time the keepalive work still has to wait.\<close>

definition hop_note_data_sent ::
  "hop_peripheral_config \<Rightarrow> nat \<Rightarrow> hop_peripheral \<Rightarrow> hop_peripheral \<times> hop_link_call list" where
  "hop_note_data_sent config remaining_ms hp =
     (hp\<lparr>data_sent_since_tick := True\<rparr>,
      if remaining_ms > unat (hop_window_ms config) then [Reschedule_keepalive (unat (hop_window_ms config))] else [])"

definition hop_set_retransmit_ceiling ::
  "hop_peripheral_config \<Rightarrow> u32 \<Rightarrow> hop_peripheral \<Rightarrow> hop_peripheral \<times> status" where
  "hop_set_retransmit_ceiling config ceiling hp =
     (if ceiling > ucast (retransmit_ceiling_max config) then (hp, Err EINVAL)
      else (hp\<lparr>retransmit_ceiling := ucast ceiling\<rparr>, Ok))"

section \<open>Status\<close>

definition hop_link_cost_x10 :: "hop_peripheral \<Rightarrow> u8" where
  "hop_link_cost_x10 hp = ucast (min (attempts_ewma_x10 hp) 255)"

definition hop_link_acked :: "hop_peripheral \<Rightarrow> bool" where
  "hop_link_acked hp = link_acked hp"

text \<open>\<open>mismatched\<close> is what \<open>peripheral_config_mismatched\<close> answers.\<close>

definition zmk_split_esb_get_status :: "hop_peripheral_config \<Rightarrow> bool \<Rightarrow> hop_peripheral \<Rightarrow> zmk_split_esb_status" where
  "zmk_split_esb_get_status config mismatched hp =
     \<lparr>status_channel = hop_current_channel (channel_pool config) (tuned hp), status_epoch = adopted_epoch hp,
      status_searching = (\<not> link_acked hp), status_rssi_dbm = uplink_rssi_dbm hp,
      status_attempts_ewma_x10 = attempts_ewma_x10 hp, status_config_mismatch = mismatched\<rparr>"

definition zmk_split_esb_pipe_count :: u8 where
  "zmk_split_esb_pipe_count = 1"

definition zmk_split_esb_pipe_rssi_dbm :: "nat \<Rightarrow> hop_peripheral \<Rightarrow> i8" where
  "zmk_split_esb_pipe_rssi_dbm pipe hp = (if pipe \<ge> 1 then 0 else uplink_rssi_dbm hp)"

definition zmk_split_esb_peer_battery :: "hop_peripheral_config \<Rightarrow> nat \<Rightarrow> hop_peripheral \<Rightarrow> u8" where
  "zmk_split_esb_peer_battery config pipe hp =
     (if pipe \<ge> beacon_peer_count (channel_pool config) then ESB_KEEPALIVE_BATTERY_UNKNOWN
      else peer_unpack_battery (peer_table hp ! pipe))"

definition zmk_split_esb_peer_rssi_dbm :: "hop_peripheral_config \<Rightarrow> nat \<Rightarrow> hop_peripheral \<Rightarrow> i8" where
  "zmk_split_esb_peer_rssi_dbm config pipe hp =
     (if pipe \<ge> beacon_peer_count (channel_pool config) then 0 else peer_unpack_rssi_dbm (peer_table hp ! pipe))"

section \<open>The sweep\<close>

lemma tune_to_fields [simp]:
  "hop_index (tuned (fst (tune_to config set_error index hp))) = index"
  "link_acked (fst (tune_to config set_error index hp)) = link_acked hp"
  "beacon_epoch (fst (tune_to config set_error index hp)) = beacon_epoch hp"
  "adopted_epoch (fst (tune_to config set_error index hp)) = adopted_epoch hp"
  "degrade_undo_armed (fst (tune_to config set_error index hp)) = degrade_undo_armed hp"
  "degrade_undo_index (fst (tune_to config set_error index hp)) = degrade_undo_index hp"
  "sweep_windows (fst (tune_to config set_error index hp)) = sweep_windows hp"
  "tx_succeeded_since_tick (fst (tune_to config set_error index hp)) = tx_succeeded_since_tick hp"
  "active_mask (fst (tune_to config set_error index hp)) = active_mask hp"
  "mask_ready (fst (tune_to config set_error index hp)) = mask_ready hp"
  "staged_mask (fst (tune_to config set_error index hp)) = staged_mask hp"
  by (simp_all add: tune_to_def split_beta)

lemma ensure_mask_fields [simp]:
  "tuned (ensure_mask config hp) = tuned hp" "link_acked (ensure_mask config hp) = link_acked hp"
  "beacon_epoch (ensure_mask config hp) = beacon_epoch hp" "adopted_epoch (ensure_mask config hp) = adopted_epoch hp"
  "degrade_undo_armed (ensure_mask config hp) = degrade_undo_armed hp"
  "sweep_windows (ensure_mask config hp) = sweep_windows hp"
  "tx_succeeded_since_tick (ensure_mask config hp) = tx_succeeded_since_tick hp"
  "staged_mask (ensure_mask config hp) = staged_mask hp"
  by (simp_all add: ensure_mask_def)

lemma retain_fields [simp]:
  "tuned (retain_link_state hp) = tuned hp" "link_acked (retain_link_state hp) = link_acked hp"
  "active_mask (retain_link_state hp) = active_mask hp" "adopted_epoch (retain_link_state hp) = adopted_epoch hp"
  by (simp_all add: retain_link_state_def Let_def)

text \<open>What happens while the link is lost: windows end, packets fail, others leave without ACK.\<close>

datatype lost_event = Window status | Tx_failed | Noack_sent | Data_sent nat

definition lost_step :: "hop_peripheral_config \<Rightarrow> lost_event \<Rightarrow> hop_peripheral \<Rightarrow> hop_peripheral" where
  "lost_step config event hp =
     (case event of
        Window set_error \<Rightarrow> fst (keepalive_work_fn config set_error hp)
      | Tx_failed \<Rightarrow> hop_note_tx_failed config hp
      | Noack_sent \<Rightarrow> hop_note_noack_sent config hp
      | Data_sent remaining_ms \<Rightarrow> fst (hop_note_data_sent config remaining_ms hp))"

definition is_window :: "lost_event \<Rightarrow> bool" where
  "is_window event \<longleftrightarrow> (case event of Window _ \<Rightarrow> True | _ \<Rightarrow> False)"

definition windows_in :: "lost_event list \<Rightarrow> nat" where
  "windows_in events = length (filter is_window events)"

definition lost_run :: "hop_peripheral_config \<Rightarrow> lost_event list \<Rightarrow> hop_peripheral \<Rightarrow> hop_peripheral" where
  "lost_run config events hp = fold (lost_step config) events hp"

definition lost_link :: "hop_peripheral \<Rightarrow> bool" where
  "lost_link hp \<longleftrightarrow> \<not> link_acked hp \<and> \<not> tx_succeeded_since_tick hp \<and> beacon_epoch hp = adopted_epoch hp \<and>
     \<not> degrade_undo_armed hp"

text \<open>The channel and the dwell counter after \<open>k\<close> lost windows.\<close>

definition sweep_at :: "hop_peripheral_config \<Rightarrow> nat \<Rightarrow> nat \<Rightarrow> hop_peripheral \<Rightarrow> bool" where
  "sweep_at config start k hp \<longleftrightarrow> lost_link hp \<and>
     unat (sweep_windows hp) = k mod ESB_HOP_SWEEP_DWELL_WINDOWS config \<and>
     unat (hop_index (tuned hp)) = (start + k div ESB_HOP_SWEEP_DWELL_WINDOWS config) mod HOP_COUNT (channel_pool config)"

lemma dwell_pos: "2 \<le> ESB_HOP_SWEEP_DWELL_WINDOWS config"
  by (simp add: ESB_HOP_SWEEP_DWELL_WINDOWS_def)

lemma settle_lost [simp]:
  assumes "lost_link hp"
  shows "lost_link (settle_link_state hp)" "tuned (settle_link_state hp) = tuned hp"
    "sweep_windows (settle_link_state hp) = sweep_windows hp"
  using assms by (simp_all add: settle_link_state_def lost_link_def Let_def)

lemma index_next_unat:
  assumes "0 < n" "n < 255" "unat index < n"
  shows "unat (hop_policy_index_next index n) = (unat index + 1) mod n"
proof -
  have "(unat index + 1) mod n < n" using assms(1) by (rule mod_less_divisor)
  then show ?thesis
    unfolding hop_policy_index_next_def by (rule unat_of_nat_u8 [OF less_trans]) (use assms in simp)
qed

lemma lost_window_sweeps:
  assumes "pool_ok (channel_pool config)" "ESB_HOP_SWEEP_DWELL_WINDOWS config \<le> 65536" "sweep_at config start k hp"
  shows "sweep_at config start (Suc k) (fst (lost_window config set_error hp))"
proof -
  define D where "D = ESB_HOP_SWEEP_DWELL_WINDOWS config"
  define n where "n = HOP_COUNT (channel_pool config)"
  have D: "2 \<le> D" "D \<le> 65536" using dwell_pos assms(2) by (simp_all add: D_def)
  have n: "0 < n" "n < 255" using assms(1) by (auto simp: pool_ok_def n_def)
  have at: "lost_link hp" "unat (sweep_windows hp) = k mod D" "unat (hop_index (tuned hp)) = (start + k div D) mod n"
    using assms(3) by (simp_all add: sweep_at_def D_def n_def)
  have sweep: "(unat (sweep_windows hp) + 1) mod D = Suc k mod D"
    using at(2) by (simp add: mod_simps)
  have "Suc k mod D < 65536" using D mod_less_divisor [of D "Suc k"] by linarith
  then have word: "unat (of_nat (Suc k mod D) :: u16) = Suc k mod D"
    by (simp add: unat_of_nat take_bit_nat_eq_self)
  then have zero: "(of_nat (Suc k mod D) :: u16) = 0 \<longleftrightarrow> Suc k mod D = 0"
    by (simp only: word_unat_eq_iff unat_0)
  have less: "unat (hop_index (tuned hp)) < n" using at(3) n(1) by simp
  show ?thesis
  proof (cases "Suc k mod D = 0")
    case True
    then have "Suc k div D = Suc (k div D)" by (simp add: div_Suc)
    then show ?thesis
      using at(1) True word zero sweep index_next_unat [OF n less] at(3)
      by (simp add: lost_window_def Let_def D_def [symmetric] n_def [symmetric] clear_window_attempts_def
          sweep_at_def lost_link_def mod_simps)
  next
    case False
    then have "Suc k div D = k div D" by (simp add: div_Suc)
    then show ?thesis
      using at(1) False word zero sweep at(3)
      by (simp add: lost_window_def Let_def D_def [symmetric] n_def [symmetric] clear_window_attempts_def
          sweep_at_def lost_link_def)
  qed
qed

lemma keepalive_lost:
  assumes "1 < HOP_COUNT (channel_pool config)" "lost_link hp"
  shows "\<exists>rest. fst (keepalive_work_fn config set_error hp) =
    (fst (lost_window config set_error (ensure_mask config (settle_link_state hp))))\<lparr>data_sent_since_tick := rest\<rparr>"
proof -
  have s: "lost_link (settle_link_state hp)" using assms(2) by simp
  have "\<not> link_acked (fst (lost_window config set_error (ensure_mask config (settle_link_state hp))))"
    using s by (simp add: lost_window_def Let_def lost_link_def clear_window_attempts_def)
  then show ?thesis
    using assms(1) s by (auto simp: keepalive_work_fn_def Let_def split_beta lost_link_def)
qed

lemma lost_step_sweeps:
  assumes "pool_ok (channel_pool config)" "1 < HOP_COUNT (channel_pool config)"
    and "ESB_HOP_SWEEP_DWELL_WINDOWS config \<le> 65536" "sweep_at config start k hp"
  shows "sweep_at config start (if is_window event then Suc k else k) (lost_step config event hp)"
proof (cases event)
  case (Window set_error)
  have lost: "lost_link hp" using assms(4) by (simp add: sweep_at_def)
  then have "sweep_at config start k (ensure_mask config (settle_link_state hp))"
    using assms(4) settle_lost [OF lost] by (simp add: sweep_at_def lost_link_def)
  from lost_window_sweeps [OF assms(1,3) this, of set_error] keepalive_lost [OF assms(2) lost, of set_error]
  show ?thesis by (auto simp: Window lost_step_def is_window_def sweep_at_def lost_link_def)
next
  case Tx_failed
  then show ?thesis using assms(4)
    by (auto simp: lost_step_def is_window_def sweep_at_def lost_link_def hop_note_tx_failed_def record_tx_attempts_def Let_def)
next
  case Noack_sent
  then show ?thesis using assms(4)
    by (auto simp: lost_step_def is_window_def sweep_at_def lost_link_def hop_note_noack_sent_def Let_def)
next
  case (Data_sent ms)
  then show ?thesis using assms(4)
    by (auto simp: lost_step_def is_window_def sweep_at_def lost_link_def hop_note_data_sent_def Let_def)
qed

lemma lost_run_sweeps:
  assumes "pool_ok (channel_pool config)" "1 < HOP_COUNT (channel_pool config)"
    and "ESB_HOP_SWEEP_DWELL_WINDOWS config \<le> 65536" "sweep_at config start 0 hp"
  shows "sweep_at config start (windows_in events) (lost_run config events hp)"
proof (induction events rule: rev_induct)
  case Nil
  then show ?case using assms(4) by (simp add: lost_run_def windows_in_def)
next
  case (snoc event events)
  from lost_step_sweeps [OF assms(1-3) snoc, of event] show ?case
    by (simp add: lost_run_def windows_in_def split: if_splits)
qed

lemma windows_in_prefix: "k \<le> windows_in events \<Longrightarrow> \<exists>j. windows_in (take j events) = k"
proof (induction events rule: rev_induct)
  case (snoc event events)
  show ?case
  proof (cases "k \<le> windows_in events")
    case True
    then obtain j where "windows_in (take j events) = k" using snoc.IH by blast
    then have "windows_in (take (min j (length events)) (events @ [event])) = k" by (auto simp: min_def)
    then show ?thesis by blast
  next
    case False
    then have "windows_in (take (length (events @ [event])) (events @ [event])) = k"
      using snoc.prems by (simp add: windows_in_def split: if_splits)
    then show ?thesis by blast
  qed
qed (simp add: windows_in_def)

text \<open>
  A peripheral that lost the central sweeps the whole pool. As long as the link stays
  lost and no new epoch arrives, whatever packets fail or leave without ACK and whatever the
  radio answers, it dwells \<open>ESB_HOP_SWEEP_DWELL_WINDOWS\<close> windows on a channel, moves to the
  next one, and within one round is tuned to every channel of the pool: the rendezvous needs no
  mask.
\<close>

theorem hop_peripheral_sweep_covers_pool:
  assumes "pool_ok (channel_pool config)" "1 < HOP_COUNT (channel_pool config)"
    and "ESB_HOP_SWEEP_DWELL_WINDOWS config \<le> 65536"
    and "lost_link hp" "sweep_windows hp = 0" "unat (hop_index (tuned hp)) < HOP_COUNT (channel_pool config)"
  shows "unat (hop_index (tuned (lost_run config events hp))) =
      (unat (hop_index (tuned hp)) + windows_in events div ESB_HOP_SWEEP_DWELL_WINDOWS config)
        mod HOP_COUNT (channel_pool config) \<and>
    (\<forall>c < HOP_COUNT (channel_pool config).
      HOP_COUNT (channel_pool config) * ESB_HOP_SWEEP_DWELL_WINDOWS config \<le> windows_in events \<longrightarrow>
      (\<exists>j. unat (hop_index (tuned (lost_run config (take j events) hp))) = c))"
proof -
  define D where "D = ESB_HOP_SWEEP_DWELL_WINDOWS config"
  define n where "n = HOP_COUNT (channel_pool config)"
  have at0: "sweep_at config (unat (hop_index (tuned hp))) 0 hp"
    using assms by (simp add: sweep_at_def)
  note sweep = lost_run_sweeps [OF assms(1-3) at0]
  have "\<exists>j. unat (hop_index (tuned (lost_run config (take j events) hp))) = c"
    if "c < n" "n * D \<le> windows_in events" for c
  proof -
    obtain step where step: "step < n" "(unat (hop_index (tuned hp)) + step) mod n = c"
      using rotation_covers [of n c "unat (hop_index (tuned hp))"] \<open>c < n\<close> by auto
    have "step * D \<le> windows_in events"
      by (rule le_trans [OF mult_le_mono1 that(2)]) (use step in simp)
    then obtain j where "windows_in (take j events) = step * D" using windows_in_prefix by blast
    then show ?thesis
      using sweep [of "take j events"] step dwell_pos [of config]
      by (intro exI [of _ j]) (auto simp: sweep_at_def D_def n_def)
  qed
  then show ?thesis
    using sweep [of events] by (simp add: sweep_at_def D_def n_def)
qed

definition hop_peripheral_config_example :: hop_peripheral_config where
  "hop_peripheral_config_example = \<lparr>channel_pool = \<lparr>hop_channels = [2, 32, 62], hop_anchors = None, beacon_peer_count = 2\<rparr>,
     hop_threshold = 24, self_pipe = 1, self_is_relay = False, retransmit_ceiling_max = 15, hop_window_ms = 8,
     idle_keepalive_ms = 200, relay_poll_ms = 32, wire_relay_pipe = None\<rparr>"

definition blank_retained :: hop_retained where
  "blank_retained = \<lparr>magic = 0, retained_index = 0, retained_epoch = 0, retained_mask = [0], checksum = 0\<rparr>"

lemma hop_peripheral_example_ok:
  "pool_ok (channel_pool hop_peripheral_config_example)" "HOP_COUNT (channel_pool hop_peripheral_config_example) = 3"
  "ESB_HOP_SWEEP_DWELL_WINDOWS hop_peripheral_config_example = 27"
  "lost_link (hop_peripheral_boot hop_peripheral_config_example blank_retained)"
  "sweep_windows (hop_peripheral_boot hop_peripheral_config_example blank_retained) = 0"
  "hop_index (tuned (hop_peripheral_boot hop_peripheral_config_example blank_retained)) = 0"
  by (simp_all add: hop_peripheral_config_example_def pool_ok_def HOP_COUNT_def ESB_HOP_ANCHOR_COUNT_def
      ESB_HOP_SWEEP_DWELL_WINDOWS_def hop_peripheral_boot_def lost_link_def tuner_boot_def Let_def)

lemma hop_peripheral_sweep_covers_pool_witness:
  "hop_index (tuned (lost_run hop_peripheral_config_example (replicate 60 (Window Ok))
     (hop_peripheral_boot hop_peripheral_config_example blank_retained))) = 2"
proof -
  have "windows_in (replicate 60 (Window Ok)) = 60" by (simp add: windows_in_def is_window_def filter_replicate)
  then have "unat (hop_index (tuned (lost_run hop_peripheral_config_example (replicate 60 (Window Ok))
     (hop_peripheral_boot hop_peripheral_config_example blank_retained)))) = 2"
    using hop_peripheral_sweep_covers_pool [of hop_peripheral_config_example
        "hop_peripheral_boot hop_peripheral_config_example blank_retained" "replicate 60 (Window Ok)"]
      hop_peripheral_example_ok by simp
  then show ?thesis by (simp add: word_unat_eq_iff)
qed

section \<open>The retained state\<close>

definition xor_sum :: "bytes \<Rightarrow> u8" where
  "xor_sum bs = fold (\<lambda>byte sum. sum XOR byte) bs 0"

lemma fold_xor: "fold (\<lambda>byte sum. sum XOR byte) bs (a :: u8) = a XOR xor_sum bs"
proof (induction bs arbitrary: a)
  case (Cons b bs)
  have "xor_sum (b # bs) = fold (\<lambda>byte sum. sum XOR byte) bs b"
    by (simp add: xor_sum_def)
  then show ?case
    using Cons.IH [of b] Cons.IH [of "a XOR b"] by (simp add: xor.assoc)
qed (simp add: xor_sum_def)

lemma xor_sum_Cons: "xor_sum (b # bs) = b XOR xor_sum bs"
  using fold_xor [of bs b] by (simp add: xor_sum_def)

lemma xor_swap: "(b :: u8) XOR s = (c XOR s) XOR (c XOR b)"
  by (rule bit_word_eqI) (auto simp: bit_xor_iff)

lemma xor_sum_update:
  "i < length bs \<Longrightarrow> xor_sum (bs[i := b]) = xor_sum bs XOR (bs ! i XOR b)"
proof (induction bs arbitrary: i)
  case (Cons c bs)
  show ?case
  proof (cases i)
    case 0
    show ?thesis by (simp add: 0 xor_sum_Cons) (rule xor_swap)
  next
    case (Suc j)
    then show ?thesis using Cons by (simp add: xor_sum_Cons xor.assoc)
  qed
qed simp

definition retained_data :: "hop_retained \<Rightarrow> bytes" where
  "retained_data retained = retained_index retained # retained_epoch retained # retained_mask retained"

lemma retained_checksum_sum: "retained_checksum retained = xor_sum (retained_data retained)"
  by (simp add: retained_checksum_def retained_data_def fold_xor xor_sum_Cons xor.assoc)

lemma xor_eq_self: "(a :: u8) XOR b = a \<longleftrightarrow> b = 0"
  by (auto simp: bit_eq_iff bit_xor_iff)

lemma xor_eq_zero: "(a :: u8) XOR b = 0 \<longleftrightarrow> a = b"
  by (auto simp: bit_eq_iff bit_xor_iff)

lemma retained_after_retain:
  "retained_link (retain_link_state hp) = \<lparr>magic = HOP_RETAINED_MAGIC, retained_index = hop_index (tuned hp),
     retained_epoch = adopted_epoch hp, retained_mask = active_mask hp,
     checksum = xor_sum (hop_index (tuned hp) # adopted_epoch hp # active_mask hp)\<rparr>"
  by (simp add: retain_link_state_def Let_def retained_checksum_sum retained_data_def)

text \<open>The retained struct as its bytes.\<close>

definition retained_image :: "hop_retained \<Rightarrow> bytes" where
  "retained_image retained = put_le32 (magic retained) @ retained_data retained @ [checksum retained]"

lemma hop_restore_refused:
  assumes "magic retained \<noteq> HOP_RETAINED_MAGIC \<or> checksum retained \<noteq> xor_sum (retained_data retained)"
  shows "hop_restore config (hop_peripheral_boot config retained) = hop_peripheral_boot config retained"
  using assms by (auto simp: hop_restore_def Let_def hop_peripheral_boot_def retained_checksum_sum)

lemma image_corrupted:
  assumes "magic retained = HOP_RETAINED_MAGIC" "checksum retained = xor_sum (retained_data retained)"
    and "i < length (retained_image retained)" "b \<noteq> retained_image retained ! i"
    and "retained_image corrupted = (retained_image retained)[i := b]"
  shows "magic corrupted \<noteq> HOP_RETAINED_MAGIC \<or> checksum corrupted \<noteq> xor_sum (retained_data corrupted)"
proof -
  define n where "n = length (retained_data retained)"
  have "length (retained_image corrupted) = length (retained_image retained)" using assms(5) by simp
  then have n: "length (retained_data corrupted) = n" by (simp add: retained_image_def n_def)
  consider (magic) "i < 4" | (data) j where "i = 4 + j" "j < n" | (sum) "i = 4 + n"
    using assms(3) by (fastforce simp: retained_image_def n_def not_less le_iff_add)
  then show ?thesis
  proof cases
    case magic
    then have "put_le32 (magic corrupted) = (put_le32 (magic retained))[i := b]" "b \<noteq> put_le32 (magic retained) ! i"
      using assms(4,5) by (auto simp: retained_image_def list_update_append nth_append)
    then have "put_le32 (magic corrupted) \<noteq> put_le32 (magic retained)"
      using magic by (metis length_put_le(2) nth_list_update_eq)
    then show ?thesis using assms(1) by auto
  next
    case data
    then have upd: "retained_data corrupted = (retained_data retained)[j := b]" "checksum corrupted = checksum retained"
      and old: "b \<noteq> retained_data retained ! j"
      using assms(4,5) n by (auto simp: retained_image_def list_update_append nth_append n_def)
    have "xor_sum (retained_data retained) XOR (retained_data retained ! j XOR b) \<noteq> xor_sum (retained_data retained)"
      using old by (auto simp: xor_eq_self xor_eq_zero)
    then show ?thesis
      using data(2) assms(2) by (simp add: upd n_def xor_sum_update)
  next
    case sum
    then have "retained_data corrupted = retained_data retained" "checksum corrupted = b" "b \<noteq> checksum retained"
      using assms(4,5) n by (auto simp: retained_image_def list_update_append nth_append n_def)
    then show ?thesis using assms(2) by simp
  qed
qed

text \<open>
  Claim C24: what an acknowledged peripheral retains brings it back, after a reset, to the channel,
  epoch and mask it had; and memory in which any one byte of the retained struct changed, of its
  magic, its index, epoch and mask or its checksum, is refused, the peripheral then starting from
  its boot state.
\<close>

theorem hop_retained_restores:
  assumes "1 < HOP_COUNT (channel_pool config)" "unat (hop_index (tuned hp)) < HOP_COUNT (channel_pool config)"
    and "retained = retained_link (retain_link_state hp)"
    and "restored = hop_restore config (hop_peripheral_boot config retained)"
  shows "hop_index (tuned restored) = hop_index (tuned hp) \<and> adopted_epoch restored = adopted_epoch hp \<and>
    beacon_epoch restored = adopted_epoch hp \<and> active_mask restored = active_mask hp \<and>
    (\<forall>i b corrupted. i < length (retained_image retained) \<longrightarrow> b \<noteq> retained_image retained ! i \<longrightarrow>
      retained_image corrupted = (retained_image retained)[i := b] \<longrightarrow>
      hop_restore config (hop_peripheral_boot config corrupted) = hop_peripheral_boot config corrupted)"
proof -
  have "magic retained = HOP_RETAINED_MAGIC" "checksum retained = xor_sum (retained_data retained)"
    by (simp_all add: assms(3) retained_after_retain retained_data_def)
  note refused = hop_restore_refused [OF image_corrupted [OF this]]
  have "hop_index (tuned restored) = hop_index (tuned hp) \<and> adopted_epoch restored = adopted_epoch hp \<and>
      beacon_epoch restored = adopted_epoch hp \<and> active_mask restored = active_mask hp"
    using assms
    by (simp add: hop_restore_def Let_def retained_after_retain hop_peripheral_boot_def retained_checksum_sum
        retained_data_def)
  with refused show ?thesis by blast
qed

lemma hop_retained_restores_witness:
  "adopted_epoch (hop_restore hop_peripheral_config_example (hop_peripheral_boot hop_peripheral_config_example
     (retained_link (retain_link_state
       ((hop_peripheral_boot hop_peripheral_config_example blank_retained)\<lparr>adopted_epoch := 9, active_mask := [5]\<rparr>))))) = 9"
  using hop_retained_restores [of hop_peripheral_config_example
      "(hop_peripheral_boot hop_peripheral_config_example blank_retained)\<lparr>adopted_epoch := 9, active_mask := [5]\<rparr>",
      OF _ _ refl refl] hop_peripheral_example_ok
  by simp

section \<open>What a window's transmits prove\<close>

datatype tx_event = Tx_done u8 | Tx_lost | Tx_unacked

definition tx_step :: "hop_peripheral_config \<Rightarrow> tx_event \<Rightarrow> hop_peripheral \<Rightarrow> hop_peripheral" where
  "tx_step config event hp =
     (case event of
        Tx_done attempts \<Rightarrow> hop_note_tx_success config attempts hp
      | Tx_lost \<Rightarrow> hop_note_tx_failed config hp
      | Tx_unacked \<Rightarrow> hop_note_noack_sent config hp)"

definition tx_run :: "hop_peripheral_config \<Rightarrow> tx_event list \<Rightarrow> hop_peripheral \<Rightarrow> hop_peripheral" where
  "tx_run config events hp = fold (tx_step config) events hp"

definition is_done :: "tx_event \<Rightarrow> bool" where
  "is_done event \<longleftrightarrow> (case event of Tx_done _ \<Rightarrow> True | _ \<Rightarrow> False)"

definition attempts_of :: "tx_event \<Rightarrow> u32" where
  "attempts_of event = (case event of Tx_done attempts \<Rightarrow> ucast attempts | _ \<Rightarrow> 0)"

text \<open>A transmit that succeeded after the last failure.\<close>

definition done_since_loss :: "tx_event list \<Rightarrow> bool" where
  "done_since_loss events \<longleftrightarrow> (\<exists>before attempts after. events = before @ Tx_done attempts # after \<and> Tx_lost \<notin> set after)"

lemma done_since_loss_snoc:
  "done_since_loss (events @ [event]) \<longleftrightarrow> is_done event \<or> event \<noteq> Tx_lost \<and> done_since_loss events"
proof
  assume "done_since_loss (events @ [event])"
  then obtain before attempts after where "events @ [event] = before @ Tx_done attempts # after" "Tx_lost \<notin> set after"
    by (auto simp: done_since_loss_def)
  then show "is_done event \<or> event \<noteq> Tx_lost \<and> done_since_loss events"
    by (cases after rule: rev_cases) (auto simp: is_done_def done_since_loss_def)
next
  assume "is_done event \<or> event \<noteq> Tx_lost \<and> done_since_loss events"
  then show "done_since_loss (events @ [event])"
  proof
    assume "is_done event"
    then obtain attempts where "event = Tx_done attempts" by (cases event) (auto simp: is_done_def)
    then have "events @ [event] = events @ Tx_done attempts # []" by simp
    then show ?thesis unfolding done_since_loss_def by (metis empty_iff list.set(1))
  next
    assume "event \<noteq> Tx_lost \<and> done_since_loss events"
    then obtain before attempts after where
      "events = before @ Tx_done attempts # after" "Tx_lost \<notin> set after" "event \<noteq> Tx_lost"
      by (auto simp: done_since_loss_def)
    then have "events @ [event] = before @ Tx_done attempts # (after @ [event])" "Tx_lost \<notin> set (after @ [event])"
      by auto
    then show ?thesis unfolding done_since_loss_def by blast
  qed
qed

lemma tx_run_spec:
  assumes "1 < HOP_COUNT (channel_pool config)"
    and "\<not> tx_succeeded_since_tick hp" "\<not> tx_failed_since_tick hp" "\<not> noack_sent_since_tick hp"
    and "window_attempts_sum hp = 0" "window_packets hp = 0" "window_noack_packets hp = 0" "max_tx_attempts hp = 0"
  shows "(tx_succeeded_since_tick (tx_run config events hp) \<longleftrightarrow> done_since_loss events) \<and>
    (tx_failed_since_tick (tx_run config events hp) \<longleftrightarrow> Tx_lost \<in> set events) \<and>
    (noack_sent_since_tick (tx_run config events hp) \<longleftrightarrow> Tx_unacked \<in> set events) \<and>
    link_acked (tx_run config events hp) = link_acked hp \<and>
    window_attempts_sum (tx_run config events hp) = sum_list (map attempts_of events) \<and>
    window_packets (tx_run config events hp) = of_nat (length (filter is_done events)) \<and>
    window_noack_packets (tx_run config events hp) = of_nat (length (filter (\<lambda>event. event = Tx_unacked) events)) \<and>
    (Tx_lost \<in> set events \<longrightarrow> max_tx_attempts (tx_run config events hp) = 255)"
proof (induction events rule: rev_induct)
  case Nil
  then show ?case using assms by (simp add: tx_run_def done_since_loss_def)
next
  case (snoc event events)
  have run: "tx_run config (events @ [event]) hp = tx_step config event (tx_run config events hp)"
    by (simp add: tx_run_def)
  have top: "\<not> (255 :: u8) < x" for x
    using uint_u8_less [of x] by (simp add: word_less_def)
  have le255: "m = (255 :: u8)" if "\<not> m < 255" for m
  proof -
    have "m \<le> 255" using top [of m] by (simp only: linorder_not_less)
    then show ?thesis using that by (metis linorder_not_less order_antisym)
  qed
  show ?case
    using snoc assms(1) top unfolding run done_since_loss_snoc
    by (cases event) (auto simp: tx_step_def hop_note_tx_success_def hop_note_tx_failed_def hop_note_noack_sent_def
      record_tx_attempts_def Let_def is_done_def attempts_of_def dest: le255)
qed



end
