(* ===== verification/Relay_Pointer.thy ===== *)
theory Relay_Pointer
  imports Esb_Wire Motion_Total
begin

text \<open>
  The central's pointer report for a relay dongle (\<open>src/esb_hid_relay_pointer.c\<close>): motion
  kept as running totals, buttons that queue as changes, and the report a radio reply carries.
  ZMK's report ids and sizes are a record; \<open>active\<close> is \<open>esb_hid_relay_active()\<close>.
\<close>

section \<open>ZMK's reports\<close>

record zmk_hid =
  id_keyboard :: u8
  id_consumer :: u8
  id_mouse :: u8
  id_leds :: u8
  keyboard_size :: nat
  consumer_size :: nat
  mouse_buttons :: nat

definition ESB_HID_RELAY_POINTER_LENGTH :: nat where "ESB_HID_RELAY_POINTER_LENGTH = 10"
definition ESB_HID_RELAY_POINTER_BUTTONS_OFFSET :: nat where "ESB_HID_RELAY_POINTER_BUTTONS_OFFSET = 1"
definition ESB_HID_RELAY_POINTER_MOTION_OFFSET :: nat where "ESB_HID_RELAY_POINTER_MOTION_OFFSET = 2"
definition ESB_HID_RELAY_POINTER_AXES :: nat where "ESB_HID_RELAY_POINTER_AXES = 4"

record mouse_body =
  body_buttons :: u8
  d_x :: i16
  d_y :: i16
  d_scroll_y :: i16
  d_scroll_x :: i16

definition mouse_report :: "zmk_hid \<Rightarrow> mouse_body \<Rightarrow> bytes" where
  "mouse_report hid body = [id_mouse hid, body_buttons body] @ put_le16 (d_x body) @ put_le16 (d_y body) @
     put_le16 (d_scroll_y body) @ put_le16 (d_scroll_x body)"

definition mouse_body_of :: "bytes \<Rightarrow> mouse_body" where
  "mouse_body_of report = \<lparr>body_buttons = report ! 1, d_x = get_le16 (drop 2 report), d_y = get_le16 (drop 4 report),
     d_scroll_y = get_le16 (drop 6 report), d_scroll_x = get_le16 (drop 8 report)\<rparr>"

text \<open>The sizes the build asserts against one payload.\<close>

definition hid_ok :: "zmk_hid \<Rightarrow> nat \<Rightarrow> bool" where
  "hid_ok hid max_payload \<longleftrightarrow> 0 < keyboard_size hid \<and> 0 < consumer_size hid \<and>
     distinct [id_keyboard hid, id_consumer hid, id_mouse hid] \<and> mouse_buttons hid \<le> 8 \<and>
     keyboard_size hid + consumer_size hid + ESB_HID_RELAY_POINTER_LENGTH \<le> max_payload \<and> max_payload \<le> 255"

definition INPUT_REL_X :: u16 where "INPUT_REL_X = 0"
definition INPUT_REL_Y :: u16 where "INPUT_REL_Y = 1"
definition INPUT_REL_HWHEEL :: u16 where "INPUT_REL_HWHEEL = 6"
definition INPUT_REL_WHEEL :: u16 where "INPUT_REL_WHEEL = 8"
definition INPUT_BTN_0 :: u16 where "INPUT_BTN_0 = 0x100"
definition INPUT_BTN_TOUCH :: u16 where "INPUT_BTN_TOUCH = 0x14a"

section \<open>State and input\<close>

record relay_pointer =
  sum_d_x :: i32
  sum_d_y :: i32
  sum_d_scroll_y :: i32
  sum_d_scroll_x :: i32
  buttons :: u8
  buttons_changed :: bool
  refresh_due :: bool
  written_body :: mouse_body

definition relay_pointer_boot :: relay_pointer where
  "relay_pointer_boot = \<lparr>sum_d_x = 0, sum_d_y = 0, sum_d_scroll_y = 0, sum_d_scroll_x = 0, buttons = 0,
     buttons_changed = False, refresh_due = False,
     written_body = \<lparr>body_buttons = 0, d_x = 0, d_y = 0, d_scroll_y = 0, d_scroll_x = 0\<rparr>\<rparr>"

definition add_motion :: "u16 \<Rightarrow> i32 \<Rightarrow> relay_pointer \<Rightarrow> relay_pointer" where
  "add_motion code val rp =
     (if code = INPUT_REL_X then rp\<lparr>sum_d_x := sum_d_x rp + val\<rparr>
      else if code = INPUT_REL_Y then rp\<lparr>sum_d_y := sum_d_y rp + val\<rparr>
      else if code = INPUT_REL_WHEEL then rp\<lparr>sum_d_scroll_y := sum_d_scroll_y rp + val\<rparr>
      else if code = INPUT_REL_HWHEEL then rp\<lparr>sum_d_scroll_x := sum_d_scroll_x rp + val\<rparr>
      else rp)"

definition button_bit :: "zmk_hid \<Rightarrow> u16 \<Rightarrow> u8 option" where
  "button_bit hid code =
     (if code = INPUT_BTN_TOUCH then Some 1
      else if code < INPUT_BTN_0 \<or> unat code \<ge> unat INPUT_BTN_0 + mouse_buttons hid then None
      else Some (push_bit (unat (code - INPUT_BTN_0)) 1))"

text \<open>The old buttons are the second result.\<close>

definition set_button :: "u8 \<Rightarrow> bool \<Rightarrow> relay_pointer \<Rightarrow> relay_pointer \<times> u8" where
  "set_button flag pressed rp =
     (if pressed then (rp\<lparr>buttons := buttons rp OR flag\<rparr>, buttons rp)
      else (rp\<lparr>buttons := buttons rp AND NOT flag\<rparr>, buttons rp))"

definition add_button :: "zmk_hid \<Rightarrow> u16 \<Rightarrow> i32 \<Rightarrow> relay_pointer \<Rightarrow> relay_pointer" where
  "add_button hid code val rp =
     (case button_bit hid code of
        None \<Rightarrow> rp
      | Some flag \<Rightarrow>
          let pressed = (val \<noteq> 0);
              (rp, old) = set_button flag pressed rp;
              was_pressed = (old AND flag \<noteq> 0)
          in if was_pressed \<noteq> pressed then rp\<lparr>buttons_changed := True\<rparr> else rp)"

text \<open>The report handed to \<open>esb_hid_relay_stage\<close>.\<close>

definition stage_buttons :: "zmk_hid \<Rightarrow> relay_pointer \<Rightarrow> bytes" where
  "stage_buttons hid rp =
     mouse_report hid \<lparr>body_buttons = buttons rp, d_x = 0, d_y = 0, d_scroll_y = 0, d_scroll_x = 0\<rparr>"

definition relay_pointer_handle_event ::
  "zmk_hid \<Rightarrow> bool \<Rightarrow> u8 \<Rightarrow> u16 \<Rightarrow> i32 \<Rightarrow> bool \<Rightarrow> relay_pointer \<Rightarrow> relay_pointer \<times> bytes option" where
  "relay_pointer_handle_event hid active type code val sync rp =
     (if \<not> active then (rp, None)
      else
        let rp = (if type = INPUT_EV_REL then add_motion code val rp
                  else if type = INPUT_EV_KEY then add_button hid code val rp
                  else rp)
        in if sync \<and> buttons_changed rp
           then (rp\<lparr>buttons_changed := False\<rparr>, Some (stage_buttons hid (rp\<lparr>buttons_changed := False\<rparr>)))
           else (rp, None))"

section \<open>Reports for the radio\<close>

definition short_total :: "i32 \<Rightarrow> i16" where
  "short_total total_sum = ucast total_sum"

definition stamp_totals :: "bool \<Rightarrow> relay_pointer \<Rightarrow> mouse_body \<Rightarrow> mouse_body" where
  "stamp_totals active rp body =
     (if \<not> active then
        body\<lparr>d_x := d_x (written_body rp), d_y := d_y (written_body rp),
             d_scroll_y := d_scroll_y (written_body rp), d_scroll_x := d_scroll_x (written_body rp)\<rparr>
      else
        body\<lparr>d_x := short_total (sum_d_x rp), d_y := short_total (sum_d_y rp),
             d_scroll_y := short_total (sum_d_scroll_y rp), d_scroll_x := short_total (sum_d_scroll_x rp)\<rparr>)"

definition report_buttons :: "bool \<Rightarrow> bool \<Rightarrow> relay_pointer \<Rightarrow> u8" where
  "report_buttons active changes_queued rp =
     (if \<not> active then 0 else if changes_queued then body_buttons (written_body rp) else buttons rp)"

definition body_is_written :: "mouse_body \<Rightarrow> relay_pointer \<Rightarrow> bool" where
  "body_is_written body rp \<longleftrightarrow> body = written_body rp"

definition esb_hid_relay_pointer_refresh :: "relay_pointer \<Rightarrow> relay_pointer" where
  "esb_hid_relay_pointer_refresh rp = rp\<lparr>refresh_due := True\<rparr>"

text \<open>The bytes written to \<open>out\<close>, none when the result is 0.\<close>

definition esb_hid_relay_pointer_take :: "zmk_hid \<Rightarrow> bool \<Rightarrow> nat \<Rightarrow> bool \<Rightarrow> relay_pointer \<Rightarrow> bytes" where
  "esb_hid_relay_pointer_take hid active room changes_queued rp =
     (if room < ESB_HID_RELAY_POINTER_LENGTH then []
      else
        let body = stamp_totals active rp \<lparr>body_buttons = report_buttons active changes_queued rp,
                     d_x = 0, d_y = 0, d_scroll_y = 0, d_scroll_x = 0\<rparr>
        in if body_is_written body rp \<and> \<not> refresh_due rp then [] else mouse_report hid body)"

definition esb_hid_relay_pointer_motion_pending :: "bool \<Rightarrow> relay_pointer \<Rightarrow> bool" where
  "esb_hid_relay_pointer_motion_pending active rp =
     (\<not> body_is_written (stamp_totals active rp (written_body rp)) rp)"

text \<open>The new content of a queued report, \<open>None\<close> for any other report.\<close>

definition esb_hid_relay_pointer_stamp :: "zmk_hid \<Rightarrow> bool \<Rightarrow> bytes \<Rightarrow> relay_pointer \<Rightarrow> bytes option" where
  "esb_hid_relay_pointer_stamp hid active report rp =
     (if length report \<noteq> ESB_HID_RELAY_POINTER_LENGTH \<or> report ! 0 \<noteq> id_mouse hid then None
      else
        let body = mouse_body_of report;
            body = (if \<not> active then body\<lparr>body_buttons := 0\<rparr> else body)
        in Some (mouse_report hid (stamp_totals active rp body)))"

definition esb_hid_relay_pointer_sent :: "bytes \<Rightarrow> relay_pointer \<Rightarrow> relay_pointer" where
  "esb_hid_relay_pointer_sent report rp = rp\<lparr>written_body := mouse_body_of report, refresh_due := False\<rparr>"

text \<open>\<open>held\<close> is the buttons of \<open>zmk_hid_get_mouse_report()\<close>.\<close>

definition esb_hid_relay_pointer_reset :: "bool \<Rightarrow> u8 \<Rightarrow> relay_pointer \<Rightarrow> relay_pointer" where
  "esb_hid_relay_pointer_reset active held rp = rp\<lparr>buttons := (if active then held else 0)\<rparr>"

section \<open>Lemmas\<close>

lemma length_mouse_report [simp]: "length (mouse_report hid body) = 10"
  by (simp add: mouse_report_def)

lemma mouse_body_of_report [simp]: "mouse_body_of (mouse_report hid body @ rest) = body"
  by (simp add: mouse_body_of_def mouse_report_def drop_Cons' get_put_le16)

lemma mouse_report_id [simp]: "mouse_report hid body ! 0 = id_mouse hid"
  by (simp add: mouse_report_def)

lemma button_flag_nonzero:
  assumes "mouse_buttons hid \<le> 8" "button_bit hid code = Some flag"
  shows "flag \<noteq> 0"
proof -
  have pushed: "push_bit k (1 :: u8) \<noteq> 0" if "k < 8" for k
  proof -
    have "bit (push_bit k (1 :: u8)) k"
      using that by (simp add: bit_simps)
    then show ?thesis by auto
  qed
  have "unat (code - INPUT_BTN_0) < 8"
    if "\<not> code < INPUT_BTN_0" "unat code < unat INPUT_BTN_0 + mouse_buttons hid"
    using that assms(1) by (simp add: unat_sub not_less)
  then show ?thesis
    using assms(2) pushed by (auto simp: button_bit_def not_le split: if_splits)
qed

end
