(* ===== verification/Link_Central.thy ===== *)
theory Link_Central
  imports Relay_Pointer Latch
begin

text \<open>
  The central's reverse channel (\<open>src/esb_link_central.c\<close>): per pipe a queue of replies, a
  latch for each control packet and one for the idle reply, drained into the radio's ACK FIFO
  each time that pipe's packets asked for an ACK. The build is one with the relay pointer.
  \<open>esb_write_payload()\<close> is a function on the state of the radio, which takes or refuses a
  payload; \<open>active\<close> is \<open>esb_hid_relay_active()\<close>.
\<close>

section \<open>State\<close>

record link_config =
  max_payload :: nat
  link_pipe_count :: nat
  reply_queue_depth :: "nat list"
  relay_pipes :: "bool list"
  self_pipes :: "bool list"
  zmk_reports :: zmk_hid

definition REPLY_PIPE_COUNT :: "link_config \<Rightarrow> nat" where
  "REPLY_PIPE_COUNT cfg = length (reply_queue_depth cfg)"

definition ESB_LINK_CONTROL_MAX_LENGTH :: nat where "ESB_LINK_CONTROL_MAX_LENGTH = 16"
definition ESB_LINK_CONTROL_BEACON :: nat where "ESB_LINK_CONTROL_BEACON = 0"
definition ESB_LINK_CONTROL_MASK :: nat where "ESB_LINK_CONTROL_MASK = 1"
definition ESB_LINK_CONTROL_COUNT :: nat where "ESB_LINK_CONTROL_COUNT = 2"
definition CONTROL_LATCH_SLOTS :: u8 where "CONTROL_LATCH_SLOTS = 2"
definition IDLE_REPLY_SLOTS :: u8 where "IDLE_REPLY_SLOTS = 2"

record idle_reply =
  idle_data :: bytes
  idle_staged :: u32

text \<open>What the file keeps for one pipe.\<close>

record pipe_replies =
  reply_queue :: "bytes list"
  control_latch :: "bytes latch_pool list"
  idle_reply_latch :: "idle_reply latch_pool"
  replies_staged :: u32

record link_central =
  link_pipes :: "pipe_replies list"
  link_pointer :: relay_pointer

record esb_payload =
  payload_pipe :: nat
  payload_data :: bytes

type_synonym 'r radio_write = "'r \<Rightarrow> esb_payload \<Rightarrow> 'r \<times> status"

definition reply_latches_init :: pipe_replies where
  "reply_latches_init = \<lparr>reply_queue = [],
     control_latch = replicate ESB_LINK_CONTROL_COUNT (latch_new CONTROL_LATCH_SLOTS []),
     idle_reply_latch = latch_new IDLE_REPLY_SLOTS \<lparr>idle_data = [], idle_staged = 0\<rparr>,
     replies_staged = 0\<rparr>"

definition link_central_boot :: "link_config \<Rightarrow> link_central" where
  "link_central_boot cfg =
     \<lparr>link_pipes = replicate (REPLY_PIPE_COUNT cfg) reply_latches_init, link_pointer = relay_pointer_boot\<rparr>"

definition update_pipe :: "nat \<Rightarrow> (pipe_replies \<Rightarrow> pipe_replies) \<Rightarrow> link_central \<Rightarrow> link_central" where
  "update_pipe pipe f lc = lc\<lparr>link_pipes := (link_pipes lc)[pipe := f (link_pipes lc ! pipe)]\<rparr>"

section \<open>Roles of the pipes\<close>

definition esb_link_pipe_is_relay :: "link_config \<Rightarrow> nat \<Rightarrow> bool" where
  "esb_link_pipe_is_relay cfg pipe = (if pipe \<ge> length (relay_pipes cfg) then False else relay_pipes cfg ! pipe)"

definition esb_link_pipe_is_self :: "link_config \<Rightarrow> nat \<Rightarrow> bool" where
  "esb_link_pipe_is_self cfg pipe = (if pipe \<ge> length (self_pipes cfg) then False else self_pipes cfg ! pipe)"

definition esb_link_source_ids :: "link_config \<Rightarrow> nat list" where
  "esb_link_source_ids cfg =
     filter (\<lambda>pipe. \<not> (esb_link_pipe_is_self cfg pipe \<or> esb_link_pipe_is_relay cfg pipe)) [0..<link_pipe_count cfg]"

section \<open>Staging, in threads\<close>

definition esb_link_latch_control :: "link_config \<Rightarrow> nat \<Rightarrow> nat \<Rightarrow> bytes \<Rightarrow> link_central \<Rightarrow> link_central \<times> status" where
  "esb_link_latch_control cfg pipe kind data lc =
     (if pipe \<ge> REPLY_PIPE_COUNT cfg \<or> kind \<ge> ESB_LINK_CONTROL_COUNT then (lc, Err EINVAL)
      else if length data = 0 \<or> length data > ESB_LINK_CONTROL_MAX_LENGTH then (lc, Err EMSGSIZE)
      else (update_pipe pipe (\<lambda>p. p\<lparr>control_latch :=
              (control_latch p)[kind := latch_stage data (control_latch p ! kind)]\<rparr>) lc, Ok))"

text \<open>\<open>esb_link_stage_reply\<close> puts the packet into the message queue and then counts it; the
  radio may come in between.\<close>

definition stage_reply_put :: "link_config \<Rightarrow> nat \<Rightarrow> bytes \<Rightarrow> link_central \<Rightarrow> link_central \<times> status" where
  "stage_reply_put cfg pipe data lc =
     (if pipe \<ge> REPLY_PIPE_COUNT cfg then (lc, Err EINVAL)
      else if length data = 0 \<or> length data > max_payload cfg then (lc, Err EMSGSIZE)
      else if length (reply_queue (link_pipes lc ! pipe)) \<ge> reply_queue_depth cfg ! pipe then (lc, Err ENOBUFS)
      else (update_pipe pipe (\<lambda>p. p\<lparr>reply_queue := reply_queue p @ [data]\<rparr>) lc, Ok))"

definition stage_reply_count :: "nat \<Rightarrow> link_central \<Rightarrow> link_central" where
  "stage_reply_count pipe lc = update_pipe pipe (\<lambda>p. p\<lparr>replies_staged := replies_staged p + 1\<rparr>) lc"

definition esb_link_stage_reply :: "link_config \<Rightarrow> nat \<Rightarrow> bytes \<Rightarrow> link_central \<Rightarrow> link_central \<times> status" where
  "esb_link_stage_reply cfg pipe data lc =
     (let (lc, result) = stage_reply_put cfg pipe data lc
      in (if result = Ok then stage_reply_count pipe lc else lc, result))"

definition esb_link_latch_idle_reply :: "link_config \<Rightarrow> nat \<Rightarrow> bytes \<Rightarrow> link_central \<Rightarrow> link_central \<times> status" where
  "esb_link_latch_idle_reply cfg pipe data lc =
     (if pipe \<ge> REPLY_PIPE_COUNT cfg then (lc, Err EINVAL)
      else if length data = 0 \<or> length data > max_payload cfg then (lc, Err EMSGSIZE)
      else (update_pipe pipe (\<lambda>p. p\<lparr>idle_reply_latch :=
              latch_stage \<lparr>idle_data = data, idle_staged = replies_staged p\<rparr> (idle_reply_latch p)\<rparr>) lc, Ok))"

section \<open>Draining, in the radio interrupt\<close>

definition write_reply :: "'r radio_write \<Rightarrow> 'r \<Rightarrow> esb_payload \<Rightarrow> 'r \<times> bool" where
  "write_reply esb_write_payload radio payload =
     (let (radio, error) = esb_write_payload radio payload in (radio, error = Ok))"

text \<open>The loop over the control kinds from \<open>kind\<close> on; \<open>n\<close> kinds are left.\<close>

fun write_control_from :: "'r radio_write \<Rightarrow> nat \<Rightarrow> nat \<Rightarrow> nat \<Rightarrow> link_central \<Rightarrow> 'r \<Rightarrow> link_central \<times> 'r \<times> bool" where
  "write_control_from put_payload pipe kind 0 lc radio = (lc, radio, False)"
| "write_control_from put_payload pipe kind (Suc n) lc radio =
     (case latch_pending (control_latch (link_pipes lc ! pipe) ! kind) of
        None \<Rightarrow> write_control_from put_payload pipe (kind + 1) n lc radio
      | Some (slot, data) \<Rightarrow>
          let (radio, taken) = write_reply put_payload radio \<lparr>payload_pipe = pipe, payload_data = data\<rparr>
          in if taken
             then (update_pipe pipe (\<lambda>p. p\<lparr>control_latch :=
                     (control_latch p)[kind := latch_release slot (control_latch p ! kind)]\<rparr>) lc, radio, True)
             else (lc, radio, True))"

definition write_pending_control :: "'r radio_write \<Rightarrow> nat \<Rightarrow> link_central \<Rightarrow> 'r \<Rightarrow> link_central \<times> 'r \<times> bool" where
  "write_pending_control put_payload pipe lc radio = write_control_from put_payload pipe 0 ESB_LINK_CONTROL_COUNT lc radio"

text \<open>The bytes appended.\<close>

definition append_pointer :: "link_config \<Rightarrow> bool \<Rightarrow> nat \<Rightarrow> link_central \<Rightarrow> bytes \<Rightarrow> bool \<Rightarrow> bytes" where
  "append_pointer cfg active pipe lc data changes_queued =
     (if \<not> esb_link_pipe_is_relay cfg pipe then []
      else esb_hid_relay_pointer_take (zmk_reports cfg) active (max_payload cfg - length data)
             changes_queued (link_pointer lc))"

definition commit_pointer :: "bytes \<Rightarrow> nat \<Rightarrow> bool \<Rightarrow> link_central \<Rightarrow> link_central" where
  "commit_pointer data offset has_pointer lc =
     (if has_pointer then lc\<lparr>link_pointer := esb_hid_relay_pointer_sent (drop offset data) (link_pointer lc)\<rparr>
      else lc)"

record packed_replies =
  taken :: nat
  pointer_offset :: nat
  has_pointer :: bool

definition queued_room :: "link_config \<Rightarrow> bool \<Rightarrow> nat \<Rightarrow> link_central \<Rightarrow> nat" where
  "queued_room cfg active pipe lc =
     (if \<not> esb_link_pipe_is_relay cfg pipe \<or> \<not> esb_hid_relay_pointer_motion_pending active (link_pointer lc)
      then max_payload cfg else max_payload cfg - ESB_HID_RELAY_POINTER_LENGTH)"

text \<open>One pass of the packing loop: the reply as it is copied and stamped into the payload.\<close>

definition stamped_reply :: "link_config \<Rightarrow> bool \<Rightarrow> nat \<Rightarrow> link_central \<Rightarrow> bytes \<Rightarrow> bytes option" where
  "stamped_reply cfg active pipe lc reply =
     (if esb_link_pipe_is_relay cfg pipe
      then esb_hid_relay_pointer_stamp (zmk_reports cfg) active reply (link_pointer lc) else None)"

fun pack_replies_from ::
  "link_config \<Rightarrow> bool \<Rightarrow> nat \<Rightarrow> link_central \<Rightarrow> nat \<Rightarrow> bytes list \<Rightarrow> packed_replies \<Rightarrow> bytes \<Rightarrow> packed_replies \<times> bytes" where
  "pack_replies_from cfg active pipe lc room [] packed data = (packed, data)"
| "pack_replies_from cfg active pipe lc room (reply # rest) packed data =
     (if length data + length reply > room then (packed, data)
      else
        let stamped = stamped_reply cfg active pipe lc reply;
            packed = (if stamped \<noteq> None then packed\<lparr>pointer_offset := length data, has_pointer := True\<rparr> else packed);
            data = data @ (case stamped of None \<Rightarrow> reply | Some report \<Rightarrow> report);
            packed = packed\<lparr>taken := taken packed + 1\<rparr>
        in if \<not> esb_link_pipe_is_relay cfg pipe then (packed, data)
           else pack_replies_from cfg active pipe lc room rest packed data)"

definition pack_queued_replies :: "link_config \<Rightarrow> bool \<Rightarrow> nat \<Rightarrow> link_central \<Rightarrow> packed_replies \<times> bytes" where
  "pack_queued_replies cfg active pipe lc =
     pack_replies_from cfg active pipe lc (queued_room cfg active pipe lc)
       (reply_queue (link_pipes lc ! pipe)) \<lparr>taken = 0, pointer_offset = 0, has_pointer = False\<rparr> []"

definition write_queued_replies ::
  "'r radio_write \<Rightarrow> link_config \<Rightarrow> bool \<Rightarrow> nat \<Rightarrow> link_central \<Rightarrow> 'r \<Rightarrow> link_central \<times> 'r \<times> bool" where
  "write_queued_replies put_payload cfg active pipe lc radio =
     (let (packed, data) = pack_queued_replies cfg active pipe lc
      in if taken packed = 0 then (lc, radio, False)
         else
           let changes_queued = (taken packed < length (reply_queue (link_pipes lc ! pipe)));
               pointer = (if has_pointer packed then [] else append_pointer cfg active pipe lc data changes_queued);
               packed = (if has_pointer packed then packed
                         else packed\<lparr>pointer_offset := length data, has_pointer := pointer \<noteq> []\<rparr>);
               data = data @ pointer;
               (radio, written) = write_reply put_payload radio \<lparr>payload_pipe = pipe, payload_data = data\<rparr>
           in if written
              then (commit_pointer data (pointer_offset packed) (has_pointer packed)
                      (update_pipe pipe (\<lambda>p. p\<lparr>reply_queue := drop (taken packed) (reply_queue p)\<rparr>) lc),
                    radio, True)
              else (lc, radio, True))"

definition fresh_idle_reply :: "nat \<Rightarrow> link_central \<Rightarrow> link_central \<times> (nat \<times> idle_reply) option" where
  "fresh_idle_reply pipe lc =
     (case latch_pending (idle_reply_latch (link_pipes lc ! pipe)) of
        None \<Rightarrow> (lc, None)
      | Some (slot, reply) \<Rightarrow>
          if idle_staged reply \<noteq> replies_staged (link_pipes lc ! pipe)
          then (update_pipe pipe (\<lambda>p. p\<lparr>idle_reply_latch := latch_release slot (idle_reply_latch p)\<rparr>) lc, None)
          else (lc, Some (slot, reply)))"

definition write_idle_reply ::
  "'r radio_write \<Rightarrow> link_config \<Rightarrow> bool \<Rightarrow> nat \<Rightarrow> link_central \<Rightarrow> 'r \<Rightarrow> link_central \<times> 'r" where
  "write_idle_reply put_payload cfg active pipe lc radio =
     (let (lc, slot) = fresh_idle_reply pipe lc;
          data = (case slot of None \<Rightarrow> [] | Some (_, reply) \<Rightarrow> idle_data reply);
          offset = length data;
          pointer = append_pointer cfg active pipe lc data False;
          data = data @ pointer
      in if length data = 0 then (lc, radio)
         else
           let (radio, written) = write_reply put_payload radio \<lparr>payload_pipe = pipe, payload_data = data\<rparr>
           in if \<not> written then (lc, radio)
              else
                let lc = (case slot of None \<Rightarrow> lc
                          | Some (index, _) \<Rightarrow>
                              update_pipe pipe (\<lambda>p. p\<lparr>idle_reply_latch := latch_release index (idle_reply_latch p)\<rparr>) lc)
                in (commit_pointer data offset (pointer \<noteq> []) lc, radio))"

definition rx_done_pipe ::
  "'r radio_write \<Rightarrow> link_config \<Rightarrow> bool \<Rightarrow> nat \<Rightarrow> link_central \<Rightarrow> 'r \<Rightarrow> link_central \<times> 'r" where
  "rx_done_pipe put_payload cfg active pipe lc radio =
     (let (lc, radio, wrote) = write_pending_control put_payload pipe lc radio
      in if wrote then (lc, radio)
         else
           let (lc, radio, wrote) = write_queued_replies put_payload cfg active pipe lc radio
           in if wrote then (lc, radio) else write_idle_reply put_payload cfg active pipe lc radio)"

definition esb_link_role_rx_done ::
  "'r radio_write \<Rightarrow> link_config \<Rightarrow> bool \<Rightarrow> u8 \<Rightarrow> link_central \<Rightarrow> 'r \<Rightarrow> link_central \<times> 'r" where
  "esb_link_role_rx_done put_payload cfg active pipes_acked lc radio =
     fold (\<lambda>pipe (lc, radio).
       if bit pipes_acked pipe then rx_done_pipe put_payload cfg active pipe lc radio else (lc, radio))
     [0..<REPLY_PIPE_COUNT cfg] (lc, radio)"

section \<open>Packing\<close>

lemma link_pipes_update [simp]:
  "pipe < length (link_pipes lc) \<Longrightarrow> link_pipes (update_pipe pipe f lc) ! pipe = f (link_pipes lc ! pipe)"
  "other \<noteq> pipe \<Longrightarrow> link_pipes (update_pipe pipe f lc) ! other = link_pipes lc ! other"
  "length (link_pipes (update_pipe pipe f lc)) = length (link_pipes lc)"
  "link_pointer (update_pipe pipe f lc) = link_pointer lc"
  by (simp_all add: update_pipe_def)

lemma commit_pointer_pipes [simp]: "link_pipes (commit_pointer data offset has lc) = link_pipes lc"
  by (simp add: commit_pointer_def)

text \<open>What the pointer state takes from the reports of a payload the radio accepted.\<close>

definition is_pointer :: "zmk_hid \<Rightarrow> bytes \<Rightarrow> bool" where
  "is_pointer hid report \<longleftrightarrow> length report = ESB_HID_RELAY_POINTER_LENGTH \<and> report ! 0 = id_mouse hid"

definition note_written :: "zmk_hid \<Rightarrow> bytes \<Rightarrow> relay_pointer \<Rightarrow> relay_pointer" where
  "note_written hid report rp = (if is_pointer hid report then esb_hid_relay_pointer_sent report rp else rp)"

definition reply_copy :: "link_config \<Rightarrow> bool \<Rightarrow> nat \<Rightarrow> link_central \<Rightarrow> bytes \<Rightarrow> bytes" where
  "reply_copy cfg active pipe lc reply =
     (case stamped_reply cfg active pipe lc reply of None \<Rightarrow> reply | Some report \<Rightarrow> report)"

text \<open>The same report up to the stamp of a pointer's body.\<close>

definition same_report :: "zmk_hid \<Rightarrow> bytes \<Rightarrow> bytes \<Rightarrow> bool" where
  "same_report hid reply report \<longleftrightarrow>
     (if is_pointer hid reply then is_pointer hid report else report = reply)"

lemma is_pointer_report [simp]: "is_pointer hid (mouse_report hid body)"
  by (simp add: is_pointer_def ESB_HID_RELAY_POINTER_LENGTH_def)

lemma stamp_None_iff:
  "esb_hid_relay_pointer_stamp hid active reply rp = None \<longleftrightarrow> \<not> is_pointer hid reply"
  by (simp add: esb_hid_relay_pointer_stamp_def is_pointer_def Let_def)

lemma stamp_is_pointer:
  "esb_hid_relay_pointer_stamp hid active reply rp = Some report \<Longrightarrow>
   is_pointer hid report \<and> length report = length reply"
  by (auto simp: esb_hid_relay_pointer_stamp_def ESB_HID_RELAY_POINTER_LENGTH_def Let_def split: if_splits)

lemma reply_copy_same:
  "esb_link_pipe_is_relay cfg pipe \<Longrightarrow> same_report (zmk_reports cfg) reply (reply_copy cfg active pipe lc reply)"
  using stamp_None_iff [of "zmk_reports cfg" active reply "link_pointer lc"]
  by (auto simp: same_report_def reply_copy_def stamped_reply_def dest: stamp_is_pointer split: option.splits)

lemma reply_copy_command: "\<not> esb_link_pipe_is_relay cfg pipe \<Longrightarrow> reply_copy cfg active pipe lc reply = reply"
  by (simp add: reply_copy_def stamped_reply_def)

lemma length_reply_copy [simp]: "length (reply_copy cfg active pipe lc reply) = length reply"
  by (auto simp: reply_copy_def stamped_reply_def dest: stamp_is_pointer split: option.splits if_splits)

lemma is_pointer_copy:
  "esb_link_pipe_is_relay cfg pipe \<Longrightarrow>
   is_pointer (zmk_reports cfg) (reply_copy cfg active pipe lc reply) \<longleftrightarrow>
   stamped_reply cfg active pipe lc reply \<noteq> None"
  using reply_copy_same [of cfg pipe reply active lc] stamp_None_iff [of "zmk_reports cfg" active reply "link_pointer lc"]
  by (auto simp: same_report_def stamped_reply_def split: if_splits)

text \<open>The written body a packed payload commits is the one of its last pointer report.\<close>

lemma sent_append:
  "length report = 10 \<Longrightarrow> esb_hid_relay_pointer_sent (report @ rest) rp = esb_hid_relay_pointer_sent report rp"
  by (simp add: esb_hid_relay_pointer_sent_def mouse_body_of_def get_le16_def nth_append)

lemma sent_again [simp]:
  "esb_hid_relay_pointer_sent report (esb_hid_relay_pointer_sent old rp) = esb_hid_relay_pointer_sent report rp"
  by (simp add: esb_hid_relay_pointer_sent_def)

definition committed :: "zmk_hid \<Rightarrow> packed_replies \<Rightarrow> bytes \<Rightarrow> relay_pointer \<Rightarrow> relay_pointer" where
  "committed hid packed data rp =
     (if has_pointer packed then esb_hid_relay_pointer_sent (drop (pointer_offset packed) data) rp else rp)"

lemma pack_replies_from_spec:
  assumes "pack_replies_from cfg active pipe lc room q packed data = (packed', data')"
    and "has_pointer packed \<Longrightarrow> pointer_offset packed + 10 \<le> length data"
  shows "\<exists>n \<le> length q. taken packed' = taken packed + n \<and>
      data' = data @ concat (map (reply_copy cfg active pipe lc) (take n q)) \<and>
      (0 < n \<longrightarrow> length data' \<le> room) \<and>
      (\<not> esb_link_pipe_is_relay cfg pipe \<longrightarrow> n \<le> 1 \<and> has_pointer packed' = has_pointer packed) \<and>
      (esb_link_pipe_is_relay cfg pipe \<longrightarrow>
        committed (zmk_reports cfg) packed' data' rp =
        fold (note_written (zmk_reports cfg)) (map (reply_copy cfg active pipe lc) (take n q))
          (committed (zmk_reports cfg) packed data rp)) \<and>
      (q \<noteq> [] \<longrightarrow> length data + length (hd q) \<le> room \<longrightarrow> 0 < n)"
  using assms
proof (induction q arbitrary: packed data)
  case Nil
  then show ?case by auto
next
  case (Cons reply rest)
  show ?case
  proof (cases "length data + length reply > room")
    case True
    then show ?thesis using Cons.prems(1) by auto
  next
    case False
    define copy where "copy = reply_copy cfg active pipe lc reply"
    define stamped where "stamped = stamped_reply cfg active pipe lc reply"
    define p1 where "p1 = (if stamped \<noteq> None then packed\<lparr>pointer_offset := length data, has_pointer := True\<rparr>
      else packed)\<lparr>taken := taken packed + 1\<rparr>"
    have copy: "(case stamped of None \<Rightarrow> reply | Some report \<Rightarrow> report) = copy"
      by (simp add: copy_def reply_copy_def stamped_def)
    have taken1: "taken (if stamped \<noteq> None then packed\<lparr>pointer_offset := length data, has_pointer := True\<rparr>
      else packed) = taken packed" by simp
    show ?thesis
    proof (cases "esb_link_pipe_is_relay cfg pipe")
      case no_relay: False
      then have "stamped = None" by (simp add: stamped_def stamped_reply_def)
      then have "packed' = p1" "data' = data @ reply"
        using Cons.prems(1) False no_relay by (simp_all add: p1_def stamped_def Let_def)
      then show ?thesis
        using False no_relay \<open>stamped = None\<close>
        by (intro exI [of _ 1]) (simp add: p1_def reply_copy_command)
    next
      case relay: True
      have step: "pack_replies_from cfg active pipe lc room rest p1 (data @ copy) = (packed', data')"
        using Cons.prems(1) False relay taken1 copy by (simp add: p1_def stamped_def Let_def split: if_splits)
      have long: "length copy = 10" if "stamped \<noteq> None"
        using that is_pointer_copy [OF relay, of active lc reply]
        by (simp add: stamped_def copy_def is_pointer_def ESB_HID_RELAY_POINTER_LENGTH_def)
      have off: "has_pointer p1 \<Longrightarrow> pointer_offset p1 + 10 \<le> length (data @ copy)"
        using Cons.prems(2) long by (auto simp: p1_def split: if_splits)
      have com: "committed (zmk_reports cfg) p1 (data @ copy) rp =
          note_written (zmk_reports cfg) copy (committed (zmk_reports cfg) packed data rp)"
      proof (cases "stamped = None")
        case True
        then have "\<not> is_pointer (zmk_reports cfg) copy"
          using is_pointer_copy [OF relay] by (simp add: copy_def stamped_def)
        moreover have "esb_hid_relay_pointer_sent (drop (pointer_offset packed) data @ copy) rp =
            esb_hid_relay_pointer_sent (drop (pointer_offset packed) data) rp" if "has_pointer packed"
          using Cons.prems(2) [OF that]
          by (simp add: esb_hid_relay_pointer_sent_def mouse_body_of_def get_le16_def nth_append)
        ultimately show ?thesis
          using True Cons.prems(2) by (auto simp: committed_def p1_def note_written_def)
      next
        case False
        then have "is_pointer (zmk_reports cfg) copy"
          using is_pointer_copy [OF relay] by (simp add: copy_def stamped_def)
        then show ?thesis
          using False by (simp add: committed_def p1_def note_written_def)
      qed
      obtain n where n: "n \<le> length rest" "taken packed' = taken p1 + n"
        "data' = (data @ copy) @ concat (map (reply_copy cfg active pipe lc) (take n rest))"
        "0 < n \<longrightarrow> length data' \<le> room"
        "committed (zmk_reports cfg) packed' data' rp =
          fold (note_written (zmk_reports cfg)) (map (reply_copy cfg active pipe lc) (take n rest))
          (committed (zmk_reports cfg) p1 (data @ copy) rp)"
        using Cons.IH [OF step off] relay by auto
      show ?thesis
        using n com relay False
        by (intro exI [of _ "Suc n"]) (cases "n = 0"; simp add: p1_def copy_def)
    qed
  qed
qed

section \<open>What one pass writes\<close>

definition carries :: "link_config \<Rightarrow> nat \<Rightarrow> bytes list \<Rightarrow> bytes \<Rightarrow> bool" where
  "carries cfg pipe taken_replies data \<longleftrightarrow> taken_replies \<noteq> [] \<and>
     (if esb_link_pipe_is_relay cfg pipe
      then \<exists>copies tail. data = concat copies @ tail \<and> list_all2 (same_report (zmk_reports cfg)) taken_replies copies \<and>
        (tail = [] \<or> is_pointer (zmk_reports cfg) tail)
      else taken_replies = [data])"

text \<open>A payload out of the latches: a control packet, or the idle reply and the pointer.\<close>

datatype latched_item = Control_item (item_data: bytes) | Idle_item (item_data: bytes)

definition latched_payload :: "link_config \<Rightarrow> nat \<Rightarrow> latched_item set \<Rightarrow> bytes \<Rightarrow> bool" where
  "latched_payload cfg pipe latched data \<longleftrightarrow>
     Control_item data \<in> latched \<or> Idle_item data \<in> latched \<or>
     (esb_link_pipe_is_relay cfg pipe \<and>
       (\<exists>idle report. (idle = [] \<or> Idle_item idle \<in> latched) \<and> is_pointer (zmk_reports cfg) report \<and>
          data = idle @ report))"

definition pending_data :: "pipe_replies \<Rightarrow> latched_item set" where
  "pending_data p =
     {item. \<exists>kind < length (control_latch p). \<exists>slot data.
        latch_pending (control_latch p ! kind) = Some (slot, data) \<and> item = Control_item data} \<union>
     {item. \<exists>slot r. latch_pending (idle_reply_latch p) = Some (slot, r) \<and> item = Idle_item (idle_data r)}"

definition latches_ok :: "pipe_replies \<Rightarrow> bool" where
  "latches_ok p \<longleftrightarrow> length (control_latch p) = ESB_LINK_CONTROL_COUNT \<and>
     (\<forall>lp \<in> set (control_latch p). latch_ok lp) \<and> latch_ok (idle_reply_latch p)"

definition served :: "link_config \<Rightarrow> nat \<Rightarrow> pipe_replies \<Rightarrow> pipe_replies \<Rightarrow> bytes option \<Rightarrow> bool" where
  "served cfg pipe p p' payload \<longleftrightarrow> replies_staged p' = replies_staged p \<and>
     (latches_ok p \<longrightarrow> latches_ok p') \<and>
     (\<forall>x. latch_pending (idle_reply_latch p') = Some x \<longrightarrow> latch_pending (idle_reply_latch p) = Some x) \<and>
     pending_data p' \<subseteq> pending_data p \<and>
     (case payload of
        None \<Rightarrow> reply_queue p' = reply_queue p
      | Some data \<Rightarrow>
          (\<exists>taken_replies. reply_queue p = taken_replies @ reply_queue p' \<and> carries cfg pipe taken_replies data) \<or>
          (reply_queue p' = reply_queue p \<and> latched_payload cfg pipe (pending_data p) data))"

lemma pending_release: "latch_pending (latch_release slot lp) = Some x \<Longrightarrow> latch_pending lp = Some x"
  by (auto simp: latch_pending_def latch_release_def spsc_latch_peek_def spsc_latch_release_def split: if_splits)

lemma latches_ok_simps [simp]:
  "latches_ok (p\<lparr>reply_queue := q\<rparr>) = latches_ok p"
  "latches_ok (p\<lparr>replies_staged := n\<rparr>) = latches_ok p"
  by (simp_all add: latches_ok_def)

lemma latches_ok_idle: "latches_ok p \<Longrightarrow> latch_ok lp \<Longrightarrow> latches_ok (p\<lparr>idle_reply_latch := lp\<rparr>)"
  by (simp add: latches_ok_def)

lemma latches_ok_latch: "latches_ok p \<Longrightarrow> latch_ok (idle_reply_latch p)"
  by (simp add: latches_ok_def)

lemma latches_ok_control:
  "latches_ok p \<Longrightarrow> (kind < length (control_latch p) \<Longrightarrow> latch_ok lp) \<Longrightarrow>
   latches_ok (p\<lparr>control_latch := (control_latch p)[kind := lp]\<rparr>)"
  by (cases "kind < length (control_latch p)")
    (auto simp: latches_ok_def list_update_beyond not_less dest: set_update_subset_insert [THEN subsetD])

lemma latches_ok_release:
  "latches_ok p \<Longrightarrow> latches_ok (p\<lparr>idle_reply_latch := latch_release slot (idle_reply_latch p)\<rparr>)"
  "latches_ok p \<Longrightarrow>
   latches_ok (p\<lparr>control_latch := (control_latch p)[kind := latch_release slot (control_latch p ! kind)]\<rparr>)"
proof -
  assume ok: "latches_ok p"
  then show "latches_ok (p\<lparr>idle_reply_latch := latch_release slot (idle_reply_latch p)\<rparr>)"
    by (simp add: latches_ok_idle latch_ok_release latches_ok_def)
  show "latches_ok (p\<lparr>control_latch := (control_latch p)[kind := latch_release slot (control_latch p ! kind)]\<rparr>)"
    using ok by (intro latches_ok_control) (simp_all add: latch_ok_release latches_ok_def)
qed

lemma pending_data_release_control:
  "pending_data (p\<lparr>control_latch := (control_latch p)[kind := latch_release slot (control_latch p ! kind)]\<rparr>)
   \<subseteq> pending_data p"
proof -
  have "latch_pending (control_latch p ! k) = Some (s, data)"
    if "k < length (control_latch p)"
      "latch_pending ((control_latch p)[kind := latch_release slot (control_latch p ! kind)] ! k) = Some (s, data)"
    for k s data
    using that pending_release [of slot "control_latch p ! kind"] by (cases "k = kind") auto
  then show ?thesis
    unfolding pending_data_def by fastforce
qed

lemma pending_data_release_idle:
  "pending_data (p\<lparr>idle_reply_latch := latch_release slot (idle_reply_latch p)\<rparr>) \<subseteq> pending_data p"
  by (auto simp: pending_data_def dest: pending_release)

lemma pending_data_queue [simp]: "pending_data (p\<lparr>reply_queue := q\<rparr>) = pending_data p"
  "pending_data (p\<lparr>replies_staged := n\<rparr>) = pending_data p"
  by (simp_all add: pending_data_def)

lemma take_pointer:
  "esb_hid_relay_pointer_take hid active room queued rp = [] \<or>
   is_pointer hid (esb_hid_relay_pointer_take hid active room queued rp)"
  by (auto simp: esb_hid_relay_pointer_take_def Let_def)

lemma append_pointer_cases:
  obtains "append_pointer cfg active pipe lc data queued = []"
  | "esb_link_pipe_is_relay cfg pipe" "is_pointer (zmk_reports cfg) (append_pointer cfg active pipe lc data queued)"
  using take_pointer [of "zmk_reports cfg" active "max_payload cfg - length data" queued "link_pointer lc"]
  by (cases "esb_link_pipe_is_relay cfg pipe") (auto simp: append_pointer_def)

text \<open>The log of what a radio took.\<close>

definition logged :: "'r radio_write \<Rightarrow> ('r \<times> esb_payload list) radio_write" where
  "logged put_payload = (\<lambda>(radio, log) payload.
     let (radio, error) = put_payload radio payload in ((radio, if error = Ok then log @ [payload] else log), error))"

definition serves :: "link_config \<Rightarrow> nat \<Rightarrow> link_central \<Rightarrow> esb_payload list \<Rightarrow> link_central \<Rightarrow> esb_payload list \<Rightarrow> bool" where
  "serves cfg pipe lc log lc' log' \<longleftrightarrow>
     length (link_pipes lc') = length (link_pipes lc) \<and>
     (\<forall>other. other \<noteq> pipe \<longrightarrow> link_pipes lc' ! other = link_pipes lc ! other) \<and>
     (\<exists>payload. served cfg pipe (link_pipes lc ! pipe) (link_pipes lc' ! pipe) payload \<and>
       log' = log @ (case payload of None \<Rightarrow> [] | Some data \<Rightarrow> [\<lparr>payload_pipe = pipe, payload_data = data\<rparr>]))"

lemma serves_nothing: "serves cfg pipe lc log lc log"
  by (auto simp: serves_def served_def intro: exI [of _ None])

lemma write_reply_logged:
  "write_reply (logged put_payload) (radio, log) payload =
     ((fst (put_payload radio payload), if snd (put_payload radio payload) = Ok then log @ [payload] else log),
      snd (put_payload radio payload) = Ok)"
  by (simp add: write_reply_def logged_def split_beta Let_def)

lemma write_control_from_serves:
  assumes "write_control_from (logged put_payload) pipe kind n lc (radio, log) = (lc', (radio', log'), wrote)"
    and "pipe < length (link_pipes lc)" and "kind + n \<le> length (control_latch (link_pipes lc ! pipe))"
  shows "serves cfg pipe lc log lc' log' \<and> (\<not> wrote \<longrightarrow> lc' = lc \<and> radio' = radio \<and> log' = log)"
  using assms
proof (induction n arbitrary: kind)
  case 0
  then show ?case by (simp add: serves_nothing)
next
  case (Suc n)
  show ?case
  proof (cases "latch_pending (control_latch (link_pipes lc ! pipe) ! kind)")
    case None
    then show ?thesis using Suc.IH [of "kind + 1"] Suc.prems by simp
  next
    case (Some entry)
    obtain slot data where entry: "entry = (slot, data)" by (cases entry)
    show ?thesis
    proof (cases "snd (put_payload radio \<lparr>payload_pipe = pipe, payload_data = data\<rparr>) = Ok")
      case False
      then show ?thesis
        using Suc.prems(1) Some entry by (auto simp: write_reply_logged serves_nothing)
    next
      case True
      define p where "p = link_pipes lc ! pipe"
      define p' where "p' = p\<lparr>control_latch := (control_latch p)[kind := latch_release slot (control_latch p ! kind)]\<rparr>"
      have lc': "lc' = update_pipe pipe (\<lambda>_. p') lc" "log' = log @ [\<lparr>payload_pipe = pipe, payload_data = data\<rparr>]" wrote
        using Suc.prems(1) Some entry True by (auto simp: write_reply_logged p'_def p_def update_pipe_def)
      have "Control_item data \<in> pending_data p"
        using Some entry Suc.prems(3) unfolding pending_data_def p_def
        by (intro UnI1 CollectI exI [of _ kind]) simp
      then have "served cfg pipe p p' (Some data)"
        using pending_data_release_control [of p kind slot] latches_ok_release(2) [of p kind slot]
        by (simp add: served_def latched_payload_def p'_def)
      then show ?thesis
        using lc' Suc.prems(2) by (auto simp: serves_def p_def intro!: exI [of _ "Some data"])
    qed
  qed
qed

lemma pack_queued_spec:
  assumes "pack_queued_replies cfg active pipe lc = (packed, data)"
  shows "\<exists>n \<le> length (reply_queue (link_pipes lc ! pipe)). taken packed = n \<and>
      data = concat (map (reply_copy cfg active pipe lc) (take n (reply_queue (link_pipes lc ! pipe)))) \<and>
      (0 < n \<longrightarrow> length data \<le> queued_room cfg active pipe lc) \<and>
      (\<not> esb_link_pipe_is_relay cfg pipe \<longrightarrow> n \<le> 1 \<and> \<not> has_pointer packed) \<and>
      (esb_link_pipe_is_relay cfg pipe \<longrightarrow>
        committed (zmk_reports cfg) packed data (link_pointer lc) =
        fold (note_written (zmk_reports cfg))
          (map (reply_copy cfg active pipe lc) (take n (reply_queue (link_pipes lc ! pipe)))) (link_pointer lc))"
  using pack_replies_from_spec [OF assms [unfolded pack_queued_replies_def], where rp = "link_pointer lc"]
  by (fastforce simp: committed_def)

lemma carries_copies:
  assumes "n \<le> length q" "0 < n" "\<not> esb_link_pipe_is_relay cfg pipe \<Longrightarrow> n \<le> 1 \<and> tail = []"
    and "tail = [] \<or> is_pointer (zmk_reports cfg) tail"
  shows "carries cfg pipe (take n q) (concat (map (reply_copy cfg active pipe lc) (take n q)) @ tail)"
proof (cases "esb_link_pipe_is_relay cfg pipe")
  case True
  have "list_all2 (same_report (zmk_reports cfg)) (take n q) (map (reply_copy cfg active pipe lc) (take n q))"
    using True by (simp add: list_all2_conv_all_nth reply_copy_same)
  then show ?thesis
    using True assms by (auto simp: carries_def)
next
  case False
  then have "n = 1" "tail = []" using assms by auto
  then show ?thesis
    using False assms(1) by (cases q) (auto simp: carries_def reply_copy_command)
qed

lemma write_queued_serves:
  assumes "write_queued_replies (logged put_payload) cfg active pipe lc (radio, log) = (lc', (radio', log'), wrote)"
    and "pipe < length (link_pipes lc)"
  shows "serves cfg pipe lc log lc' log' \<and> (\<not> wrote \<longrightarrow> lc' = lc \<and> radio' = radio \<and> log' = log)"
proof -
  define q where "q = reply_queue (link_pipes lc ! pipe)"
  obtain packed data where packed: "pack_queued_replies cfg active pipe lc = (packed, data)"
    by (cases "pack_queued_replies cfg active pipe lc")
  from pack_queued_spec [OF this] obtain n where n: "n \<le> length q" "taken packed = n"
    "data = concat (map (reply_copy cfg active pipe lc) (take n q))"
    "\<not> esb_link_pipe_is_relay cfg pipe \<longrightarrow> n \<le> 1 \<and> \<not> has_pointer packed"
    by (auto simp: q_def)
  show ?thesis
  proof (cases "n = 0")
    case True
    then show ?thesis
      using assms(1) packed n(2) by (simp add: write_queued_replies_def serves_nothing)
  next
    case False
    define tail where "tail = (if has_pointer packed then []
      else append_pointer cfg active pipe lc data (n < length q))"
    have tail: "tail = [] \<or> is_pointer (zmk_reports cfg) tail" "\<not> esb_link_pipe_is_relay cfg pipe \<Longrightarrow> tail = []"
      by (cases rule: append_pointer_cases [of cfg active pipe lc data "n < length q"];
          simp add: tail_def append_pointer_def)+
    have carried: "carries cfg pipe (take n q) (data @ tail)"
      using carries_copies [OF n(1)] False n(3,4) tail by simp
    define payload where "payload = \<lparr>payload_pipe = pipe, payload_data = data @ tail\<rparr>"
    show ?thesis
    proof (cases "snd (put_payload radio payload) = Ok")
      case False
      then show ?thesis
        using assms(1) packed n(2) \<open>n \<noteq> 0\<close>
        by (auto simp: write_queued_replies_def Let_def write_reply_logged payload_def tail_def q_def serves_nothing
            split: if_splits)
    next
      case True
      have pipes: "link_pipes lc' = link_pipes (update_pipe pipe (\<lambda>p. p\<lparr>reply_queue := drop n (reply_queue p)\<rparr>) lc)"
        and log: "log' = log @ [payload]" and wrote
        using assms(1) packed n(2) \<open>n \<noteq> 0\<close> True
        by (auto simp: write_queued_replies_def Let_def write_reply_logged payload_def tail_def q_def split: if_splits)
      then have "served cfg pipe (link_pipes lc ! pipe) (link_pipes lc' ! pipe) (Some (data @ tail))"
        using assms(2) carried by (auto simp: served_def q_def intro!: exI [of _ "take n q"])
      then show ?thesis
        using pipes log \<open>wrote\<close> by (auto simp: serves_def payload_def intro!: exI [of _ "Some (data @ tail)"])
    qed
  qed
qed

lemma fresh_idle_reply_cases:
  obtains (none) "latch_pending (idle_reply_latch (link_pipes lc ! pipe)) = None"
      "fresh_idle_reply pipe lc = (lc, None)"
  | (stale) slot reply where "latch_pending (idle_reply_latch (link_pipes lc ! pipe)) = Some (slot, reply)"
      "idle_staged reply \<noteq> replies_staged (link_pipes lc ! pipe)"
      "fresh_idle_reply pipe lc =
        (update_pipe pipe (\<lambda>p. p\<lparr>idle_reply_latch := latch_release slot (idle_reply_latch p)\<rparr>) lc, None)"
  | (fresh) slot reply where "latch_pending (idle_reply_latch (link_pipes lc ! pipe)) = Some (slot, reply)"
      "idle_staged reply = replies_staged (link_pipes lc ! pipe)"
      "fresh_idle_reply pipe lc = (lc, Some (slot, reply))"
  by (cases "latch_pending (idle_reply_latch (link_pipes lc ! pipe))")
    (auto simp: fresh_idle_reply_def split: if_splits)

lemma append_pointer_update [simp]:
  "append_pointer cfg active pipe (update_pipe pipe' f lc) data queued = append_pointer cfg active pipe lc data queued"
  by (simp add: append_pointer_def)

lemma latched_payload_idle:
  assumes "data = [] \<or> Idle_item data \<in> latched" and "append_pointer cfg active pipe lc data False = tail"
    and "data @ tail \<noteq> []"
  shows "latched_payload cfg pipe latched (data @ tail)"
proof (cases rule: append_pointer_cases [of cfg active pipe lc data False])
  case 1
  then show ?thesis using assms by (auto simp: latched_payload_def)
next
  case 2
  then show ?thesis using assms unfolding latched_payload_def by blast
qed

lemma served_same: "served cfg pipe p p None"
  by (simp add: served_def)

lemma served_idle_release:
  "served cfg pipe p (p\<lparr>idle_reply_latch := latch_release slot (idle_reply_latch p)\<rparr>) None"
  using pending_data_release_idle [of slot p] pending_release [of slot "idle_reply_latch p"]
  by (simp add: served_def latches_ok_release)

lemma write_idle_serves:
  assumes "write_idle_reply (logged put_payload) cfg active pipe lc (radio, log) = (lc', (radio', log'))"
    and "pipe < length (link_pipes lc)"
  shows "serves cfg pipe lc log lc' log'"
proof -
  obtain lc1 slot where fresh: "fresh_idle_reply pipe lc = (lc1, slot)"
    by (cases "fresh_idle_reply pipe lc")
  define data where "data = (case slot of None \<Rightarrow> [] | Some (_, reply) \<Rightarrow> idle_data reply)"
  define tail where "tail = append_pointer cfg active pipe lc1 data False"
  have lc1: "served cfg pipe (link_pipes lc ! pipe) (link_pipes lc1 ! pipe) None"
      "\<forall>other. other \<noteq> pipe \<longrightarrow> link_pipes lc1 ! other = link_pipes lc ! other"
      "length (link_pipes lc1) = length (link_pipes lc)" "link_pointer lc1 = link_pointer lc"
    and data: "data = [] \<or> Idle_item data \<in> pending_data (link_pipes lc ! pipe)"
    and slot: "slot \<noteq> None \<Longrightarrow> lc1 = lc"
    using fresh assms(2)
    by (cases rule: fresh_idle_reply_cases [of lc pipe];
        auto simp: served_same served_idle_release data_def pending_data_def)+
  define payload where "payload = \<lparr>payload_pipe = pipe, payload_data = data @ tail\<rparr>"
  define lc2 where "lc2 = (case slot of None \<Rightarrow> lc1
     | Some (index, _) \<Rightarrow> update_pipe pipe (\<lambda>p. p\<lparr>idle_reply_latch := latch_release index (idle_reply_latch p)\<rparr>) lc1)"
  have result: "(lc', log') =
      (if data @ tail = [] \<or> snd (put_payload radio payload) \<noteq> Ok then (lc1, log)
       else (commit_pointer (data @ tail) (length data) (tail \<noteq> []) lc2, log @ [payload]))"
    using assms(1) fresh
    by (auto simp: write_idle_reply_def write_reply_logged Let_def data_def [symmetric] tail_def [symmetric]
        payload_def [symmetric] lc2_def [symmetric] split: if_splits)
  show ?thesis
  proof (cases "data @ tail = [] \<or> snd (put_payload radio payload) \<noteq> Ok")
    case True
    then show ?thesis
      using result lc1 by (auto simp: serves_def intro!: exI [of _ None])
  next
    case False
    have lc2: "link_pipes lc' = link_pipes lc2" "log' = log @ [payload]"
      using False result by auto
    have quiet: "served cfg pipe (link_pipes lc ! pipe) (link_pipes lc2 ! pipe) None"
      "\<forall>other. other \<noteq> pipe \<longrightarrow> link_pipes lc2 ! other = link_pipes lc ! other"
      "length (link_pipes lc2) = length (link_pipes lc)"
      using lc1 slot assms(2) by (auto simp: lc2_def served_idle_release split: option.splits)
    have "latched_payload cfg pipe (pending_data (link_pipes lc ! pipe)) (data @ tail)"
      using latched_payload_idle [OF data, of cfg active pipe lc1 tail] False by (simp add: tail_def)
    then have "served cfg pipe (link_pipes lc ! pipe) (link_pipes lc2 ! pipe) (Some (data @ tail))"
      using quiet(1) by (simp add: served_def)
    then show ?thesis
      using lc2 quiet by (auto simp: serves_def payload_def intro!: exI [of _ "Some (data @ tail)"])
  qed
qed

lemma rx_done_pipe_serves:
  assumes "rx_done_pipe (logged put_payload) cfg active pipe lc (radio, log) = (lc', (radio', log'))"
    and "pipe < length (link_pipes lc)" and "length (control_latch (link_pipes lc ! pipe)) = ESB_LINK_CONTROL_COUNT"
  shows "serves cfg pipe lc log lc' log'"
proof -
  obtain lc1 radio1 log1 wrote1 where c: "write_pending_control (logged put_payload) pipe lc (radio, log) =
      (lc1, (radio1, log1), wrote1)"
    by (metis surj_pair)
  note control = write_control_from_serves [OF c [unfolded write_pending_control_def] assms(2)] assms(3)
  show ?thesis
  proof (cases wrote1)
    case True
    then show ?thesis using control c assms(1) by (simp add: rx_done_pipe_def)
  next
    case False
    then have same: "lc1 = lc" "radio1 = radio" "log1 = log" using control by simp_all
    obtain lc2 radio2 log2 wrote2 where q: "write_queued_replies (logged put_payload) cfg active pipe lc (radio, log) =
        (lc2, (radio2, log2), wrote2)"
      by (metis surj_pair)
    note queued = write_queued_serves [OF q assms(2)]
    show ?thesis
      using queued q c False assms(1,2) same write_idle_serves [of put_payload cfg active pipe lc radio log]
      by (cases wrote2) (simp_all add: rx_done_pipe_def)
  qed
qed

section \<open>Every interleaving\<close>

text \<open>The steps threads and the radio take: a packet put into a reply queue and counted, the
  latches staged, pointer input, and an interrupt's pass over one pipe that asked for an ACK.
  \<open>handed\<close> is what a pipe's queue accepted and \<open>latched\<close> what its latches were given;
  \<open>counts\<close> is how many replies were counted, \<open>idle_counts\<close> how many at the last idle latch.\<close>

record 'r link_run =
  run_central :: link_central
  run_radio :: "'r \<times> esb_payload list"
  handed :: "nat \<Rightarrow> bytes list"
  latched :: "nat \<Rightarrow> latched_item set"
  counts :: "nat \<Rightarrow> nat"
  idle_counts :: "nat \<Rightarrow> nat"

definition link_run_boot :: "link_config \<Rightarrow> 'r \<Rightarrow> 'r link_run" where
  "link_run_boot cfg radio = \<lparr>run_central = link_central_boot cfg, run_radio = (radio, []),
     handed = (\<lambda>_. []), latched = (\<lambda>_. {}), counts = (\<lambda>_. 0), idle_counts = (\<lambda>_. 0)\<rparr>"

inductive link_step :: "link_config \<Rightarrow> 'r radio_write \<Rightarrow> 'r link_run \<Rightarrow> 'r link_run \<Rightarrow> bool"
  for cfg :: link_config and put_payload :: "'r radio_write" where
  put: "stage_reply_put cfg pipe data (run_central r) = (lc, result) \<Longrightarrow>
    link_step cfg put_payload r (r\<lparr>run_central := lc,
      handed := (handed r)(pipe := handed r pipe @ (if result = Ok then [data] else []))\<rparr>)"
| counted: "link_step cfg put_payload r (r\<lparr>run_central := stage_reply_count pipe (run_central r),
    counts := (counts r)(pipe := counts r pipe + 1)\<rparr>)"
| control: "esb_link_latch_control cfg pipe kind data (run_central r) = (lc, result) \<Longrightarrow>
    link_step cfg put_payload r (r\<lparr>run_central := lc,
      latched := (latched r)(pipe := insert (Control_item data) (latched r pipe))\<rparr>)"
| idle: "esb_link_latch_idle_reply cfg pipe data (run_central r) = (lc, result) \<Longrightarrow>
    link_step cfg put_payload r (r\<lparr>run_central := lc,
      latched := (latched r)(pipe := insert (Idle_item data) (latched r pipe)),
      idle_counts := (idle_counts r)(pipe := if result = Ok then counts r pipe else idle_counts r pipe)\<rparr>)"
| pointer: "link_step cfg put_payload r (r\<lparr>run_central := (run_central r)\<lparr>link_pointer := rp\<rparr>\<rparr>)"
| rx_done: "pipe < REPLY_PIPE_COUNT cfg \<Longrightarrow>
    rx_done_pipe (logged put_payload) cfg active pipe (run_central r) (run_radio r) = (lc, radio) \<Longrightarrow>
    link_step cfg put_payload r (r\<lparr>run_central := lc, run_radio := radio\<rparr>)"

definition link_reaches :: "link_config \<Rightarrow> 'r radio_write \<Rightarrow> 'r \<Rightarrow> 'r link_run \<Rightarrow> bool" where
  "link_reaches cfg put_payload radio r \<longleftrightarrow> (link_step cfg put_payload)\<^sup>*\<^sup>* (link_run_boot cfg radio) r"

definition sent_to :: "'r link_run \<Rightarrow> nat \<Rightarrow> bytes list" where
  "sent_to r pipe = map payload_data (filter (\<lambda>payload. payload_pipe payload = pipe) (snd (run_radio r)))"

text \<open>A log that carries the replies handed over, in order and once each, among payloads out
  of the latches.\<close>

definition replies_accounted :: "link_config \<Rightarrow> nat \<Rightarrow> latched_item set \<Rightarrow> bytes list \<Rightarrow> bytes list \<Rightarrow> bool" where
  "replies_accounted cfg pipe latched_data replies log \<longleftrightarrow>
     (\<exists>groups payloads others. replies = concat groups \<and> list_all2 (carries cfg pipe) groups payloads \<and>
       log \<in> shuffles payloads others \<and> (\<forall>data \<in> set others. latched_payload cfg pipe latched_data data))"

lemma shuffles_snoc_left: "zs \<in> shuffles xs ys \<Longrightarrow> zs @ [x] \<in> shuffles (xs @ [x]) ys"
proof (induction zs arbitrary: xs ys)
  case Nil
  then show ?case by simp
next
  case (Cons z zs)
  from Cons.prems consider
      (left) "xs \<noteq> []" "hd xs = z" "zs \<in> shuffles (tl xs) ys"
    | (right) "ys \<noteq> []" "hd ys = z" "zs \<in> shuffles xs (tl ys)"
    by (auto simp: Cons_in_shuffles_iff)
  then show ?case
    by cases (use Cons.IH in \<open>auto simp: Cons_in_shuffles_iff\<close>)
qed

lemma shuffles_snoc_right: "zs \<in> shuffles xs ys \<Longrightarrow> zs @ [y] \<in> shuffles xs (ys @ [y])"
  using shuffles_snoc_left [of zs ys xs y] by (simp add: shuffles_commutes)

lemma accounted_reply:
  assumes "replies_accounted cfg pipe s replies log" and "carries cfg pipe fresh data"
  shows "replies_accounted cfg pipe s (replies @ fresh) (log @ [data])"
proof -
  from assms(1) obtain groups payloads others where "replies = concat groups"
    "list_all2 (carries cfg pipe) groups payloads" "log \<in> shuffles payloads others"
    "\<forall>data \<in> set others. latched_payload cfg pipe s data"
    by (auto simp: replies_accounted_def)
  then show ?thesis
    unfolding replies_accounted_def using assms(2)
    by (intro exI [of _ "groups @ [fresh]"] exI [of _ "payloads @ [data]"] exI [of _ others])
      (simp add: list_all2_appendI shuffles_snoc_left)
qed

lemma accounted_other:
  assumes "replies_accounted cfg pipe s replies log" and "latched_payload cfg pipe s data"
  shows "replies_accounted cfg pipe s replies (log @ [data])"
proof -
  from assms(1) obtain groups payloads others where "replies = concat groups"
    "list_all2 (carries cfg pipe) groups payloads" "log \<in> shuffles payloads others"
    "\<forall>data \<in> set others. latched_payload cfg pipe s data"
    by (auto simp: replies_accounted_def)
  then show ?thesis
    unfolding replies_accounted_def using assms(2)
    by (intro exI [of _ groups] exI [of _ payloads] exI [of _ "others @ [data]"])
      (simp add: shuffles_snoc_right)
qed

lemma latched_payload_mono:
  "latched_payload cfg pipe s data \<Longrightarrow> s \<subseteq> s' \<Longrightarrow> latched_payload cfg pipe s' data"
  unfolding latched_payload_def by blast

lemma accounted_mono:
  "replies_accounted cfg pipe s replies log \<Longrightarrow> s \<subseteq> s' \<Longrightarrow> replies_accounted cfg pipe s' replies log"
  unfolding replies_accounted_def using latched_payload_mono by blast

definition pipe_inv :: "link_config \<Rightarrow> nat \<Rightarrow> pipe_replies \<Rightarrow> bytes list \<Rightarrow> latched_item set \<Rightarrow> bytes list \<Rightarrow> bool" where
  "pipe_inv cfg pipe p handed_data latched_data log \<longleftrightarrow>
     latches_ok p \<and> pending_data p \<subseteq> latched_data \<and>
     (\<exists>sent. handed_data = sent @ reply_queue p \<and> replies_accounted cfg pipe latched_data sent log)"

definition link_inv :: "link_config \<Rightarrow> 'r link_run \<Rightarrow> bool" where
  "link_inv cfg r \<longleftrightarrow> length (link_pipes (run_central r)) = REPLY_PIPE_COUNT cfg \<and>
     (\<forall>pipe < REPLY_PIPE_COUNT cfg. pipe_inv cfg pipe (link_pipes (run_central r) ! pipe)
       (handed r pipe) (latched r pipe) (sent_to r pipe))"

lemma pending_data_stage_idle:
  "latch_ok (idle_reply_latch p) \<Longrightarrow>
   pending_data (p\<lparr>idle_reply_latch := latch_stage \<lparr>idle_data = data, idle_staged = n\<rparr> (idle_reply_latch p)\<rparr>)
   \<subseteq> insert (Idle_item data) (pending_data p)"
  by (auto simp: pending_data_def pending_stage)

lemma pending_data_stage_control:
  assumes "kind < length (control_latch p)" "latch_ok (control_latch p ! kind)"
  shows "pending_data (p\<lparr>control_latch := (control_latch p)[kind := latch_stage data (control_latch p ! kind)]\<rparr>)
    \<subseteq> insert (Control_item data) (pending_data p)"
proof -
  have "d = data \<or> latch_pending (control_latch p ! k) = Some (s, d)"
    if "k < length (control_latch p)"
      "latch_pending ((control_latch p)[kind := latch_stage data (control_latch p ! kind)] ! k) = Some (s, d)"
    for k s d
    using that assms by (cases "k = kind") (auto simp: pending_stage)
  then show ?thesis
    unfolding pending_data_def by fastforce
qed

lemma latches_ok_stage:
  assumes "latches_ok p"
  shows "kind < ESB_LINK_CONTROL_COUNT \<Longrightarrow>
      latches_ok (p\<lparr>control_latch := (control_latch p)[kind := latch_stage data (control_latch p ! kind)]\<rparr>) \<and>
      pending_data (p\<lparr>control_latch := (control_latch p)[kind := latch_stage data (control_latch p ! kind)]\<rparr>)
        \<subseteq> insert (Control_item data) (pending_data p)"
    and "latches_ok (p\<lparr>idle_reply_latch := latch_stage \<lparr>idle_data = data, idle_staged = n\<rparr> (idle_reply_latch p)\<rparr>)"
proof -
  have ok: "kind < ESB_LINK_CONTROL_COUNT \<Longrightarrow> kind < length (control_latch p) \<and> latch_ok (control_latch p ! kind)"
    "latch_ok (idle_reply_latch p)"
    using assms by (auto simp: latches_ok_def)
  then show "latches_ok (p\<lparr>idle_reply_latch := latch_stage \<lparr>idle_data = data, idle_staged = n\<rparr> (idle_reply_latch p)\<rparr>)"
    using assms by (intro latches_ok_idle latch_ok_stage)
  assume "kind < ESB_LINK_CONTROL_COUNT"
  with ok(1) show "latches_ok (p\<lparr>control_latch := (control_latch p)[kind := latch_stage data (control_latch p ! kind)]\<rparr>) \<and>
      pending_data (p\<lparr>control_latch := (control_latch p)[kind := latch_stage data (control_latch p ! kind)]\<rparr>)
        \<subseteq> insert (Control_item data) (pending_data p)"
    using assms by (auto simp del: fun_upd_apply intro!: latches_ok_control latch_ok_stage
        dest: pending_data_stage_control [THEN subsetD, rotated 2])
qed

lemma pipe_inv_latched:
  assumes "pipe_inv cfg pipe p h l s" and "latches_ok p'" "pending_data p' \<subseteq> insert item (pending_data p)"
    and "reply_queue p' = reply_queue p"
  shows "pipe_inv cfg pipe p' h (insert item l) s"
proof -
  obtain sent where "h = sent @ reply_queue p" "replies_accounted cfg pipe l sent s" "pending_data p \<subseteq> l"
    using assms(1) by (auto simp: pipe_inv_def)
  moreover have "replies_accounted cfg pipe (insert item l) sent s"
    using accounted_mono calculation(2) by (metis subset_insertI)
  ultimately show ?thesis
    using assms(2-4) by (auto simp: pipe_inv_def)
qed

lemma pipe_inv_grow: "pipe_inv cfg pipe p h l s \<Longrightarrow> pipe_inv cfg pipe p h (insert item l) s"
  using pipe_inv_latched [of cfg pipe p h l s p item] by (auto simp: pipe_inv_def)

lemma pipe_inv_put:
  "pipe_inv cfg pipe p h l s \<Longrightarrow> pipe_inv cfg pipe (p\<lparr>reply_queue := reply_queue p @ [data]\<rparr>) (h @ [data]) l s"
  by (auto simp: pipe_inv_def)

lemma latch_ok_new_two: "latch_ok (latch_new 2 v)"
  by (rule latch_ok_new) auto

lemma link_inv_boot: "link_inv cfg (link_run_boot cfg radio)"
proof -
  have "latches_ok reply_latches_init" "pending_data reply_latches_init = {}"
    by (simp_all add: latches_ok_def reply_latches_init_def pending_data_def CONTROL_LATCH_SLOTS_def
        IDLE_REPLY_SLOTS_def latch_ok_new_two ESB_LINK_CONTROL_COUNT_def)
  moreover have "reply_queue reply_latches_init = []" by (simp add: reply_latches_init_def)
  moreover have "replies_accounted cfg pipe {} [] []" for pipe
    unfolding replies_accounted_def by (intro exI [of _ "[]"]) simp
  ultimately show ?thesis
    by (simp add: link_inv_def link_run_boot_def link_central_boot_def pipe_inv_def sent_to_def)
qed

lemma link_inv_update:
  assumes "link_inv cfg r" and "pipe < REPLY_PIPE_COUNT cfg"
    and "sent_to r' = sent_to r" and "run_central r' = update_pipe pipe f (run_central r)"
    and "\<And>other. other \<noteq> pipe \<Longrightarrow> handed r' other = handed r other \<and> latched r' other = latched r other"
    and "pipe_inv cfg pipe (f (link_pipes (run_central r) ! pipe)) (handed r' pipe) (latched r' pipe) (sent_to r pipe)"
  shows "link_inv cfg r'"
  using assms unfolding link_inv_def
  by (metis link_pipes_update(1,2,3))

lemma pipe_inv_of: "link_inv cfg r \<Longrightarrow> pipe < REPLY_PIPE_COUNT cfg \<Longrightarrow>
  pipe_inv cfg pipe (link_pipes (run_central r) ! pipe) (handed r pipe) (latched r pipe) (sent_to r pipe)"
  by (simp add: link_inv_def)

lemma link_inv_latch:
  assumes "link_inv cfg r" and "pipe < REPLY_PIPE_COUNT cfg"
    and "\<And>p. latches_ok p \<Longrightarrow> latches_ok (f p) \<and> pending_data (f p) \<subseteq> insert item (pending_data p)"
    and "\<And>p. reply_queue (f p) = reply_queue p"
    and "run_central r' = update_pipe pipe f (run_central r)" "run_radio r' = run_radio r" "handed r' = handed r"
    and "latched r' = (latched r)(pipe := insert item (latched r pipe))"
  shows "link_inv cfg r'"
proof (rule link_inv_update [OF assms(1,2) _ assms(5)])
  show "pipe_inv cfg pipe (f (link_pipes (run_central r) ! pipe)) (handed r' pipe) (latched r' pipe) (sent_to r pipe)"
    using pipe_inv_latched [OF pipe_inv_of [OF assms(1,2)], of "f (link_pipes (run_central r) ! pipe)" item]
      pipe_inv_of [OF assms(1,2)] assms(3,4,7,8) by (simp add: pipe_inv_def)
qed (auto simp: sent_to_def assms(6,7,8))

lemma link_inv_refused:
  assumes "link_inv cfg r" and "run_central r' = run_central r" "run_radio r' = run_radio r" "handed r' = handed r"
    and "latched r' = (latched r)(pipe := insert item (latched r pipe))"
  shows "link_inv cfg r'"
  using assms by (auto simp: link_inv_def sent_to_def pipe_inv_grow)

lemma link_inv_serves:
  assumes "link_inv cfg r" and "pipe < REPLY_PIPE_COUNT cfg"
    and "serves cfg pipe (run_central r) (snd (run_radio r)) lc log"
  shows "link_inv cfg (r\<lparr>run_central := lc, run_radio := (radio, log)\<rparr>)"
proof -
  define r' where "r' = r\<lparr>run_central := lc, run_radio := (radio, log)\<rparr>"
  obtain payload where payload:
    "served cfg pipe (link_pipes (run_central r) ! pipe) (link_pipes lc ! pipe) payload"
    "log = snd (run_radio r) @ (case payload of None \<Rightarrow> [] | Some data \<Rightarrow> [\<lparr>payload_pipe = pipe, payload_data = data\<rparr>])"
    using assms(3) by (auto simp: serves_def)
  have others: "\<forall>other. other \<noteq> pipe \<longrightarrow> link_pipes lc ! other = link_pipes (run_central r) ! other"
    "length (link_pipes lc) = length (link_pipes (run_central r))"
    using assms(3) by (auto simp: serves_def)
  have sent: "sent_to r' other = sent_to r other" if "other \<noteq> pipe" for other
    using that by (auto simp: sent_to_def r'_def payload(2) split: option.splits)
  have sent_pipe: "sent_to r' pipe = sent_to r pipe @ (case payload of None \<Rightarrow> [] | Some data \<Rightarrow> [data])"
    by (auto simp: sent_to_def r'_def payload(2) split: option.splits)
  note inv = pipe_inv_of [OF assms(1,2)]
  obtain sent where sent_split: "handed r pipe = sent @ reply_queue (link_pipes (run_central r) ! pipe)"
    "replies_accounted cfg pipe (latched r pipe) sent (sent_to r pipe)"
    using inv by (auto simp: pipe_inv_def)
  have "\<exists>sent'. handed r pipe = sent' @ reply_queue (link_pipes lc ! pipe) \<and>
      replies_accounted cfg pipe (latched r pipe) sent' (sent_to r' pipe)"
  proof (cases payload)
    case None
    then show ?thesis using payload(1) sent_split sent_pipe by (auto simp: served_def)
  next
    case (Some data)
    have "latched_payload cfg pipe (pending_data (link_pipes (run_central r) ! pipe)) data \<Longrightarrow>
        latched_payload cfg pipe (latched r pipe) data"
      using inv by (auto simp: pipe_inv_def intro: latched_payload_mono)
    then show ?thesis
      using payload(1) sent_split sent_pipe Some accounted_reply [OF sent_split(2)] accounted_other [OF sent_split(2)]
      by (auto simp: served_def)
  qed
  then have "pipe_inv cfg pipe (link_pipes lc ! pipe) (handed r' pipe) (latched r' pipe) (sent_to r' pipe)"
    using inv payload(1) by (auto simp: pipe_inv_def served_def r'_def)
  then have "link_inv cfg r'"
    unfolding link_inv_def using assms(1) others sent
    by (auto simp: r'_def link_inv_def) (metis (no_types))
  then show ?thesis by (simp add: r'_def)
qed

lemma link_inv_step:
  assumes "link_step cfg put_payload r r'" and "link_inv cfg r"
  shows "link_inv cfg r'"
  using assms(1)
proof cases
  case (put pipe data lc result)
  show ?thesis
  proof (cases "result = Ok")
    case True
    then have "pipe < REPLY_PIPE_COUNT cfg" "lc = update_pipe pipe (\<lambda>p. p\<lparr>reply_queue := reply_queue p @ [data]\<rparr>) (run_central r)"
      using put(2) by (auto simp: stage_reply_put_def split: if_splits)
    then show ?thesis
      using pipe_inv_put [OF pipe_inv_of [OF assms(2)]] True
      by (intro link_inv_update [OF assms(2)]) (auto simp: put(1) sent_to_def)
  next
    case False
    then have "lc = run_central r" using put(2) by (auto simp: stage_reply_put_def split: if_splits)
    then show ?thesis using assms(2) False by (auto simp: put(1) link_inv_def sent_to_def)
  qed
next
  case (counted pipe)
  show ?thesis
  proof (cases "pipe < REPLY_PIPE_COUNT cfg")
    case True
    then show ?thesis
      using pipe_inv_of [OF assms(2) True]
      by (intro link_inv_update [OF assms(2) True, where f = "\<lambda>p. p\<lparr>replies_staged := replies_staged p + 1\<rparr>"])
        (auto simp: counted stage_reply_count_def sent_to_def pipe_inv_def)
  next
    case False
    then show ?thesis
      using assms(2) by (simp add: counted link_inv_def sent_to_def stage_reply_count_def update_pipe_def)
  qed
next
  case (control pipe kind data lc result)
  show ?thesis
  proof (cases "result = Ok")
    case True
    then have pipe: "pipe < REPLY_PIPE_COUNT cfg" "kind < ESB_LINK_CONTROL_COUNT"
      "lc = update_pipe pipe (\<lambda>p. p\<lparr>control_latch :=
        (control_latch p)[kind := latch_stage data (control_latch p ! kind)]\<rparr>) (run_central r)"
      using control(2) by (auto simp: esb_link_latch_control_def split: if_splits)
    show ?thesis
      by (rule link_inv_latch [OF assms(2) pipe(1) _ _ _ _ _ _, where item = "Control_item data"])
        (use pipe(2) in \<open>simp_all add: control(1) pipe(3) latches_ok_stage\<close>)
  next
    case False
    then have "lc = run_central r" using control(2) by (auto simp: esb_link_latch_control_def split: if_splits)
    then show ?thesis using link_inv_refused [OF assms(2)] by (simp add: control(1) False)
  qed
next
  case (idle pipe data lc result)
  show ?thesis
  proof (cases "result = Ok")
    case True
    then have pipe: "pipe < REPLY_PIPE_COUNT cfg" "lc = update_pipe pipe (\<lambda>p. p\<lparr>idle_reply_latch :=
      latch_stage \<lparr>idle_data = data, idle_staged = replies_staged p\<rparr> (idle_reply_latch p)\<rparr>) (run_central r)"
      using idle(2) by (auto simp: esb_link_latch_idle_reply_def split: if_splits)
    show ?thesis
      by (rule link_inv_latch [OF assms(2) pipe(1) _ _ _ _ _ _, where item = "Idle_item data"])
        (simp_all add: idle(1) pipe(2) latches_ok_stage pending_data_stage_idle latches_ok_latch)
  next
    case False
    then have "lc = run_central r" using idle(2) by (auto simp: esb_link_latch_idle_reply_def split: if_splits)
    then show ?thesis using link_inv_refused [OF assms(2)] by (simp add: idle(1) False)
  qed
next
  case (pointer rp)
  then show ?thesis using assms(2) by (simp add: link_inv_def sent_to_def)
next
  case (rx_done pipe active lc radio)
  obtain radio0 log0 radio1 log1 where pairs: "run_radio r = (radio0, log0)" "radio = (radio1, log1)"
    by (metis surj_pair)
  have ready: "pipe < length (link_pipes (run_central r))"
    "length (control_latch (link_pipes (run_central r) ! pipe)) = ESB_LINK_CONTROL_COUNT"
    using assms(2) rx_done(2) by (auto simp: link_inv_def pipe_inv_def latches_ok_def)
  have "serves cfg pipe (run_central r) log0 lc log1"
    using rx_done_pipe_serves [OF _ ready] rx_done(3) pairs by simp
  then show ?thesis
    using link_inv_serves [OF assms(2) rx_done(2)] pairs by (simp add: rx_done(1))
qed

lemma link_inv_reaches: "link_reaches cfg put_payload radio r \<Longrightarrow> link_inv cfg r"
  unfolding link_reaches_def
  by (induction rule: rtranclp_induct) (auto intro: link_inv_boot link_inv_step)

text \<open>
  Claim C9: whatever threads stage and the radio refuses, in any interleaving, each reply a
  pipe's queue accepted is either still queued or was carried by exactly one payload the radio
  took for that pipe, in the order staged; every other payload came out of the latches.
\<close>

theorem link_replies_exactly_once:
  assumes "link_reaches cfg put_payload radio r" and "pipe < REPLY_PIPE_COUNT cfg"
  shows "\<exists>sent. handed r pipe = sent @ reply_queue (link_pipes (run_central r) ! pipe) \<and>
    replies_accounted cfg pipe (latched r pipe) sent (sent_to r pipe)"
  using pipe_inv_of [OF link_inv_reaches [OF assms(1)] assms(2)] by (simp add: pipe_inv_def)

definition link_example :: link_config where
  "link_example = \<lparr>max_payload = 48, link_pipe_count = 2, reply_queue_depth = [8, 8], relay_pipes = [False, True],
     self_pipes = [False, False],
     zmk_reports = \<lparr>id_keyboard = 1, id_consumer = 2, id_mouse = 3, id_leds = 1, keyboard_size = 9,
       consumer_size = 13, mouse_buttons = 5\<rparr>\<rparr>"

definition take_all :: "unit radio_write" where
  "take_all radio payload = (radio, Ok)"

definition example_run :: "unit link_run" where
  "example_run = (link_run_boot link_example ())\<lparr>
     run_central := fst (rx_done_pipe (logged take_all) link_example True 0
       (fst (stage_reply_put link_example 0 [7, 8] (link_central_boot link_example))) ((), [])),
     run_radio := ((), [\<lparr>payload_pipe = 0, payload_data = [7, 8]\<rparr>]),
     handed := (\<lambda>_. [])(0 := [[7, 8]])\<rparr>"

lemma control_count_Suc: "ESB_LINK_CONTROL_COUNT = Suc (Suc 0)"
  by (simp add: ESB_LINK_CONTROL_COUNT_def)

lemmas example_simps = link_example_def link_central_boot_def reply_latches_init_def REPLY_PIPE_COUNT_def
  stage_reply_put_def update_pipe_def rx_done_pipe_def write_pending_control_def control_count_Suc
  latch_pending_def latch_new_def spsc_latch_peek_def write_queued_replies_def pack_queued_replies_def
  queued_room_def esb_link_pipe_is_relay_def stamped_reply_def append_pointer_def logged_def take_all_def
  write_reply_def commit_pointer_def

lemma example_pass:
  "rx_done_pipe (logged take_all) link_example True 0
     (fst (stage_reply_put link_example 0 [7, 8] (link_central_boot link_example))) ((), []) =
   (link_central_boot link_example, ((), [\<lparr>payload_pipe = 0, payload_data = [7, 8]\<rparr>]))"
  by (simp add: example_simps Let_def)

lemma example_run_reached: "link_reaches link_example take_all () example_run"
proof -
  define lc where "lc = fst (stage_reply_put link_example 0 [7, 8] (link_central_boot link_example))"
  have put: "stage_reply_put link_example 0 [7, 8] (run_central (link_run_boot link_example ())) = (lc, Ok)"
    by (simp add: lc_def link_run_boot_def stage_reply_put_def) (simp add: example_simps)
  define r1 where "r1 = (link_run_boot link_example ())\<lparr>run_central := lc, handed := (\<lambda>_. [])(0 := [[7, 8]])\<rparr>"
  have "link_step link_example take_all (link_run_boot link_example ()) r1"
    using link_step.put [OF put, of take_all] by (simp add: r1_def link_run_boot_def)
  moreover have "link_step link_example take_all r1 example_run"
    using link_step.rx_done [of 0 link_example take_all True r1 "link_central_boot link_example"
        "((), [\<lparr>payload_pipe = 0, payload_data = [7, 8]\<rparr>])"] example_pass
    by (simp add: r1_def example_run_def lc_def link_run_boot_def REPLY_PIPE_COUNT_def link_example_def)
  ultimately show ?thesis
    by (simp add: link_reaches_def)
qed

theorem link_replies_exactly_once_witness:
  "\<exists>sent. [[7, 8]] = sent @ reply_queue (link_pipes (run_central example_run) ! 0) \<and>
    replies_accounted link_example 0 {} sent (sent_to example_run 0)"
proof -
  have "0 < REPLY_PIPE_COUNT link_example" by (simp add: REPLY_PIPE_COUNT_def link_example_def)
  from link_replies_exactly_once [OF example_run_reached this] show ?thesis
    by (simp add: example_run_def link_run_boot_def)
qed

section \<open>Idle replies\<close>

text \<open>The count an idle reply was latched at.\<close>

definition counts_ok :: "link_config \<Rightarrow> 'r link_run \<Rightarrow> bool" where
  "counts_ok cfg r \<longleftrightarrow> (\<forall>pipe < REPLY_PIPE_COUNT cfg.
     let p = link_pipes (run_central r) ! pipe
     in replies_staged p = of_nat (counts r pipe) \<and> idle_counts r pipe \<le> counts r pipe \<and>
       (\<forall>slot reply. latch_pending (idle_reply_latch p) = Some (slot, reply) \<longrightarrow>
          idle_staged reply = of_nat (idle_counts r pipe)))"

lemma counts_ok_boot: "counts_ok cfg (link_run_boot cfg radio)"
  by (simp add: counts_ok_def link_run_boot_def link_central_boot_def reply_latches_init_def)

lemma counts_ok_keep:
  assumes "counts_ok cfg r" and "counts r' = counts r" "idle_counts r' = idle_counts r"
    and "\<And>pipe x. pipe < REPLY_PIPE_COUNT cfg \<Longrightarrow>
      replies_staged (link_pipes (run_central r') ! pipe) = replies_staged (link_pipes (run_central r) ! pipe) \<and>
      (latch_pending (idle_reply_latch (link_pipes (run_central r') ! pipe)) = Some x \<longrightarrow>
       latch_pending (idle_reply_latch (link_pipes (run_central r) ! pipe)) = Some x)"
  shows "counts_ok cfg r'"
  using assms unfolding counts_ok_def Let_def by metis

lemma update_pipe_keeps:
  assumes "\<And>p. g (f p) = g p"
  shows "g (link_pipes (update_pipe pipe f lc) ! other) = g (link_pipes lc ! other)"
proof (cases "other = pipe")
  case True
  then show ?thesis
    using assms by (cases "pipe < length (link_pipes lc)") (simp_all add: update_pipe_def list_update_beyond)
qed (simp add: link_pipes_update)

lemma counts_ok_step:
  assumes "link_step cfg put_payload r r'" and "counts_ok cfg r" and "link_inv cfg r"
  shows "counts_ok cfg r'"
  using assms(1)
proof cases
  case (put pipe data lc result)
  have "replies_staged (link_pipes lc ! other) = replies_staged (link_pipes (run_central r) ! other)"
    "idle_reply_latch (link_pipes lc ! other) = idle_reply_latch (link_pipes (run_central r) ! other)" for other
    using put(2) by (auto simp: stage_reply_put_def update_pipe_keeps split: if_splits)
  then show ?thesis by (intro counts_ok_keep [OF assms(2)]) (simp_all add: put(1))
next
  case (counted pipe)
  then show ?thesis
    using assms(2,3) by (auto simp: counts_ok_def stage_reply_count_def link_inv_def Let_def update_pipe_def
        nth_list_update)
next
  case (control pipe kind data lc result)
  have "replies_staged (link_pipes lc ! other) = replies_staged (link_pipes (run_central r) ! other)"
    "idle_reply_latch (link_pipes lc ! other) = idle_reply_latch (link_pipes (run_central r) ! other)" for other
    using control(2) by (auto simp: esb_link_latch_control_def update_pipe_keeps split: if_splits)
  then show ?thesis by (intro counts_ok_keep [OF assms(2)]) (simp_all add: control(1))
next
  case (idle pipe data lc result)
  have ok: "pipe < REPLY_PIPE_COUNT cfg \<Longrightarrow> latch_ok (idle_reply_latch (link_pipes (run_central r) ! pipe))"
    using pipe_inv_of [OF assms(3)] by (auto simp: pipe_inv_def latches_ok_def)
  show ?thesis
  proof (cases "result = Ok")
    case True
    then show ?thesis
      using assms(2,3) idle(2) ok
      by (auto simp: idle(1) counts_ok_def esb_link_latch_idle_reply_def link_inv_def Let_def update_pipe_def
          nth_list_update pending_stage split: if_splits)
  next
    case False
    then have "lc = run_central r" using idle(2) by (auto simp: esb_link_latch_idle_reply_def split: if_splits)
    then show ?thesis using assms(2) False by (auto simp: idle(1) counts_ok_def)
  qed
next
  case (pointer rp)
  then show ?thesis by (intro counts_ok_keep [OF assms(2)]) simp_all
next
  case (rx_done pipe active lc radio)
  obtain radio0 log0 radio1 log1 where pairs: "run_radio r = (radio0, log0)" "radio = (radio1, log1)"
    by (metis surj_pair)
  have ready: "pipe < length (link_pipes (run_central r))"
    "length (control_latch (link_pipes (run_central r) ! pipe)) = ESB_LINK_CONTROL_COUNT"
    using assms(3) rx_done(2) by (auto simp: link_inv_def pipe_inv_def latches_ok_def)
  have "serves cfg pipe (run_central r) log0 lc log1"
    using rx_done_pipe_serves [OF _ ready] rx_done(3) pairs by simp
  then have "replies_staged (link_pipes lc ! p) = replies_staged (link_pipes (run_central r) ! p)"
    "latch_pending (idle_reply_latch (link_pipes lc ! p)) = Some x \<Longrightarrow>
     latch_pending (idle_reply_latch (link_pipes (run_central r) ! p)) = Some x" for p x
    by (cases "p = pipe"; auto simp: serves_def served_def)+
  then show ?thesis
    by (intro counts_ok_keep [OF assms(2)]) (simp_all add: rx_done(1))
qed

lemma counts_ok_reaches: "link_reaches cfg put_payload radio r \<Longrightarrow> counts_ok cfg r \<and> link_inv cfg r"
  unfolding link_reaches_def
  by (induction rule: rtranclp_induct) (auto intro: link_inv_boot link_inv_step counts_ok_boot counts_ok_step)

lemma of_nat_u32_eq:
  assumes "(of_nat m :: u32) = of_nat n" and "m \<le> n" "n - m < 2 ^ 32"
  shows "m = n"
proof -
  have "m mod 2 ^ 32 = n mod 2 ^ 32"
    using assms(1) by (simp add: word_unat_eq_iff unat_of_nat take_bit_eq_mod)
  then have "2 ^ 32 dvd n - m"
    using assms(2) by (metis mod_eq_dvd_iff_nat)
  then show ?thesis
    using assms(2,3) by (metis diff_is_0_eq dvd_imp_le le_antisym not_gr_zero not_less)
qed

text \<open>
  Claim C26: an idle reply is written only when no reply was counted since it was latched, so
  the refresh of a relay's state never undoes a change staged after it, as long as fewer than
  \<open>2 ^ 32\<close> replies were counted in between.
\<close>

theorem idle_reply_never_undoes:
  assumes "link_reaches cfg put_payload radio r" and "pipe < REPLY_PIPE_COUNT cfg"
    and "counts r pipe - idle_counts r pipe < 2 ^ 32"
    and "snd (fresh_idle_reply pipe (run_central r)) \<noteq> None"
  shows "counts r pipe = idle_counts r pipe"
proof -
  have ok: "counts_ok cfg r" using counts_ok_reaches [OF assms(1)] by simp
  obtain slot reply where "latch_pending (idle_reply_latch (link_pipes (run_central r) ! pipe)) = Some (slot, reply)"
    "idle_staged reply = replies_staged (link_pipes (run_central r) ! pipe)"
    using assms(4) by (cases rule: fresh_idle_reply_cases [of "run_central r" pipe]) auto
  then have "(of_nat (idle_counts r pipe) :: u32) = of_nat (counts r pipe)" "idle_counts r pipe \<le> counts r pipe"
    using ok assms(2) by (auto simp: counts_ok_def Let_def)
  then show ?thesis
    using of_nat_u32_eq assms(3) by metis
qed

definition example_idle_run :: "unit link_run" where
  "example_idle_run = (link_run_boot link_example ())\<lparr>
     run_central := fst (esb_link_latch_idle_reply link_example 0 [5] (link_central_boot link_example)),
     latched := (\<lambda>_. {})(0 := {Idle_item [5]})\<rparr>"

lemma example_idle_reached: "link_reaches link_example take_all () example_idle_run"
proof -
  have "esb_link_latch_idle_reply link_example 0 [5] (run_central (link_run_boot link_example ())) =
      (fst (esb_link_latch_idle_reply link_example 0 [5] (link_central_boot link_example)), Ok)"
    by (simp add: link_run_boot_def esb_link_latch_idle_reply_def REPLY_PIPE_COUNT_def link_example_def)
  from link_step.idle [OF this, of take_all]
  have "link_step link_example take_all (link_run_boot link_example ()) example_idle_run"
    by (simp add: example_idle_run_def link_run_boot_def fun_upd_idem)
  then show ?thesis by (simp add: link_reaches_def)
qed

theorem idle_reply_never_undoes_witness:
  "counts example_idle_run 0 = idle_counts example_idle_run 0"
proof -
  have pipe: "0 < REPLY_PIPE_COUNT link_example" by (simp add: REPLY_PIPE_COUNT_def link_example_def)
  have few: "counts example_idle_run 0 - idle_counts example_idle_run 0 < 2 ^ 32"
    by (simp add: example_idle_run_def link_run_boot_def)
  have fresh: "snd (fresh_idle_reply 0 (run_central example_idle_run)) \<noteq> None"
    by (simp add: example_idle_run_def fresh_idle_reply_def esb_link_latch_idle_reply_def example_simps
        latch_stage_def spsc_latch_claim_def spsc_latch_publish_def IDLE_REPLY_SLOTS_def Let_def)
  show ?thesis
    by (rule idle_reply_never_undoes [OF example_idle_reached pipe few fresh])
qed

text \<open>Between the put of a reply and its count the guard is open: a pass may carry the reply and
  the next one the older idle reply after it.\<close>

lemma uncounted_reply_overtaken:
  "let lc = fst (esb_link_latch_idle_reply link_example 0 [5] (link_central_boot link_example));
       lc = fst (stage_reply_put link_example 0 [7, 8] lc);
       (lc, radio) = rx_done_pipe (logged take_all) link_example True 0 lc ((), []);
       (lc, radio) = rx_done_pipe (logged take_all) link_example True 0 lc radio
   in map payload_data (snd radio) = [[7, 8], [5]]"
  by (simp add: esb_link_latch_idle_reply_def example_simps latch_stage_def spsc_latch_claim_def
        spsc_latch_publish_def IDLE_REPLY_SLOTS_def write_idle_reply_def fresh_idle_reply_def
        latch_release_def spsc_latch_release_def Let_def)

end
