(* ===== verification/Relay_Central.thy ===== *)
theory Relay_Central
  imports Link_Central
begin

text \<open>
  The HID relay's central half (\<open>src/esb_hid_relay_central.c\<close>): every key change queued as
  a report on every relay pipe, the whole state latched for the keepalive, and the pause while
  the central has a host of its own. ZMK's report state is the argument \<open>hid_state\<close>.
\<close>

record zmk_hid_state =
  zmk_hid_get_keyboard_report :: bytes
  zmk_hid_get_consumer_report :: bytes
  zmk_mouse_buttons :: u8

record relay_central =
  relay_link :: link_central
  paused :: bool

definition relay_central_boot :: "link_config \<Rightarrow> relay_central" where
  "relay_central_boot cfg = \<lparr>relay_link = link_central_boot cfg, paused = False\<rparr>"

definition released_keyboard :: "zmk_hid \<Rightarrow> bytes" where
  "released_keyboard hid = id_keyboard hid # replicate (keyboard_size hid - 1) 0"

definition released_consumer :: "zmk_hid \<Rightarrow> bytes" where
  "released_consumer hid = id_consumer hid # replicate (consumer_size hid - 1) 0"

definition esb_hid_relay_active :: "relay_central \<Rightarrow> bool" where
  "esb_hid_relay_active rc = (\<not> paused rc)"

definition stage_report :: "link_config \<Rightarrow> nat \<Rightarrow> bytes \<Rightarrow> link_central \<Rightarrow> link_central" where
  "stage_report cfg pipe report lc = fst (esb_link_stage_reply cfg pipe report lc)"

definition esb_hid_relay_stage :: "link_config \<Rightarrow> bytes \<Rightarrow> relay_central \<Rightarrow> relay_central" where
  "esb_hid_relay_stage cfg report rc = rc\<lparr>relay_link :=
     fold (\<lambda>pipe lc. if \<not> esb_link_pipe_is_relay cfg pipe then lc else stage_report cfg pipe report lc)
       [0..<link_pipe_count cfg] (relay_link rc)\<rparr>"

definition latch_reports :: "link_config \<Rightarrow> nat \<Rightarrow> bytes \<Rightarrow> bytes \<Rightarrow> link_central \<Rightarrow> link_central" where
  "latch_reports cfg pipe keyboard consumer lc =
     fst (esb_link_latch_idle_reply cfg pipe (keyboard @ consumer) lc)"

definition latch_relay_reports :: "link_config \<Rightarrow> zmk_hid_state \<Rightarrow> relay_central \<Rightarrow> relay_central" where
  "latch_relay_reports cfg hid_state rc =
     (let active = esb_hid_relay_active rc;
          lc = fold (\<lambda>pipe lc.
                 if \<not> esb_link_pipe_is_relay cfg pipe then lc
                 else if active
                 then latch_reports cfg pipe (zmk_hid_get_keyboard_report hid_state)
                        (zmk_hid_get_consumer_report hid_state) lc
                 else latch_reports cfg pipe (released_keyboard (zmk_reports cfg))
                        (released_consumer (zmk_reports cfg)) lc)
               [0..<link_pipe_count cfg] (relay_link rc)
      in rc\<lparr>relay_link := lc\<lparr>link_pointer := esb_hid_relay_pointer_refresh (link_pointer lc)\<rparr>\<rparr>)"

text \<open>The delay until the next keepalive is the second result.\<close>

definition hid_relay_keepalive_fire :: "link_config \<Rightarrow> nat \<Rightarrow> zmk_hid_state \<Rightarrow> relay_central \<Rightarrow> relay_central \<times> nat" where
  "hid_relay_keepalive_fire cfg keepalive_ms hid_state rc =
     (latch_relay_reports cfg hid_state rc, keepalive_ms)"

definition hid_relay_keepalive_init :: "nat \<Rightarrow> nat \<times> status" where
  "hid_relay_keepalive_init keepalive_ms = (keepalive_ms, Ok)"

definition HID_USAGE_CONSUMER :: u16 where "HID_USAGE_CONSUMER = 0x0C"

definition stage_keycode :: "link_config \<Rightarrow> zmk_hid_state \<Rightarrow> u16 \<Rightarrow> relay_central \<Rightarrow> relay_central" where
  "stage_keycode cfg hid_state usage_page rc =
     (if \<not> esb_hid_relay_active rc then rc
      else if usage_page = HID_USAGE_CONSUMER
      then esb_hid_relay_stage cfg (zmk_hid_get_consumer_report hid_state) rc
      else esb_hid_relay_stage cfg (zmk_hid_get_keyboard_report hid_state) rc)"

definition follow_endpoint :: "link_config \<Rightarrow> zmk_hid_state \<Rightarrow> bool \<Rightarrow> relay_central \<Rightarrow> relay_central" where
  "follow_endpoint cfg hid_state has_transport rc =
     (let rc = rc\<lparr>paused := has_transport\<rparr>;
          lc = relay_link rc;
          rc = rc\<lparr>relay_link := lc\<lparr>link_pointer :=
                 esb_hid_relay_pointer_reset (esb_hid_relay_active rc) (zmk_mouse_buttons hid_state) (link_pointer lc)\<rparr>\<rparr>
      in latch_relay_reports cfg hid_state rc)"

datatype zmk_relay_event = Keycode_state_changed u16 | Endpoint_changed bool | Other_event

definition hid_relay_listener :: "link_config \<Rightarrow> zmk_hid_state \<Rightarrow> zmk_relay_event \<Rightarrow> relay_central \<Rightarrow> relay_central" where
  "hid_relay_listener cfg hid_state event rc =
     (case event of
        Keycode_state_changed usage_page \<Rightarrow> stage_keycode cfg hid_state usage_page rc
      | Endpoint_changed has_transport \<Rightarrow> follow_endpoint cfg hid_state has_transport rc
      | Other_event \<Rightarrow> rc)"

text \<open>The pointer processor's part on this state.\<close>

definition relay_pointer_event :: "link_config \<Rightarrow> u8 \<Rightarrow> u16 \<Rightarrow> i32 \<Rightarrow> bool \<Rightarrow> relay_central \<Rightarrow> relay_central" where
  "relay_pointer_event cfg type code val sync rc =
     (let (rp, staged) = relay_pointer_handle_event (zmk_reports cfg) (esb_hid_relay_active rc) type code val sync
                           (link_pointer (relay_link rc));
          rc = rc\<lparr>relay_link := (relay_link rc)\<lparr>link_pointer := rp\<rparr>\<rparr>
      in case staged of None \<Rightarrow> rc | Some report \<Rightarrow> esb_hid_relay_stage cfg report rc)"

section \<open>While the central has a host of its own\<close>

definition released_report :: "zmk_hid \<Rightarrow> relay_pointer \<Rightarrow> bytes \<Rightarrow> bool" where
  "released_report hid rp report \<longleftrightarrow> body_buttons (mouse_body_of report) = 0 \<and>
     d_x (mouse_body_of report) = d_x (written_body rp) \<and> d_y (mouse_body_of report) = d_y (written_body rp) \<and>
     d_scroll_y (mouse_body_of report) = d_scroll_y (written_body rp) \<and>
     d_scroll_x (mouse_body_of report) = d_scroll_x (written_body rp)"

lemma mouse_body_of_exact [simp]: "mouse_body_of (mouse_report hid body) = body"
  using mouse_body_of_report [of hid body "[]"] by simp

text \<open>
  While the central has a host of its own the dongle stays released: every pointer
  report a pass stamps or takes then holds no button and the totals the dongle last saw, and no
  key change is queued.
\<close>

theorem relay_paused_releases:
  assumes "paused rc"
  shows "hid_relay_listener cfg hid_state (Keycode_state_changed usage_page) rc = rc \<and>
    relay_pointer_event cfg type code val sync rc = rc \<and>
    (\<forall>report stamped. esb_hid_relay_pointer_stamp hid (esb_hid_relay_active rc) report rp = Some stamped \<longrightarrow>
      released_report hid rp stamped) \<and>
    (\<forall>room queued taken_report. esb_hid_relay_pointer_take hid (esb_hid_relay_active rc) room queued rp = taken_report \<and>
      taken_report \<noteq> [] \<longrightarrow> released_report hid rp taken_report)"
  using assms
  by (auto simp: stage_keycode_def esb_hid_relay_active_def hid_relay_listener_def relay_pointer_event_def
      relay_pointer_handle_event_def esb_hid_relay_pointer_stamp_def esb_hid_relay_pointer_take_def
      released_report_def stamp_totals_def report_buttons_def Let_def split: if_splits)

theorem relay_paused_releases_witness:
  "released_report (zmk_reports link_example) (relay_pointer_boot\<lparr>sum_d_x := 9, buttons := 1, refresh_due := True\<rparr>)
     (mouse_report (zmk_reports link_example) (written_body relay_pointer_boot))"
proof -
  have "paused ((relay_central_boot link_example)\<lparr>paused := True\<rparr>)" by simp
  note released = relay_paused_releases [OF this, THEN conjunct2, THEN conjunct2, THEN conjunct2, rule_format, OF conjI [OF refl]]
  show ?thesis
    using released [where room = 10 and queued = False and hid = "zmk_reports link_example"
      and rp = "relay_pointer_boot\<lparr>sum_d_x := 9, buttons := 1, refresh_due := True\<rparr>"]
    by (simp add: esb_hid_relay_pointer_take_def esb_hid_relay_active_def ESB_HID_RELAY_POINTER_LENGTH_def
        stamp_totals_def report_buttons_def relay_pointer_boot_def mouse_report_def Let_def)
qed

end
