(* ===== verification/Relay_Sink.thy ===== *)
theory Relay_Sink
  imports Relay_Pointer
begin

text \<open>
  The HID relay's dongle half (\<open>src/esb_hid_relay_peripheral.c\<close>): a received payload
  split into whole reports, each delivered to the registered sink when it is news, the pointer's
  totals turned back into deltas. The sink is a function on its own state; a refused report is
  left for the next one to retry. \<open>loss_detect_ms\<close> is \<open>ESB_HOP_LOSS_DETECT_MS\<close>.
\<close>

type_synonym 's sink = "'s \<Rightarrow> bytes \<Rightarrow> bool \<Rightarrow> 's \<times> status"

record relay_sink =
  delivered_keyboard :: bytes
  delivered_consumer :: bytes
  delivered_buttons :: u8
  pointer_tracks :: "esb_motion_track list"
  pointer_heard_ms :: u32

definition relay_sink_boot :: "zmk_hid \<Rightarrow> relay_sink" where
  "relay_sink_boot hid = \<lparr>delivered_keyboard = id_keyboard hid # replicate (keyboard_size hid - 1) 0,
     delivered_consumer = id_consumer hid # replicate (consumer_size hid - 1) 0, delivered_buttons = 0,
     pointer_tracks = replicate ESB_HID_RELAY_POINTER_AXES motion_track_blank, pointer_heard_ms = 0\<rparr>"

section \<open>Pointer reports\<close>

definition pointer_axis_offset :: "nat \<Rightarrow> nat" where
  "pointer_axis_offset axis = ESB_HID_RELAY_POINTER_MOTION_OFFSET + axis * 2"

text \<open>One pass of the loop: the track and the delta of one axis.\<close>

definition pointer_axis_delta :: "i16 \<Rightarrow> esb_motion_track \<Rightarrow> esb_motion_track \<times> i32" where
  "pointer_axis_delta short track =
     (let (track, delta) = (if valid track then esb_motion_track_short_delta track short
                            else esb_motion_track_delta track (scast short))
      in (track, case delta of None \<Rightarrow> 0 | Some d \<Rightarrow> d))"

definition pointer_totals_to_deltas ::
  "bytes \<Rightarrow> esb_motion_track list \<Rightarrow> bytes \<times> esb_motion_track list \<times> bool" where
  "pointer_totals_to_deltas report tracks =
     fold (\<lambda>axis (usb, tracks, moves).
       let (track, delta) = pointer_axis_delta (get_le16 (drop (pointer_axis_offset axis) report)) (tracks ! axis)
       in (overwrite usb (pointer_axis_offset axis) (put_le16 (ucast delta)), tracks[axis := track], moves \<or> delta \<noteq> 0))
     [0..<ESB_HID_RELAY_POINTER_AXES] (take ESB_HID_RELAY_POINTER_LENGTH report, tracks, False)"

definition forget_pointer_after_silence :: "u32 \<Rightarrow> u32 \<Rightarrow> relay_sink \<Rightarrow> relay_sink" where
  "forget_pointer_after_silence loss_detect_ms now_ms rs =
     (let rs = (if now_ms - pointer_heard_ms rs > loss_detect_ms
                then rs\<lparr>pointer_tracks := map (\<lambda>track. track\<lparr>valid := False\<rparr>) (pointer_tracks rs)\<rparr> else rs)
      in rs\<lparr>pointer_heard_ms := now_ms\<rparr>)"

definition deliver_pointer :: "'s sink \<Rightarrow> u32 \<Rightarrow> u32 \<Rightarrow> bytes \<Rightarrow> relay_sink \<times> 's \<Rightarrow> relay_sink \<times> 's" where
  "deliver_pointer callback loss_detect_ms now_ms report = (\<lambda>(rs, sink).
     let rs = forget_pointer_after_silence loss_detect_ms now_ms rs;
         (usb, tracks, moves) = pointer_totals_to_deltas report (pointer_tracks rs);
         new_buttons = usb ! ESB_HID_RELAY_POINTER_BUTTONS_OFFSET
     in if moves \<or> new_buttons \<noteq> delivered_buttons rs
        then
          let (sink, error) = callback sink usb (new_buttons = delivered_buttons rs)
          in if error \<noteq> Ok then (rs, sink)
             else (rs\<lparr>delivered_buttons := new_buttons, pointer_tracks := tracks\<rparr>, sink)
        else (rs\<lparr>pointer_tracks := tracks\<rparr>, sink))"

section \<open>Keyboard and consumer reports\<close>

datatype relay_slot = Delivered_keyboard | Delivered_consumer

record relay_report =
  report_id :: u8
  report_length :: nat
  delivered :: relay_slot

definition relay_reports :: "zmk_hid \<Rightarrow> relay_report list" where
  "relay_reports hid =
     [\<lparr>report_id = id_keyboard hid, report_length = keyboard_size hid, delivered = Delivered_keyboard\<rparr>,
      \<lparr>report_id = id_consumer hid, report_length = consumer_size hid, delivered = Delivered_consumer\<rparr>]"

fun delivered_bytes :: "relay_slot \<Rightarrow> relay_sink \<Rightarrow> bytes" where
  "delivered_bytes Delivered_keyboard rs = delivered_keyboard rs"
| "delivered_bytes Delivered_consumer rs = delivered_consumer rs"

fun set_delivered :: "relay_slot \<Rightarrow> bytes \<Rightarrow> relay_sink \<Rightarrow> relay_sink" where
  "set_delivered Delivered_keyboard report rs = rs\<lparr>delivered_keyboard := report\<rparr>"
| "set_delivered Delivered_consumer report rs = rs\<lparr>delivered_consumer := report\<rparr>"

definition state_is_news :: "relay_report \<Rightarrow> bytes \<Rightarrow> relay_sink \<Rightarrow> bool" where
  "state_is_news entry report rs = (delivered_bytes (delivered entry) rs \<noteq> take (report_length entry) report)"

definition relay_report_find :: "zmk_hid \<Rightarrow> u8 \<Rightarrow> relay_report option" where
  "relay_report_find hid rid =
     map_option (\<lambda>index. relay_reports hid ! index) (first_index (\<lambda>entry. report_id entry = rid) (relay_reports hid))"

definition relay_report_length :: "zmk_hid \<Rightarrow> u8 \<Rightarrow> relay_report option \<Rightarrow> nat" where
  "relay_report_length hid rid entry =
     (if rid = id_mouse hid then ESB_HID_RELAY_POINTER_LENGTH
      else case entry of None \<Rightarrow> 0 | Some entry \<Rightarrow> report_length entry)"

definition deliver_report :: "'s sink \<Rightarrow> relay_report \<Rightarrow> bytes \<Rightarrow> relay_sink \<times> 's \<Rightarrow> relay_sink \<times> 's" where
  "deliver_report callback entry report = (\<lambda>(rs, sink).
     if \<not> state_is_news entry report rs then (rs, sink)
     else
       let (sink, error) = callback sink (take (report_length entry) report) False
       in if error \<noteq> Ok then (rs, sink)
          else (set_delivered (delivered entry) (take (report_length entry) report) rs, sink))"

text \<open>The loop over the payload, on the bytes from \<open>offset\<close> on.\<close>

function deliver_from :: "'s sink \<Rightarrow> zmk_hid \<Rightarrow> u32 \<Rightarrow> u32 \<Rightarrow> bytes \<Rightarrow> relay_sink \<times> 's \<Rightarrow> relay_sink \<times> 's" where
  "deliver_from callback hid loss_detect_ms now_ms payload state =
     (if payload = [] then state
      else
        let rid = payload ! 0;
            entry = relay_report_find hid rid;
            len = relay_report_length hid rid entry
        in if len = 0 \<or> len > length payload then state
           else deliver_from callback hid loss_detect_ms now_ms (drop len payload)
                  (case entry of None \<Rightarrow> deliver_pointer callback loss_detect_ms now_ms payload state
                   | Some entry \<Rightarrow> deliver_report callback entry payload state))"
  by pat_completeness auto

termination
  by (relation "measure (\<lambda>(callback, hid, loss, now, payload, state). length payload)") auto

declare deliver_from.simps [simp del]

text \<open>The registered callback, \<^const>\<open>None\<close> for \<open>NULL\<close>, replaces the one before.\<close>

definition zmk_split_esb_hid_relay_register :: "'s sink option \<Rightarrow> 's sink option \<Rightarrow> 's sink option \<times> status" where
  "zmk_split_esb_hid_relay_register callback registered = (callback, Ok)"

definition esb_hid_relay_deliver ::
  "'s sink option \<Rightarrow> zmk_hid \<Rightarrow> u32 \<Rightarrow> u32 \<Rightarrow> bytes \<Rightarrow> relay_sink \<times> 's \<Rightarrow> relay_sink \<times> 's" where
  "esb_hid_relay_deliver callback hid loss_detect_ms now_ms payload state =
     (case callback of None \<Rightarrow> state
      | Some callback \<Rightarrow> deliver_from callback hid loss_detect_ms now_ms payload state)"

section \<open>The axes as trackers of 16-bit totals\<close>

definition short_base :: "esb_motion_track \<Rightarrow> i16 option" where
  "short_base track = (if valid track then Some (ucast (last_total track)) else None)"

definition short_adopt :: "esb_motion_track \<Rightarrow> i16 \<Rightarrow> esb_motion_track \<times> i16 option" where
  "short_adopt track short =
     (let (track, delta) = pointer_axis_delta short track
      in (track, if ucast delta = (0 :: i16) then None else Some (ucast delta)))"

definition short_small :: "i16 \<Rightarrow> bool" where
  "short_small gap \<longleftrightarrow> \<bar>sint gap\<bar> \<le> ESB_MOTION_RESYNC_COUNTS"

lemma ucast_scast_short [simp]: "ucast (scast (x :: i16) :: i32) = x"
  by (rule bit_word_eqI) (auto simp: bit_simps)

lemma ucast_short_add: "ucast (x + scast (gap :: i16) :: i32) = (ucast x + gap :: i16)"
  using short_diff [of "x + scast gap" "scast gap"] by (simp add: algebra_simps)

lemma scast_zero_iff: "(scast (x :: i16) :: i32) = 0 \<longleftrightarrow> x = 0"
  by (metis scast_0 ucast_0 ucast_scast_short)

lemma pointer_axis_delta_valid:
  assumes "short_base track = Some prev"
  shows "short_base (fst (pointer_axis_delta short track)) = Some short"
    and "short_small (short - prev) \<Longrightarrow> ucast (snd (pointer_axis_delta short track)) = short - prev"
    and "snd (pointer_axis_delta short track) = 0 \<or>
      ucast (snd (pointer_axis_delta short track)) \<noteq> (0 :: i16)"
  using assms scast_zero_iff [of "short - prev"]
  by (auto simp: pointer_axis_delta_def esb_motion_track_short_delta_def esb_motion_track_gap_def short_base_def
      short_small_def esb_motion_total_add_def ucast_short_add sint_widen Let_def split: if_splits)

lemma pointer_axis_delta_fresh:
  assumes "short_base track = None"
  shows "short_base (fst (pointer_axis_delta short track)) = Some short"
    and "snd (pointer_axis_delta short track) = 0"
  using assms by (auto simp: pointer_axis_delta_def esb_motion_track_delta_def short_base_def split: if_splits)

interpretation axis_track: delta_tracker short_base short_adopt short_small
proof
  fix track short
  show "short_base (fst (short_adopt track short)) = Some short"
    using pointer_axis_delta_valid(1) [of track _ short] pointer_axis_delta_fresh(1) [of track short]
    by (cases "short_base track") (auto simp: short_adopt_def split_beta Let_def)
  show "snd (short_adopt track short) = (case short_base track of None \<Rightarrow> None
      | Some prev \<Rightarrow> if short - prev \<noteq> 0 \<and> short_small (short - prev) then Some (short - prev) else None)"
  proof (cases "short_base track")
    case None
    then show ?thesis
      using pointer_axis_delta_fresh(2) [of track short] by (simp add: short_adopt_def split_beta Let_def)
  next
    case (Some prev)
    have "snd (pointer_axis_delta short track) = 0" if "\<not> short_small (short - prev)"
      using that Some
      by (auto simp: pointer_axis_delta_def esb_motion_track_short_delta_def esb_motion_track_gap_def short_base_def
          short_small_def sint_widen Let_def split: if_splits)
    moreover have "short_small 0"
      by (simp add: short_small_def ESB_MOTION_RESYNC_COUNTS_def)
    ultimately show ?thesis
      using pointer_axis_delta_valid(2) [OF Some, of short] Some
      by (auto simp: short_adopt_def split_beta Let_def)
  qed
qed

section \<open>One pointer report\<close>

definition axis_total :: "nat \<Rightarrow> bytes \<Rightarrow> i16" where
  "axis_total axis report = get_le16 (drop (pointer_axis_offset axis) report)"

lemma list10:
  assumes "10 \<le> length xs"
  obtains a b c d e f g h i j rest where "xs = [a, b, c, d, e, f, g, h, i, j] @ rest"
proof -
  have "\<exists>a b c d e f g h i j rest. ys = [a, b, c, d, e, f, g, h, i, j] @ rest" if "10 \<le> length ys" for ys :: "'a list"
    using that by (auto simp: numeral_eq_Suc Suc_le_length_iff)
  then show ?thesis using assms that by blast
qed

lemma axes_upt: "[0..<ESB_HID_RELAY_POINTER_AXES] = [0, Suc 0, 2, 3]"
  by (simp add: ESB_HID_RELAY_POINTER_AXES_def upt_rec)

lemma less_axes: "axis < ESB_HID_RELAY_POINTER_AXES \<longleftrightarrow> axis = 0 \<or> axis = Suc 0 \<or> axis = 2 \<or> axis = 3"
  by (auto simp: ESB_HID_RELAY_POINTER_AXES_def)

lemma list4:
  assumes "length xs = ESB_HID_RELAY_POINTER_AXES"
  obtains t0 t1 t2 t3 where "xs = [t0, t1, t2, t3]"
  using assms by (auto simp: ESB_HID_RELAY_POINTER_AXES_def numeral_eq_Suc length_Suc_conv)

lemma pointer_totals_to_deltas_spec:
  assumes "10 \<le> length report" and "length tracks = ESB_HID_RELAY_POINTER_AXES"
    and "pointer_totals_to_deltas report tracks = (usb, tracks', moves)"
  shows "length usb = 10 \<and> usb ! 0 = report ! 0 \<and> usb ! 1 = report ! 1 \<and>
      length tracks' = ESB_HID_RELAY_POINTER_AXES"
    and "moves \<longleftrightarrow> (\<exists>axis < ESB_HID_RELAY_POINTER_AXES.
      snd (pointer_axis_delta (axis_total axis report) (tracks ! axis)) \<noteq> 0)"
    and "axis < ESB_HID_RELAY_POINTER_AXES \<Longrightarrow>
      tracks' ! axis = fst (pointer_axis_delta (axis_total axis report) (tracks ! axis)) \<and>
      axis_total axis usb = ucast (snd (pointer_axis_delta (axis_total axis report) (tracks ! axis)))"
proof -
  obtain a b c d e f g h i j rest where r: "report = [a, b, c, d, e, f, g, h, i, j] @ rest"
    using list10 [OF assms(1)] .
  obtain t0 t1 t2 t3 where t: "tracks = [t0, t1, t2, t3]"
    using list4 [OF assms(2)] .
  have offsets: "pointer_axis_offset 0 = 2" "pointer_axis_offset (Suc 0) = 4" "pointer_axis_offset 2 = 6" "pointer_axis_offset 3 = 8"
    by (simp_all add: pointer_axis_offset_def ESB_HID_RELAY_POINTER_MOTION_OFFSET_def)
  define d0 where "d0 = pointer_axis_delta (axis_total 0 report) t0"
  define d1 where "d1 = pointer_axis_delta (axis_total (Suc 0) report) t1"
  define d2 where "d2 = pointer_axis_delta (axis_total 2 report) t2"
  define d3 where "d3 = pointer_axis_delta (axis_total 3 report) t3"
  note ds = d0_def [symmetric] d1_def [symmetric] d2_def [symmetric] d3_def [symmetric]
  have unfolded: "pointer_totals_to_deltas report tracks =
      ([a, b] @ put_le16 (ucast (snd d0)) @ put_le16 (ucast (snd d1)) @ put_le16 (ucast (snd d2)) @ put_le16 (ucast (snd d3)),
       [fst d0, fst d1, fst d2, fst d3], ((snd d0 \<noteq> 0 \<or> snd d1 \<noteq> 0) \<or> snd d2 \<noteq> 0) \<or> snd d3 \<noteq> 0)"
    unfolding pointer_totals_to_deltas_def axes_upt t
    by (simp add: split_beta axis_total_def [symmetric] ds)
      (simp add: r offsets overwrite_def put_le16_def ESB_HID_RELAY_POINTER_LENGTH_def)
  show "length usb = 10 \<and> usb ! 0 = report ! 0 \<and> usb ! 1 = report ! 1 \<and>
      length tracks' = ESB_HID_RELAY_POINTER_AXES"
    using assms(3) unfolding unfolded by (auto simp: r ESB_HID_RELAY_POINTER_AXES_def)
  show "moves \<longleftrightarrow> (\<exists>axis < ESB_HID_RELAY_POINTER_AXES.
      snd (pointer_axis_delta (axis_total axis report) (tracks ! axis)) \<noteq> 0)"
    using assms(3) unfolding unfolded by (auto simp: less_axes t ds conj_disj_distribR ex_disj_distrib)
  show "tracks' ! axis = fst (pointer_axis_delta (axis_total axis report) (tracks ! axis)) \<and>
      axis_total axis usb = ucast (snd (pointer_axis_delta (axis_total axis report) (tracks ! axis)))"
    if "axis < ESB_HID_RELAY_POINTER_AXES"
  proof -
    have usb: "usb = [a, b] @ put_le16 (ucast (snd d0)) @ put_le16 (ucast (snd d1)) @ put_le16 (ucast (snd d2)) @
        put_le16 (ucast (snd d3))" "tracks' = [fst d0, fst d1, fst d2, fst d3]"
      using assms(3) by (simp_all add: unfolded)
    have "axis_total 0 usb = ucast (snd d0)" "axis_total (Suc 0) usb = ucast (snd d1)"
      "axis_total 2 usb = ucast (snd d2)" "axis_total 3 usb = ucast (snd d3)"
      by (simp_all add: axis_total_def offsets usb)
    then show ?thesis
      using that by (auto simp: less_axes t usb(2) ds)
  qed
qed

section \<open>A run of pointer reports\<close>

text \<open>The sink with a log of the reports it accepted.\<close>

definition logged_sink :: "'s sink \<Rightarrow> ('s \<times> bytes list) sink" where
  "logged_sink callback = (\<lambda>(sink, log) report skippable.
     let (sink, error) = callback sink report skippable
     in ((sink, if error = Ok then log @ [report] else log), error))"

lemma forget_in_time:
  "now_ms - pointer_heard_ms rs \<le> loss \<Longrightarrow>
   forget_pointer_after_silence loss now_ms rs = rs\<lparr>pointer_heard_ms := now_ms\<rparr>"
  by (simp add: forget_pointer_after_silence_def)

lemma deliver_pointer_cases:
  assumes "deliver_pointer (logged_sink callback) loss now_ms report (rs, (sink, log)) = (rs', (sink', log'))"
    and "now_ms - pointer_heard_ms rs \<le> loss"
    and "pointer_totals_to_deltas report (pointer_tracks rs) = (usb, tracks, moves)"
  obtains (quiet) "\<not> moves" "pointer_tracks rs' = tracks" "log' = log"
      "delivered_buttons rs' = delivered_buttons rs" "pointer_heard_ms rs' = now_ms"
  | (accepted) "pointer_tracks rs' = tracks" "log' = log @ [usb]" "pointer_heard_ms rs' = now_ms"
      "delivered_buttons rs' = usb ! ESB_HID_RELAY_POINTER_BUTTONS_OFFSET"
  | (refused) "pointer_tracks rs' = pointer_tracks rs" "log' = log" "pointer_heard_ms rs' = now_ms"
      "delivered_buttons rs' = delivered_buttons rs"
      "\<exists>skippable error. snd (callback sink usb skippable) = Err error"
proof -
  define skip where "skip \<longleftrightarrow> usb ! ESB_HID_RELAY_POINTER_BUTTONS_OFFSET = delivered_buttons rs"
  obtain sink1 error where answer: "callback sink usb skip = (sink1, error)"
    by (cases "callback sink usb skip")
  have result: "(rs', log') =
      (if \<not> (moves \<or> \<not> skip) then (rs\<lparr>pointer_heard_ms := now_ms, pointer_tracks := tracks\<rparr>, log)
       else if error \<noteq> Ok then (rs\<lparr>pointer_heard_ms := now_ms\<rparr>, log)
       else (rs\<lparr>pointer_heard_ms := now_ms, delivered_buttons := usb ! ESB_HID_RELAY_POINTER_BUTTONS_OFFSET,
         pointer_tracks := tracks\<rparr>, log @ [usb]))"
    using assms answer
    by (auto simp: deliver_pointer_def forget_in_time logged_sink_def Let_def skip_def split: if_splits)
  consider "\<not> (moves \<or> \<not> skip)" | "moves \<or> \<not> skip" "error = Ok" | e where "moves \<or> \<not> skip" "error = Err e"
    by (cases error) auto
  then show ?thesis
  proof cases
    case 1
    then show ?thesis using result quiet by simp
  next
    case 2
    then show ?thesis using result accepted by auto
  next
    case 3
    then show ?thesis using result answer by (intro refused) (auto intro!: exI [of _ skip] exI [of _ e])
  qed
qed

text \<open>Reports with the time each was heard.\<close>

definition hear_pointers :: "'s sink \<Rightarrow> u32 \<Rightarrow> (u32 \<times> bytes) list \<Rightarrow> relay_sink \<times> 's \<Rightarrow> relay_sink \<times> 's" where
  "hear_pointers callback loss heard = fold (\<lambda>(now_ms, report). deliver_pointer callback loss now_ms report) heard"

fun heard_in_time :: "u32 \<Rightarrow> u32 \<Rightarrow> (u32 \<times> bytes) list \<Rightarrow> bool" where
  "heard_in_time loss prev [] = True"
| "heard_in_time loss prev ((now_ms, report) # heard) = (now_ms - prev \<le> loss \<and> heard_in_time loss now_ms heard)"

definition axis_moved :: "nat \<Rightarrow> bytes list \<Rightarrow> i16" where
  "axis_moved axis log = sum_list (map (axis_total axis) log)"

definition sink_at :: "nat \<Rightarrow> i16 set \<Rightarrow> i16 \<Rightarrow> relay_sink \<Rightarrow> bytes list \<Rightarrow> bool" where
  "sink_at axis totals start rs log \<longleftrightarrow> length (pointer_tracks rs) = ESB_HID_RELAY_POINTER_AXES \<and>
     (\<exists>at \<in> totals. short_base (pointer_tracks rs ! axis) = Some at \<and> axis_moved axis log = at - start)"

lemma sink_at_step:
  assumes "sink_at axis totals start rs log" and "axis < ESB_HID_RELAY_POINTER_AXES"
    and "deliver_pointer (logged_sink callback) loss now_ms report (rs, (sink, log)) = (rs', (sink', log'))"
    and "now_ms - pointer_heard_ms rs \<le> loss" and "10 \<le> length report"
    and "axis_total axis report \<in> totals" and "\<forall>x \<in> totals. \<forall>y \<in> totals. short_small (x - y)"
  shows "sink_at axis totals start rs' log' \<and> pointer_heard_ms rs' = now_ms \<and>
    ((\<forall>usb skippable. snd (callback sink usb skippable) = Ok) \<longrightarrow>
      short_base (pointer_tracks rs' ! axis) = Some (axis_total axis report))"
proof -
  obtain usb tracks moves where deltas: "pointer_totals_to_deltas report (pointer_tracks rs) = (usb, tracks, moves)"
    by (metis surj_pair)
  obtain at where at: "at \<in> totals" "short_base (pointer_tracks rs ! axis) = Some at" "axis_moved axis log = at - start"
    and len: "length (pointer_tracks rs) = ESB_HID_RELAY_POINTER_AXES"
    using assms(1) by (auto simp: sink_at_def)
  note spec = pointer_totals_to_deltas_spec [OF assms(5) len deltas]
  have moved: "short_base (tracks ! axis) = Some (axis_total axis report)"
      "axis_total axis usb = axis_total axis report - at"
    using spec(3) [OF assms(2)] pointer_axis_delta_valid(1,2) [OF at(2)] assms(6,7) at(1) by auto
  have still: "axis_total axis report = at" if "\<not> moves"
    using that spec(2,3) assms(2) moved(2) by auto
  show ?thesis
  proof (cases rule: deliver_pointer_cases [OF assms(3,4) deltas])
    case 1
    then show ?thesis
      using still at moved assms(6) spec(1) by (auto simp: sink_at_def)
  next
    case 2
    then show ?thesis
      using at moved assms(6) spec(1) by (auto simp: sink_at_def axis_moved_def)
  next
    case 3
    then show ?thesis
      using at assms(1) by (auto simp: sink_at_def)
  qed
qed

lemma hear_pointers_at:
  assumes "hear_pointers (logged_sink callback) loss heard (rs, (sink, log)) = (rs', (sink', log'))"
    and "sink_at axis totals start rs log" "axis < ESB_HID_RELAY_POINTER_AXES"
    and "heard_in_time loss (pointer_heard_ms rs) heard"
    and "\<forall>(now_ms, report) \<in> set heard. 10 \<le> length report \<and> axis_total axis report \<in> totals"
    and "\<forall>x \<in> totals. \<forall>y \<in> totals. short_small (x - y)"
  shows "sink_at axis totals start rs' log' \<and>
    pointer_heard_ms rs' = (if heard = [] then pointer_heard_ms rs else fst (last heard))"
  using assms
proof (induction heard arbitrary: rs sink log)
  case Nil
  then show ?case by (simp add: hear_pointers_def)
next
  case (Cons h heard)
  obtain now_ms report where h: "h = (now_ms, report)" by (cases h)
  obtain rs1 sink1 log1 where step: "deliver_pointer (logged_sink callback) loss now_ms report (rs, (sink, log)) = (rs1, (sink1, log1))"
    by (metis surj_pair)
  have ok: "sink_at axis totals start rs1 log1" "pointer_heard_ms rs1 = now_ms"
    using sink_at_step [OF Cons.prems(2,3) step] Cons.prems(4-6) h by auto
  have rest: "hear_pointers (logged_sink callback) loss heard (rs1, (sink1, log1)) = (rs', (sink', log'))"
    using Cons.prems(1) step h by (simp add: hear_pointers_def)
  show ?case
    using Cons.IH [OF rest ok(1) Cons.prems(3) _ _ Cons.prems(6)] Cons.prems(4,5) h ok(2) by auto
qed


definition busy_once :: "bool sink" where
  "busy_once busy report skippable = (if busy then (False, Err EBUSY) else (False, Ok))"

definition sink_example :: relay_sink where
  "sink_example = \<lparr>delivered_keyboard = [1], delivered_consumer = [2], delivered_buttons = 0,
     pointer_tracks = replicate 4 \<lparr>last_total = 0, valid = True\<rparr>, pointer_heard_ms = 0\<rparr>"

definition x_report :: "u8 \<Rightarrow> bytes" where
  "x_report total_x = [3, 0, total_x, 0, 0, 0, 0, 0, 0, 0]"


section \<open>A payload of whole reports\<close>

definition whole_report :: "zmk_hid \<Rightarrow> bytes \<Rightarrow> bool" where
  "whole_report hid report \<longleftrightarrow> report \<noteq> [] \<and>
     relay_report_length hid (report ! 0) (relay_report_find hid (report ! 0)) = length report"

definition deliver_one :: "'s sink \<Rightarrow> zmk_hid \<Rightarrow> u32 \<Rightarrow> u32 \<Rightarrow> bytes \<Rightarrow> relay_sink \<times> 's \<Rightarrow> relay_sink \<times> 's" where
  "deliver_one callback hid loss now_ms report state =
     (case relay_report_find hid (report ! 0) of
        None \<Rightarrow> deliver_pointer callback loss now_ms report state
      | Some entry \<Rightarrow> deliver_report callback entry report state)"

lemma find_report_cases:
  obtains (keyboard) "rid = id_keyboard hid" "relay_report_find hid rid = Some (relay_reports hid ! 0)"
  | (consumer) "rid = id_consumer hid" "rid \<noteq> id_keyboard hid" "relay_report_find hid rid = Some (relay_reports hid ! 1)"
  | (none) "rid \<noteq> id_keyboard hid" "rid \<noteq> id_consumer hid" "relay_report_find hid rid = None"
  by (cases "rid = id_keyboard hid"; cases "rid = id_consumer hid") (auto simp: relay_report_find_def relay_reports_def)

lemma get_le16_prefix: "n + 2 \<le> length xs \<Longrightarrow> get_le16 (drop n (xs @ ys)) = get_le16 (drop n xs)"
  by (simp add: get_le16_def nth_append)

lemma pointer_totals_prefix:
  assumes "length report = 10"
  shows "pointer_totals_to_deltas (report @ rest) tracks = pointer_totals_to_deltas report tracks"
proof -
  have "get_le16 (drop (pointer_axis_offset axis) (report @ rest)) = get_le16 (drop (pointer_axis_offset axis) report)"
    if "axis \<in> set [0..<ESB_HID_RELAY_POINTER_AXES]" for axis
    using that assms
    by (intro get_le16_prefix)
      (auto simp: pointer_axis_offset_def ESB_HID_RELAY_POINTER_MOTION_OFFSET_def ESB_HID_RELAY_POINTER_AXES_def)
  then show ?thesis
    unfolding pointer_totals_to_deltas_def using assms
    by (intro fold_cong) (auto simp: ESB_HID_RELAY_POINTER_LENGTH_def)
qed

lemma deliver_pointer_prefix:
  "length report = 10 \<Longrightarrow> deliver_pointer callback loss now_ms (report @ rest) = deliver_pointer callback loss now_ms report"
  by (simp add: deliver_pointer_def pointer_totals_prefix)

lemma deliver_report_prefix:
  assumes "length report = report_length entry"
  shows "deliver_report callback entry (report @ rest) = deliver_report callback entry report"
proof -
  have "take (report_length entry) (report @ rest) = report" "take (report_length entry) report = report"
    using assms by simp_all
  then show ?thesis
    unfolding deliver_report_def state_is_news_def by presburger
qed

lemma deliver_one_prefix:
  assumes "whole_report hid report" and "hid_ok hid max_payload"
  shows "(case relay_report_find hid (report ! 0) of
      None \<Rightarrow> deliver_pointer callback loss now_ms (report @ rest) state
    | Some entry \<Rightarrow> deliver_report callback entry (report @ rest) state) =
    deliver_one callback hid loss now_ms report state"
  using assms
  by (cases rule: find_report_cases [of "report ! 0" hid])
    (auto simp: deliver_one_def whole_report_def relay_report_length_def relay_reports_def hid_ok_def
      ESB_HID_RELAY_POINTER_LENGTH_def deliver_pointer_prefix deliver_report_prefix split: if_splits)

text \<open>What the central packs the dongle splits again: a payload of whole reports, one after
  another, is delivered as exactly those reports in that order.\<close>

lemma relay_payload_roundtrip:
  assumes "hid_ok hid max_payload" and "\<forall>report \<in> set reports. whole_report hid report"
  shows "esb_hid_relay_deliver (Some callback) hid loss now_ms (concat reports) state =
    fold (deliver_one callback hid loss now_ms) reports state"
proof -
  have "deliver_from callback hid loss now_ms (concat reports) state = fold (deliver_one callback hid loss now_ms) reports state"
    using assms(2)
  proof (induction reports arbitrary: state)
    case Nil
    then show ?case by (simp add: deliver_from.simps)
  next
    case (Cons report reports)
    then have whole: "whole_report hid report" by simp
    then have head: "(report @ concat reports) ! 0 = report ! 0" "report @ concat reports \<noteq> []"
      "relay_report_length hid (report ! 0) (relay_report_find hid (report ! 0)) = length report" "length report \<noteq> 0" "report \<noteq> []"
      by (auto simp: whole_report_def nth_append)
    have "deliver_from callback hid loss now_ms (report @ concat reports) state =
        deliver_from callback hid loss now_ms (concat reports) (deliver_one callback hid loss now_ms report state)"
      by (subst deliver_from.simps)
        (simp add: head Let_def deliver_one_prefix [OF whole assms(1)])
    then show ?case
      using Cons.IH Cons.prems by simp
  qed
  then show ?thesis by (simp add: esb_hid_relay_deliver_def)
qed

definition hid_example :: zmk_hid where
  "hid_example = \<lparr>id_keyboard = 1, id_consumer = 2, id_mouse = 3, id_leds = 1, keyboard_size = 2,
     consumer_size = 2, mouse_buttons = 5\<rparr>"

section \<open>Every change once\<close>

text \<open>The reports of one slot in a log.\<close>

definition slot_id :: "zmk_hid \<Rightarrow> relay_slot \<Rightarrow> u8" where
  "slot_id hid slot = (case slot of Delivered_keyboard \<Rightarrow> id_keyboard hid | Delivered_consumer \<Rightarrow> id_consumer hid)"

definition slot_log :: "zmk_hid \<Rightarrow> relay_slot \<Rightarrow> bytes list \<Rightarrow> bytes list" where
  "slot_log hid slot log = filter (\<lambda>report. report ! 0 = slot_id hid slot) log"

definition slot_ok :: "zmk_hid \<Rightarrow> relay_slot \<Rightarrow> bytes \<Rightarrow> relay_sink \<times> ('s \<times> bytes list) \<Rightarrow> bool" where
  "slot_ok hid slot start = (\<lambda>(rs, (sink, log)).
     length (pointer_tracks rs) = ESB_HID_RELAY_POINTER_AXES \<and>
     distinct_adj (start # slot_log hid slot log) \<and>
     last (start # slot_log hid slot log) = delivered_bytes slot rs)"

lemma distinct_adj_snoc:
  "distinct_adj (x # xs) \<Longrightarrow> last (x # xs) \<noteq> y \<Longrightarrow> distinct_adj (x # xs @ [y])"
  by (induction xs arbitrary: x) auto

lemma slot_log_snoc:
  "slot_log hid slot (log @ [report]) = slot_log hid slot log @ (if report ! 0 = slot_id hid slot then [report] else [])"
  by (simp add: slot_log_def)

lemma slot_ok_append:
  assumes "distinct_adj (start # slot_log hid slot log)" "last (start # slot_log hid slot log) = old"
    and "report ! 0 = slot_id hid slot" "old \<noteq> report"
  shows "distinct_adj (start # slot_log hid slot (log @ [report])) \<and>
    last (start # slot_log hid slot (log @ [report])) = report"
  using assms distinct_adj_snoc [of start "slot_log hid slot log" report] by (simp add: slot_log_snoc)

lemma delivered_set [simp]:
  "delivered_bytes slot (set_delivered slot' report rs) = (if slot = slot' then report else delivered_bytes slot rs)"
  "pointer_tracks (set_delivered slot' report rs) = pointer_tracks rs"
  by (cases slot; cases slot'; simp)+

lemma slot_ok_report:
  assumes "slot_ok hid slot start state" and "entry \<in> set (relay_reports hid)" and "hid_ok hid max_payload"
    and "report_length entry \<le> length report" "report ! 0 = report_id entry"
  shows "slot_ok hid slot start (deliver_report (logged_sink callback) entry report state)"
proof -
  obtain rs sink log where state: "state = (rs, (sink, log))" by (cases state) auto
  define copy where "copy = take (report_length entry) report"
  have entry: "report_id entry = slot_id hid (delivered entry)" "report_length entry \<noteq> 0"
    and slots: "slot_id hid slot = slot_id hid (delivered entry) \<longleftrightarrow> slot = delivered entry"
    using assms(2,3) by (auto simp: relay_reports_def slot_id_def hid_ok_def split: relay_slot.splits)
  have copy: "copy ! 0 = slot_id hid (delivered entry)"
    using assms(5) entry by (simp add: copy_def)
  have inv: "length (pointer_tracks rs) = ESB_HID_RELAY_POINTER_AXES" "distinct_adj (start # slot_log hid slot log)"
    "last (start # slot_log hid slot log) = delivered_bytes slot rs"
    using assms(1) by (simp_all add: slot_ok_def state)
  show ?thesis
  proof (cases "delivered_bytes (delivered entry) rs = copy \<or> snd (callback sink copy False) \<noteq> Ok")
    case True
    then show ?thesis
      using assms(1) by (auto simp: deliver_report_def state state_is_news_def copy_def [symmetric] logged_sink_def
          slot_ok_def split_beta Let_def)
  next
    case False
    then have result: "deliver_report (logged_sink callback) entry report state =
        (set_delivered (delivered entry) copy rs, (fst (callback sink copy False), log @ [copy]))"
      by (simp add: deliver_report_def state state_is_news_def copy_def [symmetric] logged_sink_def split_beta Let_def)
    show ?thesis
    proof (cases "slot = delivered entry")
      case True
      then show ?thesis
        using slot_ok_append [OF inv(2,3), of copy] False copy inv(1) by (auto simp: result slot_ok_def)
    next
      case False
      then show ?thesis
        using inv copy slots by (auto simp: result slot_ok_def slot_log_snoc)
    qed
  qed
qed

lemma slot_ok_pointer:
  assumes "slot_ok hid slot start state" and "hid_ok hid max_payload"
    and "10 \<le> length report" "report ! 0 = id_mouse hid"
  shows "slot_ok hid slot start (deliver_pointer (logged_sink callback) loss now_ms report state)"
proof -
  obtain rs sink log where state: "state = (rs, (sink, log))" by (cases state) auto
  define rs1 where "rs1 = forget_pointer_after_silence loss now_ms rs"
  obtain usb tracks moves where deltas: "pointer_totals_to_deltas report (pointer_tracks rs1) = (usb, tracks, moves)"
    by (metis surj_pair)
  have rs1: "length (pointer_tracks rs1) = length (pointer_tracks rs)"
    "delivered_keyboard rs1 = delivered_keyboard rs" "delivered_consumer rs1 = delivered_consumer rs"
    by (simp_all add: rs1_def forget_pointer_after_silence_def Let_def)
  have len: "length (pointer_tracks rs1) = ESB_HID_RELAY_POINTER_AXES"
    using assms(1) rs1(1) by (simp add: slot_ok_def state)
  note spec = pointer_totals_to_deltas_spec(1) [OF assms(3) len deltas]
  have other: "usb ! 0 \<noteq> slot_id hid slot"
    using spec assms(2,4) by (auto simp: slot_id_def hid_ok_def split: relay_slot.splits)
  have same: "delivered_bytes slot (rs1\<lparr>pointer_tracks := t\<rparr>) = delivered_bytes slot rs"
    "delivered_bytes slot (rs1\<lparr>delivered_buttons := b, pointer_tracks := t\<rparr>) = delivered_bytes slot rs"
    "delivered_bytes slot rs1 = delivered_bytes slot rs" for b t
    by (cases slot; simp add: rs1)+
  show ?thesis
    using assms(1) spec other rs1(1)
    by (auto simp: deliver_pointer_def state rs1_def [symmetric] deltas logged_sink_def Let_def split_beta slot_ok_def
        same slot_log_snoc)
qed

lemma slot_ok_one:
  assumes "slot_ok hid slot start state" and "hid_ok hid max_payload" and "whole_report hid report"
  shows "slot_ok hid slot start (deliver_one (logged_sink callback) hid loss now_ms report state)"
proof (cases rule: find_report_cases [of "report ! 0" hid])
  case keyboard
  then show ?thesis
    using assms slot_ok_report [OF assms(1) _ assms(2), of "relay_reports hid ! 0" report callback]
    by (auto simp: deliver_one_def whole_report_def relay_report_length_def relay_reports_def hid_ok_def split: if_splits)
next
  case consumer
  then show ?thesis
    using assms slot_ok_report [OF assms(1) _ assms(2), of "relay_reports hid ! 1" report callback]
    by (auto simp: deliver_one_def whole_report_def relay_report_length_def relay_reports_def hid_ok_def split: if_splits)
next
  case none
  then show ?thesis
    using assms slot_ok_pointer [OF assms(1,2), of report callback loss now_ms]
    by (auto simp: deliver_one_def whole_report_def relay_report_length_def ESB_HID_RELAY_POINTER_LENGTH_def split: if_splits)
qed

text \<open>
  Claim C18: whatever payloads of whole reports the dongle hears and whenever its sink is busy,
  the keyboard and the consumer reports the sink accepted are each a change from the one
  before, and the last one is the state the dongle holds as delivered, so a refused change is
  still news when it is sent again.
\<close>

theorem relay_sink_every_change_once:
  assumes "hid_ok hid max_payload" and "\<forall>(now_ms, reports) \<in> set payloads. \<forall>report \<in> set reports. whole_report hid report"
    and "length (pointer_tracks rs) = ESB_HID_RELAY_POINTER_AXES"
    and "fold (\<lambda>(now_ms, reports). esb_hid_relay_deliver (Some (logged_sink callback)) hid loss now_ms (concat reports))
      payloads (rs, (sink, [])) = (rs', (sink', log))"
  shows "distinct_adj (delivered_bytes slot rs # slot_log hid slot log) \<and>
    last (delivered_bytes slot rs # slot_log hid slot log) = delivered_bytes slot rs'"
proof -
  have one: "slot_ok hid slot start (fold (deliver_one (logged_sink callback) hid loss now_ms) reports state)"
    if "slot_ok hid slot start state" "\<forall>report \<in> set reports. whole_report hid report" for start state reports now_ms
    using that by (induction reports arbitrary: state) (simp_all add: slot_ok_one [OF _ assms(1)])
  have every: "slot_ok hid slot start (fold (\<lambda>(now_ms, reports).
      esb_hid_relay_deliver (Some (logged_sink callback)) hid loss now_ms (concat reports)) payloads state)"
    if "slot_ok hid slot start state" "\<forall>(now_ms, reports) \<in> set payloads. \<forall>report \<in> set reports. whole_report hid report"
    for start state payloads
    using that
    by (induction payloads arbitrary: state) (simp_all add: split_beta relay_payload_roundtrip [OF assms(1)] one)
  have init: "slot_ok hid slot (delivered_bytes slot rs) (rs, (sink, []))"
    by (simp add: slot_ok_def slot_log_def assms(3))
  from every [OF init assms(2)] show ?thesis
    unfolding assms(4) by (simp add: slot_ok_def)
qed

theorem relay_sink_every_change_once_witness:
  "let (rs, (busy, log)) = fold (\<lambda>(now_ms, reports). esb_hid_relay_deliver (Some (logged_sink busy_once)) hid_example 100
        now_ms (concat reports)) [(5, [[1, 4]]), (9, [[1, 4], [2, 6]])] (sink_example, (True, []))
   in distinct_adj ([1] # slot_log hid_example Delivered_keyboard log) \<and>
      last ([1] # slot_log hid_example Delivered_keyboard log) = delivered_keyboard rs"
proof -
  obtain rs busy log where run: "fold (\<lambda>(now_ms, reports). esb_hid_relay_deliver (Some (logged_sink busy_once)) hid_example 100
      now_ms (concat reports)) [(5, [[1, 4]]), (9, [[1, 4], [2, 6]])] (sink_example, (True, [])) = (rs, (busy, log))"
    by (metis surj_pair)
  have ok: "hid_ok hid_example 48"
    by (simp add: hid_example_def hid_ok_def ESB_HID_RELAY_POINTER_LENGTH_def)
  have whole: "\<forall>(now_ms, reports) \<in> set [(5 :: u32, [[1, 4]]), (9, [[1, 4], [2, 6]])]. \<forall>report \<in> set reports.
      whole_report hid_example report"
    by (simp add: hid_example_def whole_report_def relay_report_find_def relay_report_length_def relay_reports_def)
  have len: "length (pointer_tracks sink_example) = ESB_HID_RELAY_POINTER_AXES"
    by (simp add: sink_example_def ESB_HID_RELAY_POINTER_AXES_def)
  have start: "delivered_bytes Delivered_keyboard sink_example = [1]"
    by (simp add: sink_example_def)
  show ?thesis
    using relay_sink_every_change_once [OF ok whole len run, of Delivered_keyboard]
    unfolding run Let_def prod.case start by simp
qed

text \<open>After a silence the first report only sets the base, and a refusal then keeps it unset: the
  motion up to the next report is not carried.\<close>

lemma refused_after_silence:
  "axis_moved 0 (snd (snd (deliver_pointer (logged_sink busy_once) 100 210 [3, 1, 9, 0, 0, 0, 0, 0, 0, 0]
     (deliver_pointer (logged_sink busy_once) 100 200 [3, 1, 4, 0, 0, 0, 0, 0, 0, 0] (sink_example, (True, [])))))) = 0"
  by code_simp

end
