(* ===== verification/Esb_Link.thy ===== *)
theory Esb_Link
  imports Hop "HOL-Library.Sublist"
begin

text \<open>
  The radio link both roles share: the crystal (\<open>src/esb_link_hfclk.c\<close>), the radio's
  events, the ring that hands received packets to a thread, and bringing the link up and down
  (\<open>src/esb_link.c\<close>). The functions a role implements behind
  \<open>src/esb_link_internal.h\<close> and \<open>src/hop.h\<close> are the record \<open>role\<close> over
  the role's own state; what NCS answers is a parameter.
\<close>

section \<open>The crystal\<close>

text \<open>\<open>fetch k\<close> is the answer to the \<open>k\<close>-th \<open>sys_notify_fetch_result\<close>,
  \<^const>\<open>None\<close> for \<open>-EAGAIN\<close>. The loop spins until there is one.\<close>

partial_function (option) hfclk_spin :: "(nat \<Rightarrow> status option) \<Rightarrow> nat \<Rightarrow> status option" where
  "hfclk_spin fetch k = (case fetch k of None \<Rightarrow> hfclk_spin fetch (k + 1) | Some result \<Rightarrow> Some result)"

definition hfclk_request :: "status \<Rightarrow> (nat \<Rightarrow> status option) \<Rightarrow> status option" where
  "hfclk_request request_error fetch =
     (if request_error \<noteq> Ok then Some request_error else hfclk_spin fetch 0)"

text \<open>The state is \<open>hfclk_held\<close>; \<open>answer\<close> is what \<open>hfclk_request\<close> returned,
  were it called.\<close>

definition esb_link_hfclk_acquire :: "status \<Rightarrow> bool \<Rightarrow> bool \<times> status" where
  "esb_link_hfclk_acquire answer hfclk_held =
     (if \<not> hfclk_held then (if answer = Ok then True else hfclk_held, answer) else (hfclk_held, Ok))"

text \<open>The second result tells whether the crystal was released.\<close>

definition esb_link_hfclk_release :: "bool \<Rightarrow> bool \<times> bool" where
  "esb_link_hfclk_release hfclk_held = (if hfclk_held then (False, True) else (hfclk_held, False))"

section \<open>Configuration\<close>

datatype esb_crc = ESB_CRC_OFF | ESB_CRC_8BIT | ESB_CRC_16BIT
datatype esb_bitrate = ESB_BITRATE_1MBPS | ESB_BITRATE_2MBPS

definition esb_crc_from_bits :: "u8 \<Rightarrow> esb_crc" where
  "esb_crc_from_bits bits = (if bits = 0 then ESB_CRC_OFF else if bits = 8 then ESB_CRC_8BIT
     else if bits = 16 then ESB_CRC_16BIT else ESB_CRC_16BIT)"

definition esb_bitrate_from_kbps :: "u16 \<Rightarrow> esb_bitrate" where
  "esb_bitrate_from_kbps kbps = (if kbps = 1000 then ESB_BITRATE_1MBPS
     else if kbps = 2000 then ESB_BITRATE_2MBPS else ESB_BITRATE_2MBPS)"

definition ESB_LINK_TX_RESTARTS_MAX :: nat where "ESB_LINK_TX_RESTARTS_MAX = 2"

record rx_payload =
  rx_pipe :: nat
  rx_noack :: bool
  rx_rssi :: i8
  rx_data :: bytes

record esb_link_packet =
  packet_pipe :: nat
  packet_data :: bytes

text \<open>What \<open>esb_link.c\<close> calls of the role's half.\<close>

record 'w role =
  role_consume_rx :: "nat \<Rightarrow> bytes \<Rightarrow> i8 \<Rightarrow> 'w \<Rightarrow> 'w \<times> bool"
  role_rx_done :: "u8 \<Rightarrow> 'w \<Rightarrow> 'w"
  role_note_tx_success :: "u8 \<Rightarrow> 'w \<Rightarrow> 'w"
  role_tx_succeeded :: "'w \<Rightarrow> 'w"
  role_note_tx_failed :: "'w \<Rightarrow> 'w"
  role_retry_failed_tx :: "'w \<Rightarrow> 'w \<times> bool"
  flush_tx :: "'w \<Rightarrow> 'w"
  role_start :: "'w \<Rightarrow> 'w \<times> status"
  role_stop :: "'w \<Rightarrow> 'w"
  role_hop_start :: "'w \<Rightarrow> 'w"
  role_hop_stop :: "'w \<Rightarrow> 'w"
  stop_rx :: "'w \<Rightarrow> 'w"

section \<open>Received packets\<close>

text \<open>\<open>in_hand\<close> is the packet the thread consumed and has not released.\<close>

record rx_path =
  rx_ring :: "esb_link_packet list"
  in_hand :: "esb_link_packet option"
  rx_sem :: bool
  rx_running :: bool

definition rx_path_boot :: rx_path where
  "rx_path_boot = \<lparr>rx_ring = [], in_hand = None, rx_sem = False, rx_running = False\<rparr>"

definition ring_used :: "rx_path \<Rightarrow> nat" where
  "ring_used rx = length (rx_ring rx) + (if in_hand rx = None then 0 else 1)"

text \<open>The loop over what \<open>esb_read_rx_payload\<close> hands out, with \<open>received\<close> and
  \<open>pipes_acked\<close>.\<close>

fun drain_rx :: "'w role \<Rightarrow> nat \<Rightarrow> rx_payload list \<Rightarrow> bool \<Rightarrow> u8 \<Rightarrow> 'w \<Rightarrow> rx_path \<Rightarrow> bool \<times> u8 \<times> 'w \<times> rx_path" where
  "drain_rx role ring_size [] received pipes_acked w rx = (received, pipes_acked, w, rx)"
| "drain_rx role ring_size (payload # payloads) received pipes_acked w rx =
     (let pipes_acked = (if \<not> rx_noack payload then pipes_acked OR push_bit (rx_pipe payload) 1 else pipes_acked);
          (w, consumed) = role_consume_rx role (rx_pipe payload) (rx_data payload) (rx_rssi payload) w
      in if consumed then drain_rx role ring_size payloads received pipes_acked w rx
         else if ring_used rx \<ge> ring_size then drain_rx role ring_size payloads received pipes_acked w rx
         else drain_rx role ring_size payloads True pipes_acked w
                (rx\<lparr>rx_ring := rx_ring rx @ [\<lparr>packet_pipe = rx_pipe payload, packet_data = rx_data payload\<rparr>]\<rparr>))"

definition on_rx_received :: "'w role \<Rightarrow> nat \<Rightarrow> rx_payload list \<Rightarrow> 'w \<Rightarrow> rx_path \<Rightarrow> 'w \<times> rx_path" where
  "on_rx_received role ring_size payloads w rx =
     (let (received, pipes_acked, w, rx) = drain_rx role ring_size payloads False 0 w rx;
          rx = (if received then rx\<lparr>rx_sem := True\<rparr> else rx)
      in (role_rx_done role pipes_acked w, rx))"

text \<open>The dispatch thread: woken by the semaphore, it takes packets one by one, hands each to the
  callback and releases its slot, and waits again once the ring is empty.\<close>

definition rx_thread_wake :: "rx_path \<Rightarrow> rx_path" where
  "rx_thread_wake rx = (if rx_sem rx \<and> \<not> rx_running rx then rx\<lparr>rx_sem := False, rx_running := True\<rparr> else rx)"

definition rx_thread_consume :: "rx_path \<Rightarrow> rx_path" where
  "rx_thread_consume rx =
     (if rx_running rx \<and> in_hand rx = None then
        (case rx_ring rx of
           [] \<Rightarrow> rx\<lparr>rx_running := False\<rparr>
         | packet # rest \<Rightarrow> rx\<lparr>rx_ring := rest, in_hand := Some packet\<rparr>)
      else rx)"

text \<open>The packet handed to the callback is the second result.\<close>

definition rx_thread_release :: "rx_path \<Rightarrow> rx_path \<times> esb_link_packet option" where
  "rx_thread_release rx = (rx\<lparr>in_hand := None\<rparr>, in_hand rx)"

section \<open>Radio events\<close>

datatype esb_event = ESB_EVENT_RX_RECEIVED "rx_payload list" | ESB_EVENT_TX_SUCCESS u32 | ESB_EVENT_TX_FAILED

record 'w esb_link =
  role_state :: 'w
  rx_state :: rx_path
  hfclk_held :: bool
  link_ready :: bool
  tx_last_event_ms :: u32

definition esb_link_mark_tx_event :: "u32 \<Rightarrow> 'w esb_link \<Rightarrow> 'w esb_link" where
  "esb_link_mark_tx_event now_ms link = link\<lparr>tx_last_event_ms := now_ms\<rparr>"

definition esb_link_tx_last_event_ms :: "'w esb_link \<Rightarrow> u32" where
  "esb_link_tx_last_event_ms link = tx_last_event_ms link"

definition on_esb_event :: "'w role \<Rightarrow> nat \<Rightarrow> u32 \<Rightarrow> esb_event \<Rightarrow> 'w esb_link \<Rightarrow> 'w esb_link" where
  "on_esb_event role ring_size now_ms event link =
     (case event of
        ESB_EVENT_RX_RECEIVED payloads \<Rightarrow>
          let (w, rx) = on_rx_received role ring_size payloads (role_state link) (rx_state link)
          in link\<lparr>role_state := w, rx_state := rx\<rparr>
      | ESB_EVENT_TX_SUCCESS attempts \<Rightarrow>
          let link = esb_link_mark_tx_event now_ms link
          in link\<lparr>role_state := role_tx_succeeded role (role_note_tx_success role (ucast attempts) (role_state link))\<rparr>
      | ESB_EVENT_TX_FAILED \<Rightarrow>
          let link = esb_link_mark_tx_event now_ms link;
              (w, retry) = role_retry_failed_tx role (role_note_tx_failed role (role_state link))
          in link\<lparr>role_state := (if retry then w else flush_tx role w)\<rparr>)"

section \<open>Up and down\<close>

definition esb_link_boot :: "'w \<Rightarrow> 'w esb_link" where
  "esb_link_boot w = \<lparr>role_state = w, rx_state = rx_path_boot, hfclk_held = False, link_ready = False,
     tx_last_event_ms = 0\<rparr>"

text \<open>The settings are written to the radio whatever each call answers; only the role's start
  counts.\<close>

definition esb_link_radio_setup :: "'w role \<Rightarrow> 'w esb_link \<Rightarrow> 'w esb_link \<times> status" where
  "esb_link_radio_setup role link =
     (let (w, error) = role_start role (role_state link) in (link\<lparr>role_state := w\<rparr>, error))"

definition esb_link_init :: "'w role \<Rightarrow> status \<Rightarrow> status \<Rightarrow> 'w esb_link \<Rightarrow> 'w esb_link \<times> status" where
  "esb_link_init role hfclk_answer esb_init_error link =
     (let (held, error) = esb_link_hfclk_acquire hfclk_answer (hfclk_held link);
          link = link\<lparr>hfclk_held := held\<rparr>
      in if error \<noteq> Ok then (link, error)
         else if esb_init_error \<noteq> Ok then (link, esb_init_error)
         else
           let (link, error) = esb_link_radio_setup role link
           in if error \<noteq> Ok then (link, error)
              else (link\<lparr>role_state := role_hop_start role (role_state link), link_ready := True\<rparr>, Ok))"

definition esb_link_set_enabled :: "'w role \<Rightarrow> status \<Rightarrow> bool \<Rightarrow> 'w esb_link \<Rightarrow> 'w esb_link \<times> status" where
  "esb_link_set_enabled role hfclk_answer enabled link =
     (if \<not> link_ready link then (link, Ok)
      else if \<not> enabled then
        let w = flush_tx role (stop_rx role (role_stop role (role_hop_stop role (role_state link))))
        in (link\<lparr>role_state := w, hfclk_held := fst (esb_link_hfclk_release (hfclk_held link))\<rparr>, Ok)
      else
        let (held, acquire_error) = esb_link_hfclk_acquire hfclk_answer (hfclk_held link);
            link = link\<lparr>hfclk_held := held\<rparr>
        in if acquire_error \<noteq> Ok then (link, acquire_error)
           else
             let (w, start_error) = role_start role (role_state link);
                 link = link\<lparr>role_state := w\<rparr>
             in if start_error \<noteq> Ok then (link, start_error)
                else (link\<lparr>role_state := role_hop_start role (role_state link)\<rparr>, Ok))"

section \<open>The spin\<close>

text \<open>
  The wait for the crystal returns exactly when some poll has an answer, and then
  with the first one; a clock that never answers is a wait without end.
\<close>

theorem hfclk_request_returns:
  "hfclk_request request_error fetch = Some result \<longleftrightarrow>
     (if request_error = Ok then \<exists>k. fetch k = Some result \<and> (\<forall>i < k. fetch i = None) else result = request_error)"
proof -
  have first: "hfclk_spin fetch j = fetch k" if "j \<le> k" "\<forall>i. j \<le> i \<longrightarrow> i < k \<longrightarrow> fetch i = None" "fetch k \<noteq> None" for j k
    using that
  proof (induction "k - j" arbitrary: j)
    case 0
    then have "j = k" by simp
    then show ?case using 0 by (subst hfclk_spin.simps) auto
  next
    case (Suc d)
    then have "fetch j = None" "hfclk_spin fetch (j + 1) = fetch k" by simp_all
    then show ?case by (subst hfclk_spin.simps) simp
  qed
  have answered: "\<exists>k \<ge> j. fetch k \<noteq> None" if "hfclk_spin fetch j = Some result" for j result
  proof (rule hfclk_spin.raw_induct [where P = "\<lambda>fetch j result. \<exists>k \<ge> j. fetch k \<noteq> None", OF _ that])
    fix spin and f :: "nat \<Rightarrow> status option" and j r
    assume later: "\<And>f j r. spin f j = Some r \<Longrightarrow> \<exists>k \<ge> j. f k \<noteq> None"
      and body: "(case f j of None \<Rightarrow> spin f (j + 1) | Some result \<Rightarrow> Some result) = Some r"
    show "\<exists>k \<ge> j. f k \<noteq> None"
    proof (cases "f j")
      case None
      then have "spin f (j + 1) = Some r" using body by simp
      from later [OF this] obtain k where "j + 1 \<le> k" "f k \<noteq> None" by blast
      then show ?thesis by (intro exI [of _ k]) auto
    qed auto
  qed
  have "hfclk_spin fetch 0 = Some result \<longleftrightarrow> (\<exists>k. fetch k = Some result \<and> (\<forall>i < k. fetch i = None))"
  proof
    assume spin: "hfclk_spin fetch 0 = Some result"
    obtain m where m: "fetch m \<noteq> None" "\<forall>i < m. \<not> fetch i \<noteq> None"
      using answered [OF spin] exists_least_iff [of "\<lambda>k. fetch k \<noteq> None"] by blast
    have "hfclk_spin fetch 0 = fetch m"
      by (rule first) (use m in simp_all)
    then show "\<exists>k. fetch k = Some result \<and> (\<forall>i < k. fetch i = None)"
      using m spin by auto
  next
    assume "\<exists>k. fetch k = Some result \<and> (\<forall>i < k. fetch i = None)"
    then show "hfclk_spin fetch 0 = Some result"
      using first [of 0] by auto
  qed
  then show ?thesis
    by (auto simp: hfclk_request_def)
qed

theorem hfclk_request_returns_witness:
  "hfclk_request Ok (\<lambda>k. if k < 3 then None else Some Ok) = Some Ok"
  by (simp add: hfclk_request_returns) (rule exI [of _ 3], simp)

section \<open>The ring\<close>

definition as_packet :: "rx_payload \<Rightarrow> esb_link_packet" where
  "as_packet payload = \<lparr>packet_pipe = rx_pipe payload, packet_data = rx_data payload\<rparr>"

text \<open>The packets hop leaves for the role's callback, and the pipes whose packets asked for an
  ACK.\<close>

fun offered :: "'w role \<Rightarrow> rx_payload list \<Rightarrow> 'w \<Rightarrow> esb_link_packet list" where
  "offered role [] w = []"
| "offered role (payload # payloads) w =
     (let (w, consumed) = role_consume_rx role (rx_pipe payload) (rx_data payload) (rx_rssi payload) w
      in (if consumed then [] else [as_packet payload]) @ offered role payloads w)"

lemma drain_rx_spec:
  assumes "drain_rx role slots payloads received acked w rx = (received', acked', w', rx')"
    and "ring_used rx \<le> slots"
  shows "\<exists>accepted. rx_ring rx' = rx_ring rx @ accepted \<and> subseq accepted (offered role payloads w) \<and>
      (ring_used rx + length (offered role payloads w) \<le> slots \<longrightarrow> accepted = offered role payloads w) \<and>
      (received' \<longleftrightarrow> received \<or> accepted \<noteq> []) \<and> in_hand rx' = in_hand rx \<and> rx_sem rx' = rx_sem rx \<and>
      rx_running rx' = rx_running rx \<and> ring_used rx' \<le> slots"
  using assms
proof (induction payloads arbitrary: received acked w rx)
  case Nil
  then show ?case by auto
next
  case (Cons payload payloads)
  obtain w1 consumed where hop: "role_consume_rx role (rx_pipe payload) (rx_data payload) (rx_rssi payload) w = (w1, consumed)"
    by fastforce
  define acked1 where "acked1 = (if \<not> rx_noack payload then acked OR push_bit (rx_pipe payload) 1 else acked)"
  show ?case
  proof (cases "consumed \<or> slots \<le> ring_used rx")
    case True
    then have "drain_rx role slots payloads received acked1 w1 rx = (received', acked', w', rx')"
      using Cons.prems(1) hop by (auto simp: acked1_def Let_def split: if_splits)
    from Cons.IH [OF this Cons.prems(2)] show ?thesis
      using True hop by (auto simp: Let_def intro: subseq_Cons')
  next
    case False
    define rx1 where "rx1 = rx\<lparr>rx_ring := rx_ring rx @ [as_packet payload]\<rparr>"
    have "drain_rx role slots payloads True acked1 w1 rx1 = (received', acked', w', rx')" "ring_used rx1 = ring_used rx + 1"
      using Cons.prems(1) hop False by (auto simp: acked1_def rx1_def as_packet_def ring_used_def Let_def)
    with Cons.IH [of True acked1 w1 rx1] False obtain accepted where
      "rx_ring rx' = rx_ring rx1 @ accepted" "subseq accepted (offered role payloads w1)"
      "ring_used rx1 + length (offered role payloads w1) \<le> slots \<longrightarrow> accepted = offered role payloads w1"
      "received'" "in_hand rx' = in_hand rx1" "rx_sem rx' = rx_sem rx1" "rx_running rx' = rx_running rx1"
      "ring_used rx' \<le> slots"
      by auto
    then show ?thesis
      using False hop \<open>ring_used rx1 = ring_used rx + 1\<close>
      by (intro exI [of _ "as_packet payload # accepted"]) (auto simp: rx1_def)
  qed
qed

lemma drain_rx_acked:
  "pipe < 8 \<Longrightarrow> drain_rx role slots payloads received acked w rx = (received', acked', w', rx') \<Longrightarrow>
   bit acked' pipe \<longleftrightarrow> bit acked pipe \<or> (\<exists>payload \<in> set payloads. \<not> rx_noack payload \<and> rx_pipe payload = pipe)"
proof (induction payloads arbitrary: received acked w rx)
  case Nil
  then show ?case by simp
next
  case (Cons payload payloads)
  define acked1 where "acked1 = (if \<not> rx_noack payload then acked OR push_bit (rx_pipe payload) 1 else acked)"
  have bit1: "bit acked1 pipe \<longleftrightarrow> bit acked pipe \<or> (\<not> rx_noack payload \<and> rx_pipe payload = pipe)"
    using Cons.prems(1) by (auto simp: acked1_def bit_simps)
  obtain received1 w1 rx1 where "drain_rx role slots payloads received1 acked1 w1 rx1 = (received', acked', w', rx')"
    using Cons.prems(2) by (auto simp: acked1_def Let_def split_beta split: if_splits)
  from Cons.IH [OF Cons.prems(1) this] bit1 show ?case by auto
qed

text \<open>The interrupt and the dispatch thread, interleaved at will.\<close>

record 'w rx_run =
  run_role :: 'w
  run_rx :: rx_path
  run_offered :: "esb_link_packet list"
  run_delivered :: "esb_link_packet list"

datatype rx_op = Rx_interrupt "rx_payload list" | Rx_wake | Rx_consume | Rx_release

definition rx_step :: "'w role \<Rightarrow> nat \<Rightarrow> rx_op \<Rightarrow> 'w rx_run \<Rightarrow> 'w rx_run" where
  "rx_step role slots op r =
     (case op of
        Rx_interrupt payloads \<Rightarrow>
          let (w, rx) = on_rx_received role slots payloads (run_role r) (run_rx r)
          in r\<lparr>run_role := w, run_rx := rx, run_offered := run_offered r @ offered role payloads (run_role r)\<rparr>
      | Rx_wake \<Rightarrow> r\<lparr>run_rx := rx_thread_wake (run_rx r)\<rparr>
      | Rx_consume \<Rightarrow> r\<lparr>run_rx := rx_thread_consume (run_rx r)\<rparr>
      | Rx_release \<Rightarrow>
          let (rx, packet) = rx_thread_release (run_rx r)
          in r\<lparr>run_rx := rx, run_delivered := run_delivered r @ (case packet of None \<Rightarrow> [] | Some p \<Rightarrow> [p])\<rparr>)"

definition rx_run_boot :: "'w \<Rightarrow> 'w rx_run" where
  "rx_run_boot w = \<lparr>run_role = w, run_rx = rx_path_boot, run_offered = [], run_delivered = []\<rparr>"

definition rx_kept :: "'w rx_run \<Rightarrow> esb_link_packet list" where
  "rx_kept r = run_delivered r @ (case in_hand (run_rx r) of None \<Rightarrow> [] | Some p \<Rightarrow> [p]) @ rx_ring (run_rx r)"

definition rx_inv :: "nat \<Rightarrow> 'w rx_run \<Rightarrow> bool" where
  "rx_inv slots r \<longleftrightarrow> subseq (rx_kept r) (run_offered r) \<and> ring_used (run_rx r) \<le> slots \<and>
     (ring_used (run_rx r) \<noteq> 0 \<longrightarrow> rx_sem (run_rx r) \<or> rx_running (run_rx r)) \<and>
     (in_hand (run_rx r) \<noteq> None \<longrightarrow> rx_running (run_rx r)) \<and>
     (length (run_offered r) \<le> slots \<longrightarrow> rx_kept r = run_offered r)"

lemma rx_inv_interrupt:
  assumes "rx_inv slots r"
  shows "rx_inv slots (rx_step role slots (Rx_interrupt payloads) r)"
proof -
  obtain received acked w rx where drain: "drain_rx role slots payloads False 0 (run_role r) (run_rx r) = (received, acked, w, rx)"
    by (metis surj_pair)
  define off where "off = offered role payloads (run_role r)"
  obtain accepted where acc: "rx_ring rx = rx_ring (run_rx r) @ accepted" "subseq accepted off"
    "ring_used (run_rx r) + length off \<le> slots \<longrightarrow> accepted = off" "received \<longleftrightarrow> accepted \<noteq> []"
    "in_hand rx = in_hand (run_rx r)" "rx_sem rx = rx_sem (run_rx r)" "rx_running rx = rx_running (run_rx r)"
    "ring_used rx \<le> slots"
    using drain_rx_spec [OF drain] assms by (auto simp: rx_inv_def off_def)
  define r' where "r' = rx_step role slots (Rx_interrupt payloads) r"
  have r': "run_offered r' = run_offered r @ off" "run_delivered r' = run_delivered r"
    "run_rx r' = (if received then rx\<lparr>rx_sem := True\<rparr> else rx)"
    by (auto simp: r'_def rx_step_def on_rx_received_def drain off_def Let_def)
  have kept: "rx_kept r' = rx_kept r @ accepted"
    using acc(1,5) r' by (simp add: rx_kept_def)
  have used: "ring_used (run_rx r) \<le> length (rx_kept r)"
    by (auto simp: rx_kept_def ring_used_def)
  have "length (run_offered r @ off) \<le> slots \<Longrightarrow> accepted = off \<and> rx_kept r = run_offered r"
    using acc(3) used assms by (auto simp: rx_inv_def)
  then have "rx_inv slots r'"
    unfolding rx_inv_def kept r'
    using assms acc list_emb_append_mono [of "(=)" "rx_kept r" "run_offered r" accepted off]
    by (auto simp: rx_inv_def ring_used_def split: if_splits)
  then show ?thesis by (simp add: r'_def)
qed

lemma rx_inv_step: "rx_inv slots r \<Longrightarrow> rx_inv slots (rx_step role slots op r)"
  by (cases op)
    (simp_all add: rx_inv_interrupt,
     auto simp: rx_step_def rx_thread_wake_def rx_thread_consume_def rx_thread_release_def rx_inv_def rx_kept_def
       ring_used_def Let_def split: list.splits option.splits)

lemma rx_inv_run: "rx_inv slots (fold (rx_step role slots) ops (rx_run_boot w))"
proof -
  have "rx_inv slots r \<Longrightarrow> rx_inv slots (fold (rx_step role slots) ops r)" for r
    by (induction ops arbitrary: r) (simp_all add: rx_inv_step)
  moreover have "rx_inv slots (rx_run_boot w)"
    by (simp add: rx_inv_def rx_run_boot_def rx_path_boot_def rx_kept_def ring_used_def)
  ultimately show ?thesis .
qed

text \<open>
  Claim C19: in every interleaving of the radio's interrupts with the dispatch thread the
  callback gets packets in the order they were received, none twice; the ring never holds more
  than its slots, and a packet in it has the thread running or its wake pending, so none waits
  for the next one to arrive; and as long as no more came than fit, none is lost.
\<close>

theorem rx_ring_delivers:
  assumes "r = fold (rx_step role slots) ops (rx_run_boot w)"
  shows "subseq (rx_kept r) (run_offered r) \<and> ring_used (run_rx r) \<le> slots \<and>
    (ring_used (run_rx r) \<noteq> 0 \<longrightarrow> rx_sem (run_rx r) \<or> rx_running (run_rx r)) \<and>
    (length (run_offered r) \<le> slots \<longrightarrow> rx_kept r = run_offered r)"
  using rx_inv_run [of slots role ops w] assms by (simp add: rx_inv_def)

text \<open>
  After each read of the radio the role drains replies for exactly the pipes whose
  packets asked for an ACK.
\<close>

theorem rx_done_pipes_acked:
  "\<exists>acked. fst (on_rx_received role slots payloads w rx) =
      role_rx_done role acked (fst (snd (snd (drain_rx role slots payloads False 0 w rx)))) \<and>
    (\<forall>pipe < 8. bit acked pipe = (\<exists>payload \<in> set payloads. \<not> rx_noack payload \<and> rx_pipe payload = pipe))"
proof -
  obtain received acked w' rx' where drain: "drain_rx role slots payloads False 0 w rx = (received, acked, w', rx')"
    by (metis surj_pair)
  then show ?thesis
    using drain_rx_acked [OF _ drain]
    by (intro exI [of _ acked]) (auto simp: on_rx_received_def drain Let_def)
qed

definition example_role :: "u8 list role" where
  "example_role = \<lparr>role_consume_rx = (\<lambda>pipe data rssi w. (w, False)), role_rx_done = (\<lambda>acked w. w @ [acked]),
     role_note_tx_success = (\<lambda>_ w. w), role_tx_succeeded = (\<lambda>w. w), role_note_tx_failed = (\<lambda>w. w),
     role_retry_failed_tx = (\<lambda>w. (w, False)), flush_tx = (\<lambda>w. w), role_start = (\<lambda>w. (w, Ok)), role_stop = (\<lambda>w. w),
     role_hop_start = (\<lambda>w. w), role_hop_stop = (\<lambda>w. w), stop_rx = (\<lambda>w. w)\<rparr>"

theorem rx_done_pipes_acked_witness:
  "\<exists>acked. fst (on_rx_received example_role 16 [\<lparr>rx_pipe = 2, rx_noack = False, rx_rssi = 0, rx_data = [1]\<rparr>] [] rx_path_boot) =
     [acked] \<and> bit acked 2 \<and> \<not> bit acked 1"
proof -
  define payloads where "payloads = [\<lparr>rx_pipe = 2, rx_noack = False, rx_rssi = 0, rx_data = [1 :: u8]\<rparr>]"
  obtain acked where acked: "fst (on_rx_received example_role 16 payloads [] rx_path_boot) =
      role_rx_done example_role acked (fst (snd (snd (drain_rx example_role 16 payloads False 0 [] rx_path_boot))))"
    and bits: "\<forall>pipe < 8. bit acked pipe = (\<exists>payload \<in> set payloads. \<not> rx_noack payload \<and> rx_pipe payload = pipe)"
    using rx_done_pipes_acked [of example_role 16 payloads "[]" rx_path_boot] by blast
  have "fst (on_rx_received example_role 16 payloads [] rx_path_boot) = [acked]"
    unfolding acked by (simp add: example_role_def payloads_def ring_used_def rx_path_boot_def Let_def)
  moreover have "bit acked 2" "\<not> bit acked 1"
    using bits by (auto simp: payloads_def)
  ultimately show ?thesis unfolding payloads_def by blast
qed

theorem rx_ring_delivers_witness:
  "rx_kept (fold (rx_step example_role 16)
     [Rx_interrupt [\<lparr>rx_pipe = 2, rx_noack = False, rx_rssi = 0, rx_data = [1]\<rparr>], Rx_wake, Rx_consume, Rx_release]
     (rx_run_boot [])) = [\<lparr>packet_pipe = 2, packet_data = [1]\<rparr>]"
proof -
  define ops where "ops = [Rx_interrupt [\<lparr>rx_pipe = 2, rx_noack = False, rx_rssi = 0, rx_data = [1 :: u8]\<rparr>], Rx_wake, Rx_consume, Rx_release]"
  define r where "r = fold (rx_step example_role 16) ops (rx_run_boot [])"
  have offered: "run_offered r = [\<lparr>packet_pipe = 2, packet_data = [1]\<rparr>]"
    by (simp add: r_def ops_def rx_step_def rx_run_boot_def on_rx_received_def rx_path_boot_def example_role_def
        ring_used_def as_packet_def Let_def rx_thread_wake_def rx_thread_consume_def rx_thread_release_def)
  show ?thesis
    using rx_ring_delivers [OF r_def] offered by (simp add: r_def ops_def)
qed

end
