(* ===== verification/Link_Peripheral.thy ===== *)
theory Link_Peripheral
  imports Hop_Policy Esb_Link
begin

text \<open>
  The peripheral's half of the radio link (\<open>src/esb_link_peripheral.c\<close>): the tunables a
  busy radio defers, the crystal held only around bursts, the send path with its recovery from a
  stalled engine, and the restarts of a failed transmit; with the power states
  (\<open>src/esb_sleep.c\<close>) and the settings (\<open>src/esb_config.c\<close>) that drive it. NCS's
  radio is the record \<open>ncs\<close> of functions on the radio's state.
\<close>

record tx_payload =
  tx_pipe :: nat
  tx_noack :: bool
  tx_data :: bytes

record 'r ncs =
  esb_write_payload :: "tx_payload \<Rightarrow> 'r \<Rightarrow> 'r \<times> status"
  esb_flush_tx :: "'r \<Rightarrow> 'r"
  esb_start_tx :: "'r \<Rightarrow> 'r"
  esb_set_tx_power :: "i8 \<Rightarrow> 'r \<Rightarrow> 'r \<times> status"
  esb_set_retransmit_count :: "u16 \<Rightarrow> 'r \<Rightarrow> 'r \<times> status"
  esb_set_retransmit_delay :: "u16 \<Rightarrow> 'r \<Rightarrow> 'r \<times> status"
  esb_is_idle :: "'r \<Rightarrow> bool"
  hfclk_answer :: "'r \<Rightarrow> status"

section \<open>Tunables\<close>

record radio_setting =
  requested :: i32
  applied :: i32
  pending_flag :: bool

definition setting_boot :: "i32 \<Rightarrow> radio_setting" where
  "setting_boot val = \<lparr>requested = val, applied = val, pending_flag = False\<rparr>"

definition apply_tx_power :: "'r ncs \<Rightarrow> i32 \<Rightarrow> 'r \<Rightarrow> 'r \<times> status" where
  "apply_tx_power ncs val r = esb_set_tx_power ncs (ucast val) r"

definition apply_retransmit_count :: "'r ncs \<Rightarrow> i32 \<Rightarrow> 'r \<Rightarrow> 'r \<times> status" where
  "apply_retransmit_count ncs val r = esb_set_retransmit_count ncs (ucast val) r"

definition apply_retransmit_delay :: "'r ncs \<Rightarrow> i32 \<Rightarrow> 'r \<Rightarrow> 'r \<times> status" where
  "apply_retransmit_delay ncs val r = esb_set_retransmit_delay ncs (ucast val) r"

text \<open>\<open>apply\<close> is the setting's function pointer.\<close>

definition apply_setting ::
  "(i32 \<Rightarrow> 'r \<Rightarrow> 'r \<times> status) \<Rightarrow> radio_setting \<Rightarrow> 'r \<Rightarrow> radio_setting \<times> 'r \<times> status" where
  "apply_setting apply_fn setting r =
     (if \<not> pending_flag setting then (setting, r, Ok)
      else
        let setting = setting\<lparr>pending_flag := False\<rparr>;
            val = requested setting;
            (r, error) = apply_fn val r
        in if error = Err EBUSY then (setting\<lparr>pending_flag := True\<rparr>, r, Ok)
           else (if error = Ok then setting\<lparr>applied := val\<rparr> else setting, r, error))"

definition request_setting ::
  "(i32 \<Rightarrow> 'r \<Rightarrow> 'r \<times> status) \<Rightarrow> i32 \<Rightarrow> radio_setting \<Rightarrow> 'r \<Rightarrow> radio_setting \<times> 'r \<times> status" where
  "request_setting apply_fn val setting r = apply_setting apply_fn (setting\<lparr>requested := val, pending_flag := True\<rparr>) r"

section \<open>State\<close>

record link_peripheral_config =
  self_pipe :: nat
  peer_pipe :: nat
  max_payload :: nat

record link_peripheral =
  tx_power_setting :: radio_setting
  retransmit_count_setting :: radio_setting
  retransmit_delay_setting :: radio_setting
  hfclk_gating :: bool
  hfclk_on :: bool
  hfclk_release_work :: "u32 option"
  tx_restarts :: nat
  tx_restart_work :: bool
  last_tx_event_ms :: u32

definition link_peripheral_boot :: "i8 \<Rightarrow> u16 \<Rightarrow> u16 \<Rightarrow> link_peripheral" where
  "link_peripheral_boot dbm count delay_us =
     \<lparr>tx_power_setting = setting_boot (scast dbm), retransmit_count_setting = setting_boot (ucast count),
      retransmit_delay_setting = setting_boot (ucast delay_us), hfclk_gating = False, hfclk_on = False,
      hfclk_release_work = None, tx_restarts = 0, tx_restart_work = False, last_tx_event_ms = 0\<rparr>"

definition esb_link_set_tx_power :: "'r ncs \<Rightarrow> i32 \<Rightarrow> link_peripheral \<Rightarrow> 'r \<Rightarrow> link_peripheral \<times> 'r \<times> status" where
  "esb_link_set_tx_power ncs dbm lp r =
     (if sint dbm < - 128 \<or> sint dbm > 127 then (lp, r, Err EINVAL)
      else
        let (setting, r, error) = request_setting (apply_tx_power ncs) dbm (tx_power_setting lp) r
        in (lp\<lparr>tx_power_setting := setting\<rparr>, r, error))"

definition esb_link_set_retransmit_delay :: "'r ncs \<Rightarrow> u32 \<Rightarrow> link_peripheral \<Rightarrow> 'r \<Rightarrow> link_peripheral \<times> 'r \<times> status" where
  "esb_link_set_retransmit_delay ncs delay_us lp r =
     (if delay_us > 65535 then (lp, r, Err EINVAL)
      else
        let (setting, r, error) = request_setting (apply_retransmit_delay ncs) delay_us (retransmit_delay_setting lp) r
        in (lp\<lparr>retransmit_delay_setting := setting\<rparr>, r, error))"

definition esb_link_set_retransmit_count :: "'r ncs \<Rightarrow> u8 \<Rightarrow> link_peripheral \<Rightarrow> 'r \<Rightarrow> link_peripheral \<times> 'r" where
  "esb_link_set_retransmit_count ncs count lp r =
     (let (setting, r, error) = request_setting (apply_retransmit_count ncs) (ucast count) (retransmit_count_setting lp) r
      in (lp\<lparr>retransmit_count_setting := setting\<rparr>, r))"

definition esb_link_apply_pending :: "'r ncs \<Rightarrow> link_peripheral \<Rightarrow> 'r \<Rightarrow> link_peripheral \<times> 'r" where
  "esb_link_apply_pending ncs lp r =
     (let (tx, r, _) = apply_setting (apply_tx_power ncs) (tx_power_setting lp) r;
          lp = lp\<lparr>tx_power_setting := tx\<rparr>;
          (count, r, _) = apply_setting (apply_retransmit_count ncs) (retransmit_count_setting lp) r;
          lp = lp\<lparr>retransmit_count_setting := count\<rparr>;
          (delay, r, _) = apply_setting (apply_retransmit_delay ncs) (retransmit_delay_setting lp) r
      in (lp\<lparr>retransmit_delay_setting := delay\<rparr>, r))"

section \<open>The crystal around bursts\<close>

definition TX_STALL_MARGIN :: u8 where "TX_STALL_MARGIN = 4"
definition TX_STALL_FLOOR_MS :: u32 where "TX_STALL_FLOOR_MS = 100"
definition HFCLK_IDLE_HOLD_MARGIN :: u8 where "HFCLK_IDLE_HOLD_MARGIN = 2"
definition HFCLK_IDLE_HOLD_FLOOR_MS :: u32 where "HFCLK_IDLE_HOLD_FLOOR_MS = 10"

definition live_retry_cycle_ms :: "u8 \<Rightarrow> u32 \<Rightarrow> link_peripheral \<Rightarrow> u32" where
  "live_retry_cycle_ms margin floor_ms lp =
     hop_policy_retry_cycle_ms (ucast (applied (retransmit_count_setting lp)))
       (ucast (applied (retransmit_delay_setting lp))) margin floor_ms"

definition reschedule_release :: "link_peripheral \<Rightarrow> link_peripheral" where
  "reschedule_release lp = lp\<lparr>hfclk_release_work :=
     Some (live_retry_cycle_ms HFCLK_IDLE_HOLD_MARGIN HFCLK_IDLE_HOLD_FLOOR_MS lp)\<rparr>"

text \<open>The work's own entry has left the queue when it runs.\<close>

definition hfclk_release_work_fn :: "'r ncs \<Rightarrow> 'r \<Rightarrow> link_peripheral \<Rightarrow> link_peripheral" where
  "hfclk_release_work_fn ncs r lp =
     (let lp = lp\<lparr>hfclk_release_work := None\<rparr>
      in if hop_policy_hfclk_release_allowed (hfclk_gating lp) (esb_is_idle ncs r)
         then lp\<lparr>hfclk_on := fst (esb_link_hfclk_release (hfclk_on lp))\<rparr>
         else if hfclk_gating lp then reschedule_release lp
         else lp)"

definition hfclk_gate_hold :: "'r ncs \<Rightarrow> 'r \<Rightarrow> link_peripheral \<Rightarrow> link_peripheral" where
  "hfclk_gate_hold ncs r lp =
     (let lp = lp\<lparr>hfclk_on := fst (esb_link_hfclk_acquire (hfclk_answer ncs r) (hfclk_on lp))\<rparr>
      in if hfclk_gating lp then reschedule_release lp else lp)"

definition esb_link_set_idle :: "'r ncs \<Rightarrow> 'r \<Rightarrow> bool \<Rightarrow> link_peripheral \<Rightarrow> link_peripheral" where
  "esb_link_set_idle ncs r idle lp =
     (let lp = lp\<lparr>hfclk_gating := idle\<rparr>
      in if idle then reschedule_release lp
         else lp\<lparr>hfclk_release_work := None,
                 hfclk_on := fst (esb_link_hfclk_acquire (hfclk_answer ncs r) (hfclk_on lp))\<rparr>)"

section \<open>Sending\<close>

definition submit_payload ::
  "'r ncs \<Rightarrow> u32 \<Rightarrow> tx_payload \<Rightarrow> link_peripheral \<Rightarrow> 'r \<Rightarrow> link_peripheral \<times> 'r \<times> status" where
  "submit_payload ncs now_ms payload lp r =
     (let lp = hfclk_gate_hold ncs r lp;
          (r, error) = esb_write_payload ncs payload r;
          silence_ms = now_ms - last_tx_event_ms lp
      in if error \<noteq> Err ENOMEM \<or> silence_ms \<le> live_retry_cycle_ms TX_STALL_MARGIN TX_STALL_FLOOR_MS lp
         then (lp, r, error)
         else
           let r = esb_flush_tx ncs r;
               lp = lp\<lparr>last_tx_event_ms := now_ms\<rparr>;
               (r, error) = esb_write_payload ncs payload r
           in (lp, r, error))"

definition tx_restart_work_fn :: "'r ncs \<Rightarrow> link_peripheral \<Rightarrow> 'r \<Rightarrow> link_peripheral \<times> 'r" where
  "tx_restart_work_fn ncs lp r =
     (let lp = hfclk_gate_hold ncs r (lp\<lparr>tx_restart_work := False\<rparr>) in (lp, esb_start_tx ncs r))"

text \<open>What a send notes with the hop engine, in order.\<close>

datatype send_note = Note_data_sent | Note_noack_sent

definition send_on_pipe ::
  "'r ncs \<Rightarrow> link_peripheral_config \<Rightarrow> u32 \<Rightarrow> nat \<Rightarrow> bytes \<Rightarrow> bool \<Rightarrow> link_peripheral \<Rightarrow> 'r \<Rightarrow>
   (link_peripheral \<times> 'r \<times> status) \<times> send_note list" where
  "send_on_pipe ncs cfg now_ms pipe data ack lp r =
     (if length data > max_payload cfg then ((lp, r, Err EMSGSIZE), [])
      else
        let (lp, r, error) = submit_payload ncs now_ms \<lparr>tx_pipe = pipe, tx_noack = (\<not> ack), tx_data = data\<rparr> lp r
        in ((lp, r, error),
            (if error = Ok then [Note_data_sent] else []) @ (if error = Ok \<and> \<not> ack then [Note_noack_sent] else [])))"

definition esb_link_send ::
  "'r ncs \<Rightarrow> link_peripheral_config \<Rightarrow> u32 \<Rightarrow> bytes \<Rightarrow> bool \<Rightarrow> link_peripheral \<Rightarrow> 'r \<Rightarrow>
   (link_peripheral \<times> 'r \<times> status) \<times> send_note list" where
  "esb_link_send ncs cfg now_ms data ack lp r = send_on_pipe ncs cfg now_ms (self_pipe cfg) data ack lp r"

text \<open>\<open>filled\<close> is what \<open>esb_link_keepalive_fill\<close> wrote, empty where it returned 0.\<close>

definition esb_link_send_keepalive ::
  "'r ncs \<Rightarrow> link_peripheral_config \<Rightarrow> u32 \<Rightarrow> bytes \<Rightarrow> link_peripheral \<Rightarrow> 'r \<Rightarrow> link_peripheral \<times> 'r" where
  "esb_link_send_keepalive ncs cfg now_ms filled lp r =
     (if length filled = 0 then (lp, r)
      else
        let (lp, r, _) = submit_payload ncs now_ms \<lparr>tx_pipe = self_pipe cfg, tx_noack = False, tx_data = filled\<rparr> lp r
        in (lp, r))"

definition ESB_RELAY_POLL_TAG :: u8 where "ESB_RELAY_POLL_TAG = 0xFB"

definition esb_link_send_relay_poll ::
  "'r ncs \<Rightarrow> link_peripheral_config \<Rightarrow> u32 \<Rightarrow> link_peripheral \<Rightarrow> 'r \<Rightarrow> link_peripheral \<times> 'r" where
  "esb_link_send_relay_poll ncs cfg now_ms lp r =
     (let (lp, r, _) = submit_payload ncs now_ms
            \<lparr>tx_pipe = self_pipe cfg, tx_noack = False, tx_data = [ESB_RELAY_POLL_TAG]\<rparr> lp r
      in (lp, r))"

definition esb_link_send_relay ::
  "'r ncs \<Rightarrow> link_peripheral_config \<Rightarrow> u32 \<Rightarrow> bytes \<Rightarrow> bool \<Rightarrow> link_peripheral \<Rightarrow> 'r \<Rightarrow>
   (link_peripheral \<times> 'r \<times> status) \<times> send_note list" where
  "esb_link_send_relay ncs cfg now_ms data ack lp r = send_on_pipe ncs cfg now_ms (peer_pipe cfg) data ack lp r"

section \<open>Failed transmits\<close>

definition esb_link_role_tx_succeeded :: "link_peripheral \<Rightarrow> link_peripheral" where
  "esb_link_role_tx_succeeded lp = lp\<lparr>tx_restarts := 0\<rparr>"

text \<open>\<open>acked\<close> is \<open>hop_link_acked()\<close>; retuning a refused channel is
  \<^const>\<open>apply_hop_channel\<close>.\<close>

definition esb_link_role_retry_failed_tx :: "bool \<Rightarrow> link_peripheral \<Rightarrow> link_peripheral \<times> bool" where
  "esb_link_role_retry_failed_tx acked lp =
     (let restarts = tx_restarts lp;
          lp = lp\<lparr>tx_restarts := tx_restarts lp + 1\<rparr>
      in if \<not> acked \<or> restarts \<ge> ESB_LINK_TX_RESTARTS_MAX then (lp\<lparr>tx_restarts := 0\<rparr>, False)
         else (lp\<lparr>tx_restart_work := True\<rparr>, True))"

definition esb_link_role_stop :: "link_peripheral \<Rightarrow> link_peripheral" where
  "esb_link_role_stop lp = lp\<lparr>tx_restart_work := False, tx_restarts := 0\<rparr>"

section \<open>Power states and settings\<close>

datatype zmk_activity = ZMK_ACTIVITY_ACTIVE | ZMK_ACTIVITY_IDLE | ZMK_ACTIVITY_SLEEP

datatype sleep_call = Set_enabled bool | Set_idle bool

text \<open>The state is \<open>asleep\<close>, the result the calls into the link.\<close>

definition esb_sleep_listener :: "zmk_activity \<Rightarrow> bool \<Rightarrow> bool \<times> sleep_call list" where
  "esb_sleep_listener activity asleep =
     (if activity = ZMK_ACTIVITY_SLEEP then (True, [Set_enabled False])
      else
        (False,
         (if asleep then [Set_enabled True] else []) @
         (if activity = ZMK_ACTIVITY_IDLE then [Set_idle True]
          else if activity = ZMK_ACTIVITY_ACTIVE then [Set_idle False] else [])))"

datatype config_name = Name_tx_power | Name_retransmit_count | Name_retransmit_delay | Name_other

text \<open>\<open>stored\<close> is what \<open>read_cb\<close> gives, \<^const>\<open>None\<close> where it failed;
  \<open>set_ceiling\<close> is \<open>hop_set_retransmit_ceiling\<close> on the hop engine's state.\<close>

definition esb_config_set ::
  "'r ncs \<Rightarrow> (u32 \<Rightarrow> 'h \<Rightarrow> 'h \<times> status) \<Rightarrow> config_name \<Rightarrow> nat \<Rightarrow> u32 option \<Rightarrow> 'h \<Rightarrow> link_peripheral \<Rightarrow> 'r \<Rightarrow>
   'h \<times> link_peripheral \<times> 'r \<times> status" where
  "esb_config_set ncs set_ceiling config_name len stored h lp r =
     (if len \<noteq> 4 then (h, lp, r, Err EINVAL)
      else case stored of
        None \<Rightarrow> (h, lp, r, Err EIO)
      | Some val \<Rightarrow>
          (case config_name of
             Name_tx_power \<Rightarrow> (h, esb_link_set_tx_power ncs val lp r)
           | Name_retransmit_count \<Rightarrow> (let (h, error) = set_ceiling val h in (h, lp, r, error))
           | Name_retransmit_delay \<Rightarrow> (h, esb_link_set_retransmit_delay ncs val lp r)
           | Name_other \<Rightarrow> (h, lp, r, Err ENOENT)))"

text \<open>\<open>init_error\<close> and \<open>load_error\<close> are what the settings subsystem answers to
  its start and to the load of the subtree, negative on an error.\<close>

definition esb_config_init :: "int \<Rightarrow> int \<Rightarrow> int" where
  "esb_config_init init_error load_error = (if init_error < 0 then init_error else load_error)"

section \<open>The tunables settle\<close>

text \<open>The radio between two calls changes as it will, its tunables apart: \<open>Radio_moves\<close>.\<close>

datatype 'r tunable_op =
    Set_power i32
  | Set_count u8
  | Set_delay u32
  | Apply_pending
  | Radio_moves "'r \<Rightarrow> 'r"

definition tunable_step :: "'r ncs \<Rightarrow> 'r tunable_op \<Rightarrow> link_peripheral \<times> 'r \<Rightarrow> link_peripheral \<times> 'r" where
  "tunable_step ncs op = (\<lambda>(lp, r).
     (case op of
        Set_power dbm \<Rightarrow> (let (lp, r, error) = esb_link_set_tx_power ncs dbm lp r in (lp, r))
      | Set_count count \<Rightarrow> esb_link_set_retransmit_count ncs count lp r
      | Set_delay delay_us \<Rightarrow> (let (lp, r, error) = esb_link_set_retransmit_delay ncs delay_us lp r in (lp, r))
      | Apply_pending \<Rightarrow> esb_link_apply_pending ncs lp r
      | Radio_moves f \<Rightarrow> (lp, f r)))"

text \<open>The value each tunable was last asked for: requests out of its range are refused.\<close>

definition last_power :: "i32 \<Rightarrow> 'r tunable_op list \<Rightarrow> i32" where
  "last_power start ops = fold (\<lambda>op val. case op of
     Set_power dbm \<Rightarrow> if - 128 \<le> sint dbm \<and> sint dbm \<le> 127 then dbm else val | _ \<Rightarrow> val) ops start"

definition last_count :: "u8 \<Rightarrow> 'r tunable_op list \<Rightarrow> u8" where
  "last_count start ops = fold (\<lambda>op val. case op of Set_count count \<Rightarrow> count | _ \<Rightarrow> val) ops start"

definition last_delay :: "u32 \<Rightarrow> 'r tunable_op list \<Rightarrow> u32" where
  "last_delay start ops = fold (\<lambda>op val. case op of
     Set_delay delay_us \<Rightarrow> if delay_us \<le> 65535 then delay_us else val | _ \<Rightarrow> val) ops start"

lemmas last_requests = last_power_def last_count_def last_delay_def

text \<open>NCS's tunables: a busy radio answers \<open>-EBUSY\<close> and keeps its value, an idle one takes the new
  one; \<open>dbm_reg\<close>, \<open>count_reg\<close> and \<open>delay_reg\<close> read the three of a radio state.\<close>

definition tunable_radio ::
  "'r ncs \<Rightarrow> ('r \<Rightarrow> bool) \<Rightarrow> ('r \<Rightarrow> i8) \<Rightarrow> ('r \<Rightarrow> u16) \<Rightarrow> ('r \<Rightarrow> u16) \<Rightarrow> bool" where
  "tunable_radio ncs busy dbm_reg count_reg delay_reg \<longleftrightarrow> (\<forall>r.
     (\<forall>val r' status. esb_set_tx_power ncs val r = (r', status) \<longrightarrow>
        status = (if busy r then Err EBUSY else Ok) \<and> busy r' = busy r \<and>
        dbm_reg r' = (if busy r then dbm_reg r else val) \<and> count_reg r' = count_reg r \<and> delay_reg r' = delay_reg r) \<and>
     (\<forall>val r' status. esb_set_retransmit_count ncs val r = (r', status) \<longrightarrow>
        status = (if busy r then Err EBUSY else Ok) \<and> busy r' = busy r \<and>
        count_reg r' = (if busy r then count_reg r else val) \<and> dbm_reg r' = dbm_reg r \<and> delay_reg r' = delay_reg r) \<and>
     (\<forall>val r' status. esb_set_retransmit_delay ncs val r = (r', status) \<longrightarrow>
        status = (if busy r then Err EBUSY else Ok) \<and> busy r' = busy r \<and>
        delay_reg r' = (if busy r then delay_reg r else val) \<and> dbm_reg r' = dbm_reg r \<and> count_reg r' = count_reg r))"

text \<open>One tunable between two calls: its register, read as the 32-bit value, is the one applied.\<close>

definition setting_inv :: "i32 \<Rightarrow> radio_setting \<Rightarrow> bool" where
  "setting_inv register setting \<longleftrightarrow>
     register = applied setting \<and> (\<not> pending_flag setting \<longrightarrow> applied setting = requested setting)"

lemma apply_setting_inv:
  assumes "setting_inv (reg r) setting" and "apply_setting apply_fn setting r = (setting', r', error)"
    and "\<And>r' status. apply_fn (requested setting) r = (r', status) \<Longrightarrow>
      status = (if busy r then Err EBUSY else Ok) \<and> busy r' = busy r \<and>
      reg r' = (if busy r then reg r else requested setting) \<and> others r' = others r"
  shows "setting_inv (reg r') setting' \<and> requested setting' = requested setting \<and> busy r' = busy r \<and>
    others r' = others r \<and> (\<not> busy r \<longrightarrow> \<not> pending_flag setting')"
proof (cases "pending_flag setting")
  case False
  then show ?thesis using assms(1,2) by (simp add: apply_setting_def)
next
  case True
  obtain r1 status where answer: "apply_fn (requested setting) r = (r1, status)" by fastforce
  from assms(3) [OF answer] show ?thesis
    using True assms(1,2) answer by (auto simp: apply_setting_def setting_inv_def Let_def split: if_splits)
qed

text \<open>The narrowing casts lose nothing of a value in range.\<close>

lemma power_in_range:
  fixes dbm :: i32
  assumes "- 128 \<le> sint dbm" "sint dbm \<le> 127"
  shows "(scast (ucast dbm :: i8) :: i32) = dbm"
proof -
  have "signed_take_bit 7 (sint dbm) = sint dbm"
    using assms by (intro signed_take_bit_int_eq_self) simp_all
  moreover have "signed_take_bit 7 (uint dbm) = signed_take_bit 7 (sint dbm)"
    by (simp add: sint_uint)
  ultimately show ?thesis
    by (simp add: scast_eq signed_ucast_eq)
qed

lemma delay_in_range: "delay_us \<le> 65535 \<Longrightarrow> (ucast (ucast (delay_us :: u32) :: u16) :: u32) = delay_us"
  by (simp add: word_unat_eq_iff unsigned_ucast_eq unsigned_take_bit_eq take_bit_nat_eq_self word_le_nat_alt)

definition tunables_inv ::
  "('r \<Rightarrow> i8) \<Rightarrow> ('r \<Rightarrow> u16) \<Rightarrow> ('r \<Rightarrow> u16) \<Rightarrow> i32 \<Rightarrow> u8 \<Rightarrow> u32 \<Rightarrow> link_peripheral \<times> 'r \<Rightarrow> bool" where
  "tunables_inv dbm_reg count_reg delay_reg dbm retries delay_us = (\<lambda>(lp, r).
     setting_inv (scast (dbm_reg r)) (tx_power_setting lp) \<and> requested (tx_power_setting lp) = dbm \<and>
     setting_inv (ucast (count_reg r)) (retransmit_count_setting lp) \<and> requested (retransmit_count_setting lp) = ucast retries \<and>
     setting_inv (ucast (delay_reg r)) (retransmit_delay_setting lp) \<and> requested (retransmit_delay_setting lp) = delay_us \<and>
     - 128 \<le> sint dbm \<and> sint dbm \<le> 127 \<and> delay_us \<le> 65535)"

lemma apply_power_inv:
  assumes radio: "tunable_radio ncs busy dbm_reg count_reg delay_reg"
    and "setting_inv (scast (dbm_reg r)) setting" "- 128 \<le> sint (requested setting)" "sint (requested setting) \<le> 127"
    and "apply_setting (apply_tx_power ncs) setting r = (setting', r', error)"
  shows "setting_inv (scast (dbm_reg r')) setting' \<and> requested setting' = requested setting \<and> busy r' = busy r \<and>
    (count_reg r', delay_reg r') = (count_reg r, delay_reg r) \<and> (\<not> busy r \<longrightarrow> \<not> pending_flag setting')"
  by (rule apply_setting_inv [where reg = "\<lambda>r. scast (dbm_reg r)" and others = "\<lambda>r. (count_reg r, delay_reg r)", OF assms(2,5)])
    (use radio power_in_range [OF assms(3,4)] in \<open>auto simp: apply_tx_power_def tunable_radio_def\<close>)

lemma apply_count_inv:
  assumes radio: "tunable_radio ncs busy dbm_reg count_reg delay_reg"
    and "setting_inv (ucast (count_reg r)) setting" "requested setting = ucast (retries :: u8)"
    and "apply_setting (apply_retransmit_count ncs) setting r = (setting', r', error)"
  shows "setting_inv (ucast (count_reg r')) setting' \<and> requested setting' = requested setting \<and> busy r' = busy r \<and>
    (dbm_reg r', delay_reg r') = (dbm_reg r, delay_reg r) \<and> (\<not> busy r \<longrightarrow> \<not> pending_flag setting')"
proof -
  have "(ucast (ucast (ucast retries :: i32) :: u16) :: i32) = ucast retries"
    by (rule bit_word_eqI) (auto simp: bit_simps dest: bit_imp_le_length)
  then show ?thesis
    by (intro apply_setting_inv [where reg = "\<lambda>r. ucast (count_reg r)" and others = "\<lambda>r. (dbm_reg r, delay_reg r)", OF assms(2,4)])
      (use radio assms(3) in \<open>auto simp: apply_retransmit_count_def tunable_radio_def\<close>)
qed

lemma apply_delay_inv:
  assumes radio: "tunable_radio ncs busy dbm_reg count_reg delay_reg"
    and "setting_inv (ucast (delay_reg r)) setting" "requested setting \<le> 65535"
    and "apply_setting (apply_retransmit_delay ncs) setting r = (setting', r', error)"
  shows "setting_inv (ucast (delay_reg r')) setting' \<and> requested setting' = requested setting \<and> busy r' = busy r \<and>
    (dbm_reg r', count_reg r') = (dbm_reg r, count_reg r) \<and> (\<not> busy r \<longrightarrow> \<not> pending_flag setting')"
  by (rule apply_setting_inv [where reg = "\<lambda>r. ucast (delay_reg r)" and others = "\<lambda>r. (dbm_reg r, count_reg r)", OF assms(2,4)])
    (use radio delay_in_range [OF assms(3)] in \<open>auto simp: apply_retransmit_delay_def tunable_radio_def\<close>)

lemma setting_requested: "setting_inv reg setting \<Longrightarrow> setting_inv reg (setting\<lparr>requested := val, pending_flag := True\<rparr>)"
  by (simp add: setting_inv_def)

lemma tunable_step_inv:
  assumes radio: "tunable_radio ncs busy dbm_reg count_reg delay_reg"
    and inv: "tunables_inv dbm_reg count_reg delay_reg dbm retries delay_us (lp, r)"
    and moves: "\<And>f r. op = Radio_moves f \<Longrightarrow>
      dbm_reg (f r) = dbm_reg r \<and> count_reg (f r) = count_reg r \<and> delay_reg (f r) = delay_reg r"
    and step: "tunable_step ncs op (lp, r) = (lp', r')"
  shows "tunables_inv dbm_reg count_reg delay_reg (last_power dbm [op]) (last_count retries [op]) (last_delay delay_us [op]) (lp', r') \<and>
    (op = Apply_pending \<and> \<not> busy r' \<longrightarrow> \<not> pending_flag (tx_power_setting lp') \<and>
      \<not> pending_flag (retransmit_count_setting lp') \<and> \<not> pending_flag (retransmit_delay_setting lp'))"
proof -
  have i: "setting_inv (scast (dbm_reg r)) (tx_power_setting lp)" "requested (tx_power_setting lp) = dbm"
    "setting_inv (ucast (count_reg r)) (retransmit_count_setting lp)" "requested (retransmit_count_setting lp) = ucast retries"
    "setting_inv (ucast (delay_reg r)) (retransmit_delay_setting lp)" "requested (retransmit_delay_setting lp) = delay_us"
    "- 128 \<le> sint dbm" "sint dbm \<le> 127" "delay_us \<le> 65535"
    using inv by (simp_all add: tunables_inv_def)
  note unfolded = tunable_step_def request_setting_def Let_def tunables_inv_def last_requests
  show ?thesis
  proof (cases op)
    case (Set_power val)
    show ?thesis
    proof (cases "- 128 \<le> sint val \<and> sint val \<le> 127")
      case True
      obtain setting error where out: "apply_setting (apply_tx_power ncs) ((tx_power_setting lp)\<lparr>requested := val, pending_flag := True\<rparr>) r =
          (setting, r', error)" "lp' = lp\<lparr>tx_power_setting := setting\<rparr>"
        using step Set_power True by (auto simp: unfolded esb_link_set_tx_power_def split: prod.splits)
      from apply_power_inv [OF radio setting_requested [OF i(1)] _ _ out(1)] True i out(2) Set_power show ?thesis
        by (simp add: unfolded)
    next
      case False
      then have "lp' = lp" "r' = r"
        using step Set_power by (auto simp: unfolded esb_link_set_tx_power_def)
      then show ?thesis using i False Set_power by (auto simp: unfolded)
    qed
  next
    case (Set_count val)
    obtain setting error where out: "apply_setting (apply_retransmit_count ncs)
        ((retransmit_count_setting lp)\<lparr>requested := ucast val, pending_flag := True\<rparr>) r =
        (setting, r', error)" "lp' = lp\<lparr>retransmit_count_setting := setting\<rparr>"
      using step Set_count by (auto simp: unfolded esb_link_set_retransmit_count_def split: prod.splits)
    from apply_count_inv [OF radio setting_requested [OF i(3)] _ out(1)] i out(2) Set_count show ?thesis
      by (simp add: unfolded)
  next
    case (Set_delay val)
    show ?thesis
    proof (cases "val \<le> 65535")
      case True
      obtain setting error where out: "apply_setting (apply_retransmit_delay ncs)
          ((retransmit_delay_setting lp)\<lparr>requested := val, pending_flag := True\<rparr>) r =
          (setting, r', error)" "lp' = lp\<lparr>retransmit_delay_setting := setting\<rparr>"
        using step Set_delay True by (auto simp: unfolded not_less [symmetric] esb_link_set_retransmit_delay_def split: prod.splits)
      from apply_delay_inv [OF radio setting_requested [OF i(5)] _ out(1)] True i out(2) Set_delay show ?thesis
        by (simp add: unfolded)
    next
      case False
      then have "lp' = lp" "r' = r"
        using step Set_delay by (auto simp: unfolded not_le esb_link_set_retransmit_delay_def)
      then show ?thesis using i False Set_delay by (simp add: unfolded)
    qed
  next
    case Apply_pending
    obtain tx r1 e1 where tx: "apply_setting (apply_tx_power ncs) (tx_power_setting lp) r = (tx, r1, e1)" by (metis surj_pair)
    obtain count r2 e2 where count: "apply_setting (apply_retransmit_count ncs) (retransmit_count_setting lp) r1 = (count, r2, e2)"
      by (metis surj_pair)
    obtain delay r3 e3 where delay: "apply_setting (apply_retransmit_delay ncs) (retransmit_delay_setting lp) r2 = (delay, r3, e3)"
      by (metis surj_pair)
    have out: "lp' = lp\<lparr>tx_power_setting := tx, retransmit_count_setting := count, retransmit_delay_setting := delay\<rparr>" "r' = r3"
      using step tx count delay Apply_pending by (simp_all add: tunable_step_def esb_link_apply_pending_def)
    note one = apply_power_inv [OF radio i(1) _ _ tx]
    have "setting_inv (ucast (count_reg r1)) (retransmit_count_setting lp)" using one i by simp
    note two = apply_count_inv [OF radio this i(4) count]
    have "setting_inv (ucast (delay_reg r2)) (retransmit_delay_setting lp)" using one two i by simp
    note three = apply_delay_inv [OF radio this _ delay]
    show ?thesis
      using one two three i Apply_pending by (simp add: out unfolded)
  next
    case (Radio_moves f)
    then have "lp' = lp" "r' = f r" using step by (simp_all add: tunable_step_def)
    then show ?thesis using moves [OF Radio_moves, of r] i Radio_moves by (simp add: unfolded)
  qed
qed

lemma tunable_run_inv:
  assumes "tunable_radio ncs busy dbm_reg count_reg delay_reg"
    and "\<forall>f r. Radio_moves f \<in> set ops \<longrightarrow>
      dbm_reg (f r) = dbm_reg r \<and> count_reg (f r) = count_reg r \<and> delay_reg (f r) = delay_reg r"
    and "tunables_inv dbm_reg count_reg delay_reg dbm retries delay_us state"
  shows "tunables_inv dbm_reg count_reg delay_reg (last_power dbm ops) (last_count retries ops) (last_delay delay_us ops)
    (fold (tunable_step ncs) ops state)"
  using assms(2,3)
proof (induction ops arbitrary: state dbm retries delay_us)
  case Nil
  then show ?case by (simp add: last_requests)
next
  case (Cons op ops)
  obtain lp r where state: "state = (lp, r)" by fastforce
  obtain lp1 r1 where step: "tunable_step ncs op (lp, r) = (lp1, r1)" by fastforce
  have "tunables_inv dbm_reg count_reg delay_reg (last_power dbm [op]) (last_count retries [op]) (last_delay delay_us [op]) (lp1, r1)"
    using tunable_step_inv [OF assms(1) Cons.prems(2) [unfolded state] _ step] Cons.prems(1) by simp
  from Cons.IH [OF _ this] Cons.prems(1) show ?case
    by (simp add: state step last_requests)
qed

text \<open>
  Claim C29: whatever requests come while the radio is busy, out of range ones among them, the
  radio always holds the values the code believes applied; the last request in range of each
  tunable is the one kept; and once a tunable is not pending, as each is after
  \<open>esb_link_apply_pending\<close> on a radio that is idle, the radio holds that last value itself, not
  a truncation of it.
\<close>

theorem radio_setting_latest_wins:
  assumes "tunable_radio ncs busy dbm_reg count_reg delay_reg"
    and "\<forall>f r. Radio_moves f \<in> set ops \<longrightarrow>
      dbm_reg (f r) = dbm_reg r \<and> count_reg (f r) = count_reg r \<and> delay_reg (f r) = delay_reg r"
    and "dbm_reg r0 = dbm" "count_reg r0 = ucast (retries :: u8)" "delay_reg r0 = delay_us"
    and "fold (tunable_step ncs) ops (link_peripheral_boot dbm (ucast retries) delay_us, r0) = (lp, r)"
  shows "scast (dbm_reg r) = applied (tx_power_setting lp) \<and> ucast (count_reg r) = applied (retransmit_count_setting lp) \<and>
    ucast (delay_reg r) = applied (retransmit_delay_setting lp) \<and>
    requested (tx_power_setting lp) = last_power (scast dbm) ops \<and>
    requested (retransmit_count_setting lp) = ucast (last_count retries ops) \<and>
    requested (retransmit_delay_setting lp) = last_delay (ucast delay_us) ops \<and>
    (\<not> pending_flag (tx_power_setting lp) \<longrightarrow> sint (dbm_reg r) = sint (last_power (scast dbm) ops)) \<and>
    (\<not> pending_flag (retransmit_count_setting lp) \<longrightarrow> unat (count_reg r) = unat (last_count retries ops)) \<and>
    (\<not> pending_flag (retransmit_delay_setting lp) \<longrightarrow> unat (delay_reg r) = unat (last_delay (ucast delay_us) ops)) \<and>
    (ops \<noteq> [] \<and> last ops = Apply_pending \<and> \<not> busy r \<longrightarrow> \<not> pending_flag (tx_power_setting lp) \<and>
      \<not> pending_flag (retransmit_count_setting lp) \<and> \<not> pending_flag (retransmit_delay_setting lp))"

proof -
  have "tunables_inv dbm_reg count_reg delay_reg (scast dbm) retries (ucast delay_us)
      (link_peripheral_boot dbm (ucast retries) delay_us, r0)"
  proof -
    have "(ucast (ucast retries :: u16) :: i32) = ucast retries"
      by (rule bit_word_eqI) (auto simp: bit_simps dest: bit_imp_le_length)
    moreover have "- 128 \<le> sint dbm" "sint dbm \<le> 127"
      using sint_ge [of dbm] sint_lt [of dbm] by simp_all
    moreover have "(ucast delay_us :: u32) \<le> 65535"
      using unsigned_less [of delay_us, where ?'a = nat] by (simp add: word_le_nat_alt unsigned_ucast_eq take_bit_nat_eq_self)
    ultimately show ?thesis
      using assms(3-5) by (simp add: tunables_inv_def setting_inv_def link_peripheral_boot_def setting_boot_def sint_up_scast is_up)
  qed
  note inv = tunable_run_inv [OF assms(1) _ this]
  have final: "tunables_inv dbm_reg count_reg delay_reg (last_power (scast dbm) ops) (last_count retries ops)
      (last_delay (ucast delay_us) ops) (lp, r)"
    using inv [OF assms(2)] by (simp add: assms(6))
  have applied: "\<not> pending_flag (tx_power_setting lp) \<and>
      \<not> pending_flag (retransmit_count_setting lp) \<and> \<not> pending_flag (retransmit_delay_setting lp)"
    if last_op: "ops \<noteq> []" "last ops = Apply_pending" "\<not> busy r"
  proof -
    define before where "before = butlast ops"
    have ops: "ops = before @ [Apply_pending]" using last_op by (simp add: before_def) (metis append_butlast_last_id)
    obtain lp1 r1 where state: "fold (tunable_step ncs) before (link_peripheral_boot dbm (ucast retries) delay_us, r0) = (lp1, r1)"
      by fastforce
    have "tunables_inv dbm_reg count_reg delay_reg (last_power (scast dbm) before) (last_count retries before)
        (last_delay (ucast delay_us) before) (lp1, r1)"
      using inv [of before] assms(2) by (simp add: ops state)
    from tunable_step_inv [OF assms(1) this, of Apply_pending lp r] show ?thesis
      using assms(6) last_op(3) by (simp add: ops state)
  qed
  have exact: "sint (dbm_reg r) = sint (last_power (scast dbm) ops)" if "scast (dbm_reg r) = last_power (scast dbm) ops"
    using that [symmetric] by (simp add: sint_up_scast is_up)
  have exact_unat: "unat (count_reg r) = unat (last_count retries ops)"
    if "(ucast (count_reg r) :: i32) = ucast (last_count retries ops)"
    using arg_cong [OF that, of unat] by (simp add: unsigned_ucast_eq take_bit_nat_eq_self less_le_trans [OF unsigned_less])
  have exact_delay: "unat (delay_reg r) = unat (last_delay (ucast delay_us) ops)"
    if "ucast (delay_reg r) = last_delay (ucast delay_us) ops"
    using that [symmetric] by (simp add: unsigned_ucast_eq take_bit_nat_eq_self less_le_trans [OF unsigned_less])
  show ?thesis
    using final applied exact exact_unat exact_delay by (auto simp: tunables_inv_def setting_inv_def)
qed

text \<open>A radio of a busy mark and three registers: two requests while it is busy, one of them out
  of range, and the pending one applied when it is idle.\<close>

definition register_ncs :: "(bool \<times> i8 \<times> u16 \<times> u16) ncs" where
  "register_ncs = \<lparr>esb_write_payload = (\<lambda>payload r. (r, Ok)), esb_flush_tx = (\<lambda>r. r), esb_start_tx = (\<lambda>r. r),
     esb_set_tx_power = (\<lambda>val (busy, dbm, count, delay). ((busy, if busy then dbm else val, count, delay), if busy then Err EBUSY else Ok)),
     esb_set_retransmit_count = (\<lambda>val (busy, dbm, count, delay). ((busy, dbm, if busy then count else val, delay), if busy then Err EBUSY else Ok)),
     esb_set_retransmit_delay = (\<lambda>val (busy, dbm, count, delay). ((busy, dbm, count, if busy then delay else val), if busy then Err EBUSY else Ok)),
     esb_is_idle = (\<lambda>(busy, rest). \<not> busy), hfclk_answer = (\<lambda>_. Ok)\<rparr>"

definition tunables_example :: "(bool \<times> i8 \<times> u16 \<times> u16) tunable_op list" where
  "tunables_example = [Set_power 4, Set_power (- 8), Set_power 300, Radio_moves (\<lambda>(busy, rest). (False, rest)), Apply_pending]"

theorem radio_setting_latest_wins_witness:
  "sint (fst (snd (snd (fold (tunable_step register_ncs) tunables_example
     (link_peripheral_boot 0 (ucast (3 :: u8)) 600, (True, 0, 3, 600)))))) = - 8"
proof -
  obtain lp r where run: "fold (tunable_step register_ncs) tunables_example
     (link_peripheral_boot 0 (ucast (3 :: u8)) 600, (True, 0, 3, 600)) = (lp, r)"
    by (metis surj_pair)
  have "\<not> fst r" using arg_cong [OF run, of "fst \<circ> snd"]
    by (simp add: tunables_example_def tunable_step_def esb_link_set_tx_power_def request_setting_def apply_setting_def
        apply_tx_power_def register_ncs_def esb_link_apply_pending_def apply_retransmit_count_def apply_retransmit_delay_def
        link_peripheral_boot_def setting_boot_def split_beta Let_def)
  moreover have "tunable_radio register_ncs fst (fst \<circ> snd) (fst \<circ> snd \<circ> snd) (snd \<circ> snd \<circ> snd)"
    by (auto simp: tunable_radio_def register_ncs_def split: prod.splits)
  moreover have "\<forall>f r. Radio_moves f \<in> set tunables_example \<longrightarrow> (fst \<circ> snd) (f r) = (fst \<circ> snd) r \<and>
      (fst \<circ> snd \<circ> snd) (f r) = (fst \<circ> snd \<circ> snd) r \<and> (snd \<circ> snd \<circ> snd) (f r) = (snd \<circ> snd \<circ> snd) r"
    by (auto simp: tunables_example_def split: prod.splits)
  moreover have "tunables_example \<noteq> [] \<and> last tunables_example = Apply_pending"
    by (simp add: tunables_example_def)
  moreover have "(fst \<circ> snd) (True, 0 :: i8, 3 :: u16, 600 :: u16) = 0" "(fst \<circ> snd \<circ> snd) (True, 0 :: i8, 3 :: u16, 600 :: u16) = ucast (3 :: u8)"
    "(snd \<circ> snd \<circ> snd) (True, 0 :: i8, 3 :: u16, 600 :: u16) = 600"
    by simp_all
  ultimately have "sint ((fst \<circ> snd) r) = sint (last_power (scast (0 :: i8)) tunables_example)"
    using radio_setting_latest_wins [OF _ _ _ _ _ run, of fst "fst \<circ> snd" "fst \<circ> snd \<circ> snd" "snd \<circ> snd \<circ> snd"] by blast
  then show ?thesis
    unfolding run by (simp add: tunables_example_def last_power_def)
qed

section \<open>The crystal\<close>

datatype gate_op = Gate_idle bool | Gate_burst | Gate_release | Gate_disable | Gate_wake bool

text \<open>A send or a restart holds the crystal; a disable and the way back go through
  \<open>esb_link_set_enabled\<close>, which the sleep listener follows with the new activity.\<close>

definition gate_step :: "'r ncs \<Rightarrow> gate_op \<times> 'r \<Rightarrow> link_peripheral \<Rightarrow> link_peripheral" where
  "gate_step ncs = (\<lambda>(op, r) lp.
     (case op of
        Gate_idle idle \<Rightarrow> esb_link_set_idle ncs r idle lp
      | Gate_burst \<Rightarrow> hfclk_gate_hold ncs r lp
      | Gate_release \<Rightarrow> if hfclk_release_work lp = None then lp else hfclk_release_work_fn ncs r lp
      | Gate_disable \<Rightarrow> lp\<lparr>hfclk_on := fst (esb_link_hfclk_release (hfclk_on lp))\<rparr>
      | Gate_wake idle \<Rightarrow> esb_link_set_idle ncs r idle
          (lp\<lparr>hfclk_on := fst (esb_link_hfclk_acquire (hfclk_answer ncs r) (hfclk_on lp))\<rparr>)))"

definition gate_ok :: "link_peripheral \<Rightarrow> bool" where
  "gate_ok lp \<longleftrightarrow> (hfclk_gating lp \<and> hfclk_on lp \<longrightarrow> hfclk_release_work lp \<noteq> None)"

lemma gate_ok_step: "gate_ok lp \<Longrightarrow> gate_ok (gate_step ncs event lp)"
  by (cases event)
    (auto simp: gate_step_def gate_ok_def esb_link_set_idle_def hfclk_gate_hold_def hfclk_release_work_fn_def
      reschedule_release_def hop_policy_hfclk_release_allowed_def esb_link_hfclk_release_def
      esb_link_hfclk_acquire_def Let_def split: gate_op.splits)

text \<open>
  Claim C27: an idle peripheral never keeps the crystal for good: in every run of activity
  changes, bursts, sleeps and fired works, a crystal held while idle has its release scheduled,
  and that work, once the radio is idle, releases it. The work never stops the crystal under a
  radio that is not idle or a peripheral that is not.
\<close>

theorem hfclk_never_stuck:
  assumes "lp' = fold (gate_step ncs) events (link_peripheral_boot dbm count delay_us)"
  shows "(hfclk_gating lp' \<and> hfclk_on lp' \<longrightarrow>
      hfclk_release_work lp' \<noteq> None \<and>
      (esb_is_idle ncs r \<longrightarrow> \<not> hfclk_on (gate_step ncs (Gate_release, r) lp'))) \<and>
    (hfclk_on lp' \<and> \<not> hfclk_on (gate_step ncs (Gate_release, r) lp') \<longrightarrow> hfclk_gating lp' \<and> esb_is_idle ncs r)"
proof -
  have "gate_ok lp \<Longrightarrow> gate_ok (fold (gate_step ncs) events lp)" for lp
    by (induction events arbitrary: lp) (simp_all add: gate_ok_step)
  then have "gate_ok lp'"
    by (simp add: assms gate_ok_def link_peripheral_boot_def)
  then show ?thesis
    by (auto simp: gate_ok_def gate_step_def hfclk_release_work_fn_def hop_policy_hfclk_release_allowed_def
        esb_link_hfclk_release_def reschedule_release_def Let_def)
qed

text \<open>A radio with a FIFO of three packets.\<close>

definition fifo_ncs :: "(tx_payload list) ncs" where
  "fifo_ncs = \<lparr>esb_write_payload = (\<lambda>payload fifo. if length fifo \<ge> 3 then (fifo, Err ENOMEM) else (fifo @ [payload], Ok)),
     esb_flush_tx = (\<lambda>_. []), esb_start_tx = (\<lambda>fifo. fifo), esb_set_tx_power = (\<lambda>_ fifo. (fifo, Ok)),
     esb_set_retransmit_count = (\<lambda>_ fifo. (fifo, Ok)), esb_set_retransmit_delay = (\<lambda>_ fifo. (fifo, Ok)),
     esb_is_idle = (\<lambda>fifo. fifo = []), hfclk_answer = (\<lambda>_. Ok)\<rparr>"

theorem hfclk_never_stuck_witness:
  "\<not> hfclk_on (gate_step fifo_ncs (Gate_release, [])
     (fold (gate_step fifo_ncs) [(Gate_idle True, []), (Gate_burst, [])] (link_peripheral_boot 8 3 600)))"
  using hfclk_never_stuck [OF refl, of fifo_ncs "[(Gate_idle True, []), (Gate_burst, [])]" 8 3 600 "[]"]
  by (auto simp: fifo_ncs_def gate_step_def esb_link_set_idle_def reschedule_release_def hfclk_gate_hold_def
      esb_link_hfclk_acquire_def Let_def)

section \<open>A stalled engine\<close>

text \<open>
  Claim C28: the send path flushes the radio's FIFO only when it is full and no transmit event
  came for longer than four times the worst retry cycle of the values the radio holds (and the
  floor), and then the packet goes in, written to the flushed FIFO, and the stall clock starts
  again. In every other case the radio is left and the answer is that of the one write, and the
  clock is untouched: a merely busy engine loses nothing.
\<close>

theorem submit_recovers_stall:
  assumes "submit_payload ncs now_ms payload lp r = (lp', r', error)"
    and "\<And>r. snd (esb_write_payload ncs payload (esb_flush_tx ncs r)) = Ok"
    and "count = ucast (applied (retransmit_count_setting lp))"
    and "delay_us = ucast (applied (retransmit_delay_setting lp))"
    and "bound = max 100 (4 * uint (count :: u8) * uint (delay_us :: u16) div 1000)"
    and "esb_write_payload ncs payload r = (r1, first)"
  shows "if first = Err ENOMEM \<and> bound < uint (now_ms - last_tx_event_ms lp)
    then r' = fst (esb_write_payload ncs payload (esb_flush_tx ncs r1)) \<and> error = Ok \<and>
      lp' = (hfclk_gate_hold ncs r lp)\<lparr>last_tx_event_ms := now_ms\<rparr>
    else r' = r1 \<and> error = first \<and> lp' = hfclk_gate_hold ncs r lp"
proof -
  obtain r2 second where f: "esb_write_payload ncs payload (esb_flush_tx ncs r1) = (r2, second)" by fastforce
  have second: "second = Ok" using assms(2) [of r1] f by simp
  have same: "retransmit_count_setting (hfclk_gate_hold ncs r lp) = retransmit_count_setting lp"
    "retransmit_delay_setting (hfclk_gate_hold ncs r lp) = retransmit_delay_setting lp"
    "last_tx_event_ms (hfclk_gate_hold ncs r lp) = last_tx_event_ms lp"
    by (simp_all add: hfclk_gate_hold_def reschedule_release_def Let_def)
  have cycle: "uint (live_retry_cycle_ms TX_STALL_MARGIN TX_STALL_FLOOR_MS (hfclk_gate_hold ncs r lp)) = bound"
    using retry_cycle_ms_exact [of count delay_us TX_STALL_MARGIN TX_STALL_FLOOR_MS]
    by (simp add: live_retry_cycle_ms_def same assms(3-5) TX_STALL_MARGIN_def TX_STALL_FLOOR_MS_def)
  have quiet: "now_ms - last_tx_event_ms lp \<le> live_retry_cycle_ms TX_STALL_MARGIN TX_STALL_FLOOR_MS (hfclk_gate_hold ncs r lp)
      \<longleftrightarrow> \<not> bound < uint (now_ms - last_tx_event_ms lp)"
    by (simp add: word_le_def cycle not_less)
  show ?thesis
    using assms(1) f second unfolding submit_payload_def Let_def assms(6) same prod.case quiet
    by (auto split: if_splits)
qed

text \<open>A full FIFO of three and 500 ms without an event: flushed, and the new packet alone in it.\<close>

theorem submit_recovers_stall_witness:
  "snd (submit_payload fifo_ncs 500 \<lparr>tx_pipe = 1, tx_noack = False, tx_data = [7]\<rparr> (link_peripheral_boot 8 3 600)
     (replicate 3 \<lparr>tx_pipe = 1, tx_noack = False, tx_data = [1]\<rparr>)) =
   ([\<lparr>tx_pipe = 1, tx_noack = False, tx_data = [7]\<rparr>], Ok)"
proof -
  define payload where "payload = \<lparr>tx_pipe = 1, tx_noack = False, tx_data = [7 :: u8]\<rparr>"
  define fifo where "fifo = replicate 3 \<lparr>tx_pipe = 1, tx_noack = False, tx_data = [1 :: u8]\<rparr>"
  obtain lp' r' error where run: "submit_payload fifo_ncs 500 payload (link_peripheral_boot 8 3 600) fifo = (lp', r', error)"
    by (metis surj_pair)
  have "snd (esb_write_payload fifo_ncs payload (esb_flush_tx fifo_ncs r)) = Ok" for r
    by (simp add: fifo_ncs_def)
  moreover have "esb_write_payload fifo_ncs payload fifo = (fifo, Err ENOMEM)"
    by (simp add: fifo_ncs_def fifo_def)
  ultimately have "r' = fst (esb_write_payload fifo_ncs payload (esb_flush_tx fifo_ncs fifo))" "error = Ok"
    using submit_recovers_stall [OF run _ refl refl refl] by (simp_all add: link_peripheral_boot_def setting_boot_def)
  then show ?thesis
    using run by (simp add: payload_def fifo_def fifo_ncs_def)
qed

section \<open>Restarts\<close>

text \<open>Whether each of \<open>n\<close> failures in a row restarts the head.\<close>

fun failures :: "nat \<Rightarrow> bool \<Rightarrow> link_peripheral \<Rightarrow> bool list" where
  "failures 0 acked lp = []"
| "failures (Suc n) acked lp =
     (let (lp, retry) = esb_link_role_retry_failed_tx acked lp in retry # failures n acked lp)"

text \<open>
  A packet whose transmits keep failing is tried three times and no more: on an acked
  link the failures restart it twice and the third flushes it, over and over, and on a link not
  acked every failure flushes.
\<close>

theorem tx_restarts_bounded:
  "failures n acked (esb_link_role_tx_succeeded lp) = map (\<lambda>k. acked \<and> k mod 3 \<noteq> 2) [0..<n]"
proof -
  have "failures n True lp = map (\<lambda>k. (j + k) mod 3 \<noteq> 2) [0..<n]" if "tx_restarts lp = j mod 3" for j lp
    using that
  proof (induction n arbitrary: j lp)
    case 0
    then show ?case by simp
  next
    case (Suc n)
    obtain lp1 retry where step: "esb_link_role_retry_failed_tx True lp = (lp1, retry)" by fastforce
    then have "retry \<longleftrightarrow> j mod 3 \<noteq> 2" "tx_restarts lp1 = Suc j mod 3"
      using Suc.prems by (auto simp: esb_link_role_retry_failed_tx_def ESB_LINK_TX_RESTARTS_MAX_def Let_def mod_Suc
          split: if_splits)
    then show ?case
      using Suc.IH [of lp1 "Suc j"] step by (simp add: upt_conv_Cons map_Suc_upt [symmetric] del: upt_Suc)
  qed
  from this [of "esb_link_role_tx_succeeded lp" 0] have acked: "failures n True (esb_link_role_tx_succeeded lp) =
      map (\<lambda>k. k mod 3 \<noteq> 2) [0..<n]"
    by (simp add: esb_link_role_tx_succeeded_def)
  have "failures n False lp = replicate n False" for lp
    by (induction n arbitrary: lp) (auto simp: esb_link_role_retry_failed_tx_def Let_def)
  then show ?thesis
    using acked by (cases acked) (simp_all add: map_replicate_const)
qed

end
