(* ===== verification/Relay_Usb.thy ===== *)
theory Relay_Usb
  imports Relay_Sink
begin

text \<open>
  The relay dongle's USB sink (\<open>src/esb_hid_relay_usb.c\<close>): one report in flight on the
  endpoint, and the host's LED report sent up to the central. What the USB stack answers is in
  the record \<open>usb_answer\<close>.
\<close>

definition HID_REPORT_TYPE_MASK :: u16 where "HID_REPORT_TYPE_MASK = 0xFF00"
definition HID_REPORT_ID_MASK :: u16 where "HID_REPORT_ID_MASK = 0x00FF"
definition HID_REPORT_TYPE_OUTPUT :: u16 where "HID_REPORT_TYPE_OUTPUT = 0x0200"
definition ESB_HOST_INDICATORS_TAG :: u8 where "ESB_HOST_INDICATORS_TAG = 0xFC"

record relay_usb =
  hid_dev :: bool
  hid_tx_sem :: bool
  host_indicators :: u8
  host_indicators_work :: bool

definition relay_usb_boot :: relay_usb where
  "relay_usb_boot = \<lparr>hid_dev = False, hid_tx_sem = True, host_indicators = 0, host_indicators_work = False\<rparr>"

text \<open>Whether the host took the report in flight within the wait, and what
  \<open>hid_int_ep_write\<close> returned.\<close>

record usb_answer =
  ready_in_wait :: bool
  ep_write :: status

definition in_ready_cb :: "relay_usb \<Rightarrow> relay_usb" where
  "in_ready_cb usb = usb\<lparr>hid_tx_sem := True\<rparr>"

definition host_indicators_work_fn :: "relay_usb \<Rightarrow> relay_usb \<times> bytes" where
  "host_indicators_work_fn usb =
     (usb\<lparr>host_indicators_work := False\<rparr>, [ESB_HOST_INDICATORS_TAG, host_indicators usb])"

definition setup_report_type :: "u16 \<Rightarrow> u16" where
  "setup_report_type wValue = wValue AND HID_REPORT_TYPE_MASK"

definition setup_report_id :: "u16 \<Rightarrow> u8" where
  "setup_report_id wValue = ucast (wValue AND HID_REPORT_ID_MASK)"

definition is_led_output_report :: "zmk_hid \<Rightarrow> u16 \<Rightarrow> bool" where
  "is_led_output_report hid wValue =
     (if setup_report_type wValue \<noteq> HID_REPORT_TYPE_OUTPUT then False else setup_report_id wValue = id_leds hid)"

text \<open>ZMK's LED report is its id and the LEDs.\<close>

definition set_report_cb :: "zmk_hid \<Rightarrow> u16 \<Rightarrow> bytes \<Rightarrow> relay_usb \<Rightarrow> relay_usb \<times> status" where
  "set_report_cb hid wValue data usb =
     (if \<not> is_led_output_report hid wValue then (usb, Err ENOTSUP)
      else if length data \<noteq> 2 then (usb, Err EINVAL)
      else (usb\<lparr>host_indicators := data ! 1, host_indicators_work := True\<rparr>, Ok))"

text \<open>The report handed to the endpoint, when it was accepted there, is the third result. A wait
  that ends with the semaphore given takes it; a skippable report does not wait.\<close>

definition relay_to_usb :: "usb_answer \<Rightarrow> bytes \<Rightarrow> bool \<Rightarrow> relay_usb \<Rightarrow> relay_usb \<times> status \<times> bytes option" where
  "relay_to_usb answer report skippable usb =
     (if \<not> hid_dev usb then (usb, Err ENODEV, None)
      else if \<not> (hid_tx_sem usb \<or> (\<not> skippable \<and> ready_in_wait answer)) then (usb, Err EBUSY, None)
      else
        let usb = usb\<lparr>hid_tx_sem := False\<rparr>
        in if ep_write answer \<noteq> Ok then (usb\<lparr>hid_tx_sem := True\<rparr>, ep_write answer, None)
           else (usb, Ok, Some report))"

definition hid_relay_usb_init :: "bool \<Rightarrow> relay_usb \<Rightarrow> relay_usb \<times> status" where
  "hid_relay_usb_init device_found usb =
     (let usb = usb\<lparr>hid_dev := device_found\<rparr> in (usb, if \<not> device_found then Err ENODEV else Ok))"

section \<open>One report in flight\<close>

text \<open>The endpoint as the stack documents it: a report accepted is in flight until the host took
  it, and then the ready callback runs; so it runs only with a report in flight, and a wait is
  over early only through it.\<close>

datatype usb_op = Deliver usb_answer bytes bool | Host_took

record usb_run =
  run_usb :: relay_usb
  in_flight :: "bytes list"
  host_got :: "bytes list"
  sink_took :: "bytes list"

definition usb_run_boot :: usb_run where
  "usb_run_boot = \<lparr>run_usb = fst (hid_relay_usb_init True relay_usb_boot), in_flight = [], host_got = [], sink_took = []\<rparr>"

definition usb_step :: "usb_op \<Rightarrow> usb_run \<Rightarrow> usb_run" where
  "usb_step op r =
     (case op of
        Deliver answer report skippable \<Rightarrow>
          let waited = (hid_dev (run_usb r) \<and> \<not> hid_tx_sem (run_usb r) \<and> \<not> skippable \<and> ready_in_wait answer);
              r = (if waited then r\<lparr>host_got := host_got r @ in_flight r, in_flight := []\<rparr> else r);
              (usb, error, written) = relay_to_usb answer report skippable (run_usb r)
          in r\<lparr>run_usb := usb, in_flight := in_flight r @ (case written of None \<Rightarrow> [] | Some report \<Rightarrow> [report]),
               sink_took := sink_took r @ (if error = Ok then [report] else [])\<rparr>
      | Host_took \<Rightarrow>
          if in_flight r = [] then r
          else r\<lparr>run_usb := in_ready_cb (run_usb r), host_got := host_got r @ in_flight r, in_flight := []\<rparr>)"

definition usb_ok :: "usb_run \<Rightarrow> bool" where
  "usb_ok r \<longleftrightarrow> length (in_flight r) \<le> 1 \<and> (hid_tx_sem (run_usb r) \<longleftrightarrow> in_flight r = []) \<and>
     host_got r @ in_flight r = sink_took r"

lemma usb_ok_step: "usb_ok r \<Longrightarrow> usb_ok (usb_step op r)"
  by (cases op) (auto simp: usb_step_def usb_ok_def relay_to_usb_def in_ready_cb_def Let_def split: if_splits)

text \<open>
  Claim C40: the endpoint holds at most one report at a time, its semaphore is free exactly when
  it holds none (so a failed write gives it back), and the host gets exactly the reports the
  sink accepted, in that order, the last one possibly still in flight.
\<close>

theorem usb_one_in_flight:
  assumes "r = fold usb_step ops usb_run_boot"
  shows "length (in_flight r) \<le> 1 \<and> hid_tx_sem (run_usb r) = (in_flight r = []) \<and>
    host_got r @ in_flight r = sink_took r"
proof -
  have "usb_ok r \<Longrightarrow> usb_ok (fold usb_step ops r)" for r
    by (induction ops arbitrary: r) (simp_all add: usb_ok_step)
  moreover have "usb_ok usb_run_boot"
    by (simp add: usb_ok_def usb_run_boot_def hid_relay_usb_init_def relay_usb_boot_def)
  ultimately show ?thesis
    by (simp add: assms usb_ok_def)
qed

theorem usb_one_in_flight_witness:
  "host_got (fold usb_step [Deliver \<lparr>ready_in_wait = False, ep_write = Err EIO\<rparr> [1] False,
     Deliver \<lparr>ready_in_wait = False, ep_write = Ok\<rparr> [2] False, Host_took] usb_run_boot) = [[2]]"
  using usb_one_in_flight [OF refl, of "[Deliver \<lparr>ready_in_wait = False, ep_write = Err EIO\<rparr> [1] False,
     Deliver \<lparr>ready_in_wait = False, ep_write = Ok\<rparr> [2] False, Host_took]"]
  by (simp add: usb_step_def relay_to_usb_def in_ready_cb_def hid_relay_usb_init_def relay_usb_boot_def usb_run_boot_def)

text \<open>The sink the dongle registers.\<close>

definition relay_usb_sink :: "usb_answer \<Rightarrow> relay_usb sink" where
  "relay_usb_sink answer usb report skippable =
     (let (usb, error, _) = relay_to_usb answer report skippable usb in (usb, error))"

end
