(* ===== verification/Esb_Stats.thy ===== *)
theory Esb_Stats
  imports Prelude
begin

text \<open>
  The link counters (\<open>src/esb_stats.c\<close>), compiled in at debug level only: counts logged and
  cleared once a second, and the mirror of the radio's FIFO occupancy. The other theories model
  the build without them, where every one of these functions is empty.
\<close>

datatype esb_stat = ESB_STAT_SENT | ESB_STAT_SEND_REFUSED | ESB_STAT_NOACK_SENT | ESB_STAT_TX_OK
  | ESB_STAT_TX_RETRIES | ESB_STAT_TX_FAILED | ESB_STAT_TX_FLUSHED | ESB_STAT_RELAY_POLLS
  | ESB_STAT_RELAY_NEW_MOTION | ESB_STAT_RELAY_USB_TOOK | ESB_STAT_RELAY_USB_REFUSED
  | ESB_STAT_REPLY_WRITTEN | ESB_STAT_REPLY_REFUSED | ESB_STAT_RX_PEAK | ESB_STAT_RX_FULL
  | ESB_STAT_RX_RING_DROPPED | ESB_STAT_TX_PEAK

record stats_config =
  role_central :: bool
  hid_relay :: bool
  pipe_count :: nat

record esb_stats =
  counts :: "esb_stat \<Rightarrow> u32"
  tx_queued :: i32
  received_counts :: "u32 list"
  data_counts :: "u32 list"
  replies_queued :: "u8 list"
  reply_offered :: "bool list"

definition esb_stats_boot :: "stats_config \<Rightarrow> esb_stats" where
  "esb_stats_boot cfg = \<lparr>counts = (\<lambda>_. 0), tx_queued = 0, received_counts = replicate (pipe_count cfg) 0,
     data_counts = replicate (pipe_count cfg) 0, replies_queued = replicate (pipe_count cfg) 0,
     reply_offered = replicate (pipe_count cfg) False\<rparr>"

definition esb_stat_add :: "esb_stat \<Rightarrow> u32 \<Rightarrow> esb_stats \<Rightarrow> esb_stats" where
  "esb_stat_add stat amount st = st\<lparr>counts := (counts st)(stat := counts st stat + amount)\<rparr>"

text \<open>The compare-and-swap loop keeps the larger of the two.\<close>

definition esb_stat_peak :: "esb_stat \<Rightarrow> u32 \<Rightarrow> esb_stats \<Rightarrow> esb_stats" where
  "esb_stat_peak stat val st = (if counts st stat < val then st\<lparr>counts := (counts st)(stat := val)\<rparr> else st)"

definition esb_stat_note_rx :: "stats_config \<Rightarrow> nat \<Rightarrow> bool \<Rightarrow> esb_stats \<Rightarrow> esb_stats" where
  "esb_stat_note_rx cfg pipe data st =
     (if pipe \<ge> pipe_count cfg then st
      else
        let st = st\<lparr>received_counts := (received_counts st)[pipe := received_counts st ! pipe + 1]\<rparr>
        in if data then st\<lparr>data_counts := (data_counts st)[pipe := data_counts st ! pipe + 1]\<rparr> else st)"

definition esb_stat_tx_queued :: "esb_stats \<Rightarrow> esb_stats" where
  "esb_stat_tx_queued st =
     (let queued = tx_queued st + 1 in esb_stat_peak ESB_STAT_TX_PEAK queued (st\<lparr>tx_queued := queued\<rparr>))"

text \<open>\<open>atomic_dec(&tx_queued) <= 0\<close> and the set to 0 after it.\<close>

definition tx_queued_dec :: "esb_stats \<Rightarrow> esb_stats" where
  "tx_queued_dec st = (if sint (tx_queued st) \<le> 0 then st\<lparr>tx_queued := 0\<rparr> else st\<lparr>tx_queued := tx_queued st - 1\<rparr>)"

definition esb_stat_tx_done :: "stats_config \<Rightarrow> bool \<Rightarrow> esb_stats \<Rightarrow> esb_stats" where
  "esb_stat_tx_done cfg radio_idle st =
     (if role_central cfg then st
      else if radio_idle then st\<lparr>tx_queued := 0\<rparr>
      else tx_queued_dec st)"

definition esb_stat_tx_cleared :: "stats_config \<Rightarrow> esb_stats \<Rightarrow> esb_stats" where
  "esb_stat_tx_cleared cfg st = st\<lparr>tx_queued := 0, replies_queued := map (\<lambda>_. 0) (replies_queued st),
     reply_offered := map (\<lambda>_. False) (reply_offered st)\<rparr>"

definition esb_stat_reply_written :: "stats_config \<Rightarrow> nat \<Rightarrow> esb_stats \<Rightarrow> esb_stats" where
  "esb_stat_reply_written cfg pipe st =
     (if pipe \<ge> pipe_count cfg then st
      else esb_stat_tx_queued (st\<lparr>replies_queued := (replies_queued st)[pipe := replies_queued st ! pipe + 1]\<rparr>))"

definition esb_stat_reply_asked :: "stats_config \<Rightarrow> nat \<Rightarrow> esb_stats \<Rightarrow> esb_stats" where
  "esb_stat_reply_asked cfg pipe st =
     (if \<not> role_central cfg \<or> pipe \<ge> pipe_count cfg then st
      else
        let st = (if reply_offered st ! pipe \<and> replies_queued st ! pipe > 0
                  then tx_queued_dec (st\<lparr>replies_queued := (replies_queued st)[pipe := replies_queued st ! pipe - 1]\<rparr>)
                  else st)
        in st\<lparr>reply_offered := (reply_offered st)[pipe := replies_queued st ! pipe > 0]\<rparr>)"

section \<open>The log\<close>

definition take_count :: "esb_stat \<Rightarrow> esb_stats \<Rightarrow> esb_stats \<times> u32" where
  "take_count stat st = (st\<lparr>counts := (counts st)(stat := 0)\<rparr>, counts st stat)"

text \<open>The counts of a line, taken in order.\<close>

fun take_counts :: "esb_stat list \<Rightarrow> esb_stats \<Rightarrow> esb_stats \<times> (esb_stat \<times> u32) list" where
  "take_counts [] st = (st, [])"
| "take_counts (stat # stats) st =
     (let (st, taken) = take_count stat st; (st, rest) = take_counts stats st in (st, (stat, taken) # rest))"

definition log_queues :: "esb_stats \<Rightarrow> esb_stats \<times> (esb_stat \<times> u32) list" where
  "log_queues = take_counts [ESB_STAT_RX_PEAK, ESB_STAT_RX_FULL, ESB_STAT_RX_RING_DROPPED, ESB_STAT_TX_PEAK]"

definition log_central :: "stats_config \<Rightarrow> esb_stats \<Rightarrow> esb_stats \<times> (esb_stat \<times> u32) list" where
  "log_central cfg st =
     take_counts [ESB_STAT_REPLY_WRITTEN, ESB_STAT_REPLY_REFUSED]
       (st\<lparr>received_counts := map (\<lambda>_. 0) (received_counts st), data_counts := map (\<lambda>_. 0) (data_counts st)\<rparr>)"

definition log_peripheral :: "esb_stats \<Rightarrow> esb_stats \<times> (esb_stat \<times> u32) list" where
  "log_peripheral = take_counts [ESB_STAT_SENT, ESB_STAT_SEND_REFUSED, ESB_STAT_NOACK_SENT, ESB_STAT_TX_OK,
     ESB_STAT_TX_RETRIES, ESB_STAT_TX_FAILED, ESB_STAT_TX_FLUSHED]"

definition log_relay :: "esb_stats \<Rightarrow> esb_stats \<times> (esb_stat \<times> u32) list" where
  "log_relay = take_counts [ESB_STAT_RELAY_POLLS, ESB_STAT_RELAY_NEW_MOTION, ESB_STAT_RELAY_USB_TOOK,
     ESB_STAT_RELAY_USB_REFUSED]"

definition stats_work_fn :: "stats_config \<Rightarrow> esb_stats \<Rightarrow> esb_stats \<times> (esb_stat \<times> u32) list" where
  "stats_work_fn cfg st =
     (let (st, queues) = log_queues st;
          (st, role_counts) = (if role_central cfg then log_central cfg st else log_peripheral st);
          (st, relay) = (if hid_relay cfg \<and> \<not> role_central cfg then log_relay st else (st, []))
      in (st, queues @ role_counts @ relay))"

text \<open>The delay of the first line; \<open>period_ms\<close> is \<open>STATS_PERIOD_MS\<close>.\<close>

definition stats_init :: "nat \<Rightarrow> nat \<times> status" where
  "stats_init period_ms = (period_ms, Ok)"

text \<open>The peripheral's count of a send and of its result.\<close>

definition note_send :: "status \<Rightarrow> esb_stats \<Rightarrow> esb_stats \<times> status" where
  "note_send error st =
     (if error \<noteq> Ok then (esb_stat_add ESB_STAT_SEND_REFUSED 1 st, error)
      else (esb_stat_tx_queued (esb_stat_add ESB_STAT_SENT 1 st), error))"

section \<open>The mirror of the ACK FIFO\<close>

datatype mirror_op = Reply_written nat | Reply_asked nat | Tx_done bool | Tx_cleared

definition mirror_step :: "stats_config \<Rightarrow> mirror_op \<Rightarrow> esb_stats \<Rightarrow> esb_stats" where
  "mirror_step cfg op st =
     (case op of
        Reply_written pipe \<Rightarrow> esb_stat_reply_written cfg pipe st
      | Reply_asked pipe \<Rightarrow> esb_stat_reply_asked cfg pipe st
      | Tx_done radio_idle \<Rightarrow> esb_stat_tx_done cfg radio_idle st
      | Tx_cleared \<Rightarrow> esb_stat_tx_cleared cfg st)"

definition queued_total :: "esb_stats \<Rightarrow> nat" where
  "queued_total st = sum_list (map unat (replies_queued st))"

definition mirror_ok :: "stats_config \<Rightarrow> esb_stats \<Rightarrow> bool" where
  "mirror_ok cfg st \<longleftrightarrow> length (replies_queued st) = pipe_count cfg \<and> length (reply_offered st) = pipe_count cfg \<and>
     tx_queued st = of_nat (queued_total st)"

text \<open>Every write finds room: no pipe holds 255 replies, the radio's FIFO far fewer.\<close>

fun fifo_bounded :: "stats_config \<Rightarrow> mirror_op list \<Rightarrow> esb_stats \<Rightarrow> bool" where
  "fifo_bounded cfg [] st = True"
| "fifo_bounded cfg (op # ops) st =
     ((\<forall>pipe < pipe_count cfg. replies_queued st ! pipe < 255) \<and> fifo_bounded cfg ops (mirror_step cfg op st))"

lemma esb_stat_tx_queued_fields [simp]:
  "tx_queued (esb_stat_tx_queued st) = tx_queued st + 1"
  "replies_queued (esb_stat_tx_queued st) = replies_queued st"
  "reply_offered (esb_stat_tx_queued st) = reply_offered st"
  by (simp_all add: esb_stat_tx_queued_def esb_stat_peak_def Let_def)

lemma sum_list_update_nat:
  "i < length xs \<Longrightarrow> sum_list (map f (xs[i := x])) + f (xs ! i) = sum_list (map f xs) + (f x :: nat)"
  by (induction xs arbitrary: i) (auto split: nat.splits simp: nth_Cons)

lemma queued_bound:
  assumes "length (replies_queued st) \<le> 8"
  shows "queued_total st \<le> 2040"
proof -
  have "sum_list (map unat xs) \<le> length xs * 255" for xs :: "u8 list"
    by (induction xs) (auto intro: add_mono)
  from this [of "replies_queued st"] assms show ?thesis
    unfolding queued_total_def by linarith
qed

lemma queued_total_set:
  assumes "pipe < length (replies_queued st)"
  shows "queued_total (st\<lparr>replies_queued := (replies_queued st)[pipe := n]\<rparr>) + unat (replies_queued st ! pipe) =
    queued_total st + unat n"
  using sum_list_update_nat [OF assms, of unat n] by (simp add: queued_total_def)

lemma mirror_ok_written:
  assumes "mirror_ok cfg st" and "pipe < pipe_count cfg" and "replies_queued st ! pipe < 255"
  shows "mirror_ok cfg (esb_stat_reply_written cfg pipe st)"
proof -
  have "unat (replies_queued st ! pipe + 1) = unat (replies_queued st ! pipe) + 1"
    using assms(3) by (simp add: unat_word_ariths word_less_nat_alt)
  then have "queued_total (st\<lparr>replies_queued := (replies_queued st)[pipe := replies_queued st ! pipe + 1]\<rparr>) = queued_total st + 1"
    using queued_total_set [of pipe st "replies_queued st ! pipe + 1"] assms(1,2) by (simp add: mirror_ok_def)
  then show ?thesis
    using assms by (simp add: mirror_ok_def esb_stat_reply_written_def queued_total_def)
qed

lemma mirror_ok_asked:
  assumes "mirror_ok cfg st" and "pipe_count cfg \<le> 8"
  shows "mirror_ok cfg (esb_stat_reply_asked cfg pipe st)"
proof (cases "role_central cfg \<and> pipe < pipe_count cfg \<and> reply_offered st ! pipe \<and> replies_queued st ! pipe > 0")
  case False
  then show ?thesis
    using assms by (auto simp: esb_stat_reply_asked_def mirror_ok_def queued_total_def Let_def)
next
  case True
  define st1 where "st1 = st\<lparr>replies_queued := (replies_queued st)[pipe := replies_queued st ! pipe - 1]\<rparr>"
  have pos: "0 < unat (replies_queued st ! pipe)"
    using True by (simp add: word_less_nat_alt)
  have "unat (replies_queued st ! pipe - 1) + 1 = unat (replies_queued st ! pipe)"
    using pos by (subst unat_sub) (simp_all add: word_le_nat_alt)
  then have total1: "queued_total st1 + 1 = queued_total st"
    using queued_total_set [of pipe st "replies_queued st ! pipe - 1"] assms(1) True
    by (simp add: mirror_ok_def st1_def)
  have small: "queued_total st \<le> 2040"
    using queued_bound [of st] assms by (simp add: mirror_ok_def)
  then have "sint (of_nat (queued_total st) :: i32) = int (queued_total st)"
    by (simp add: signed_of_nat signed_take_bit_int_eq_self)
  then have "sint (tx_queued st) = int (queued_total st)"
    using assms(1) by (simp add: mirror_ok_def)
  moreover have "tx_queued st - 1 = of_nat (queued_total st1)"
    using assms(1) total1 by (simp add: mirror_ok_def flip: total1)
  ultimately have "tx_queued (tx_queued_dec st1) = of_nat (queued_total st1)"
    using total1 by (simp add: tx_queued_dec_def st1_def)
  moreover have "replies_queued (tx_queued_dec st1) = replies_queued st1" "reply_offered (tx_queued_dec st1) = reply_offered st"
    by (simp_all add: tx_queued_dec_def st1_def)
  ultimately show ?thesis
    using assms(1) True
    by (simp add: esb_stat_reply_asked_def mirror_ok_def queued_total_def st1_def [symmetric] Let_def)
      (simp add: st1_def)
qed

lemma mirror_ok_step:
  assumes "mirror_ok cfg st" and "pipe_count cfg \<le> 8" "role_central cfg"
    and "\<forall>pipe < pipe_count cfg. replies_queued st ! pipe < 255"
  shows "mirror_ok cfg (mirror_step cfg op st)"
proof (cases op)
  case (Reply_written pipe)
  then show ?thesis
    using mirror_ok_written [OF assms(1)] assms
    by (cases "pipe < pipe_count cfg") (auto simp: mirror_step_def esb_stat_reply_written_def)
next
  case (Reply_asked pipe)
  then show ?thesis using mirror_ok_asked [OF assms(1,2)] by (simp add: mirror_step_def)
next
  case (Tx_done radio_idle)
  then show ?thesis using assms by (simp add: mirror_step_def esb_stat_tx_done_def)
next
  case Tx_cleared
  have "sum_list (map unat (map (\<lambda>_. 0 :: u8) (replies_queued st))) = 0"
    by (simp add: map_replicate_const sum_list_replicate)
  then show ?thesis
    using Tx_cleared assms by (simp add: mirror_step_def esb_stat_tx_cleared_def mirror_ok_def queued_total_def map_replicate_const sum_list_replicate)
qed

text \<open>
  On the central the occupancy counter the peak is taken of is at every moment the sum
  of the replies mirrored per pipe, whatever writes, polls and flushes come, so it never goes
  below zero or drifts.
\<close>

theorem stats_mirror_consistent:
  assumes "role_central cfg" "pipe_count cfg \<le> 8" and "fifo_bounded cfg ops (esb_stats_boot cfg)"
    and "st = fold (mirror_step cfg) ops (esb_stats_boot cfg)"
  shows "tx_queued st = of_nat (queued_total st) \<and> queued_total st \<le> 2040"
proof -
  have "mirror_ok cfg st0 \<Longrightarrow> fifo_bounded cfg ops st0 \<Longrightarrow> mirror_ok cfg (fold (mirror_step cfg) ops st0)" for st0
    by (induction ops arbitrary: st0) (simp_all add: mirror_ok_step assms)
  moreover have "mirror_ok cfg (esb_stats_boot cfg)"
    by (simp add: mirror_ok_def esb_stats_boot_def queued_total_def sum_list_replicate)
  ultimately have "mirror_ok cfg st" using assms by simp
  then show ?thesis
    using queued_bound [of st] assms(2) by (simp add: mirror_ok_def)
qed

definition stats_example :: stats_config where
  "stats_example = \<lparr>role_central = True, hid_relay = False, pipe_count = 2\<rparr>"

theorem stats_mirror_consistent_witness:
  "tx_queued (fold (mirror_step stats_example) [Reply_written 1, Reply_asked 1, Reply_written 1, Reply_asked 1]
     (esb_stats_boot stats_example)) = 1"
proof -
  define ops where "ops = [Reply_written 1, Reply_asked 1, Reply_written 1, Reply_asked 1]"
  define st where "st = fold (mirror_step stats_example) ops (esb_stats_boot stats_example)"
  have bounded: "fifo_bounded stats_example ops (esb_stats_boot stats_example)" and total: "queued_total st = 1"
    unfolding ops_def st_def queued_total_def by code_simp+
  have "tx_queued st = of_nat (queued_total st)"
    using stats_mirror_consistent [OF _ _ bounded st_def] by (simp add: stats_example_def)
  then show ?thesis
    using total by (simp add: st_def ops_def)
qed

end
