(* ===== verification/Wire_Transports.thy ===== *)
theory Wire_Transports
  imports Wire_Link Central Peripheral Hop_Central Link_Peripheral
begin

text \<open>
  The users of the wire link: the central's wire peer (\<open>src/wire_central.c\<close>), a peripheral
  whose transport is the wire (\<open>src/wire_peripheral.c\<close>), and the relay of a wire peer's
  frames onto its own radio pipe (\<open>src/wire_relay.c\<close>).
\<close>

section \<open>The central's wire peer\<close>

text \<open>ZMK stops a command loop at the first error, so a link that cannot transmit answers 0.\<close>

definition wire_central_send :: "crc8 \<Rightarrow> wire_config \<Rightarrow> bytes \<Rightarrow> wire_link \<Rightarrow> wire_link \<times> status" where
  "wire_central_send crc8_ccitt wcfg data link =
     (if \<not> wire_link_can_transmit wcfg then (link, Ok) else wire_link_send_event crc8_ccitt wcfg data link)"

definition wire_central_peer_is_up :: "wire_config \<Rightarrow> u32 \<Rightarrow> wire_link \<Rightarrow> bool" where
  "wire_central_peer_is_up wcfg now link = wire_link_is_up wcfg now link"

definition wire_central_on_frame ::
  "zmk_abi \<Rightarrow> central_config \<Rightarrow> hop_central_config \<Rightarrow> u32 \<Rightarrow> nat \<Rightarrow> bytes \<Rightarrow> hop_central \<Rightarrow> central \<Rightarrow>
   hop_central \<times> central \<times> zmk_call list" where
  "wire_central_on_frame abi cfg hop_cfg now peer payload hc c =
     (hop_pipe_note_seen hop_cfg now peer hc, central_ingest_packet abi cfg now peer payload c)"

definition wire_central_init :: "wire_link \<Rightarrow> wire_link" where
  "wire_central_init link = wire_link_register_rx True link"

section \<open>A wire peripheral\<close>

record wire_peripheral =
  wp_enabled :: bool
  last_wire_send_ms :: u32
  wp_link :: wire_link
  wp_core :: peripheral

text \<open>\<open>wire_idle_keepalive_ms\<close> is the devicetree's \<open>idle-keepalive-ms\<close>,
  \<open>keepalive_room\<close> the size of the keepalive's buffer, \<open>beacon_length\<close> that of a
  beacon for this peripheral list.\<close>

record wire_peripheral_config =
  wp_wire :: wire_config
  wp_peripheral :: peripheral_config
  wp_pool :: hop_pool
  wire_idle_keepalive_ms :: u32
  keepalive_room :: nat

definition wire_peripheral_report_event ::
  "zmk_abi \<Rightarrow> crc8 \<Rightarrow> wire_peripheral_config \<Rightarrow> u32 \<Rightarrow> event \<Rightarrow> wire_peripheral \<Rightarrow> wire_peripheral \<times> status" where
  "wire_peripheral_report_event abi crc8_ccitt cfg now event wp =
     (let (core, encoded) = peripheral_encode_event abi (ESB_WIRE_MAX_EVENT_SIZE abi) event (wp_core wp);
          wp = wp\<lparr>wp_core := core\<rparr>
      in case encoded of
        Inl error \<Rightarrow> (wp, Err error)
      | Inr wire \<Rightarrow>
          let (link, result) =
                (if event_type abi event = input_tag abi
                 then wire_link_send_input crc8_ccitt (wp_wire cfg) wire (wp_link wp)
                 else wire_link_send_event crc8_ccitt (wp_wire cfg) wire (wp_link wp));
              wp = wp\<lparr>wp_link := link\<rparr>
          in (if result = Ok then wp\<lparr>last_wire_send_ms := now\<rparr> else wp, result))"

definition wire_peripheral_set_enabled :: "bool \<Rightarrow> wire_peripheral \<Rightarrow> wire_peripheral" where
  "wire_peripheral_set_enabled enabled wp = wp\<lparr>wp_enabled := enabled\<rparr>"

definition wire_peripheral_connections :: "wire_peripheral_config \<Rightarrow> u32 \<Rightarrow> wire_peripheral \<Rightarrow> connections" where
  "wire_peripheral_connections cfg now wp =
     (if \<not> wire_link_can_receive (wp_wire cfg) then All_connected
      else if wire_link_is_up (wp_wire cfg) now (wp_link wp) then All_connected
      else Disconnected)"

text \<open>Available, enabled, connections.\<close>

definition wire_peripheral_get_status :: "wire_peripheral_config \<Rightarrow> u32 \<Rightarrow> wire_peripheral \<Rightarrow> bool \<times> bool \<times> connections" where
  "wire_peripheral_get_status cfg now wp = (True, wp_enabled wp, wire_peripheral_connections cfg now wp)"

definition wire_split_esb_get_status ::
  "wire_peripheral_config \<Rightarrow> u32 \<Rightarrow> wire_peripheral \<Rightarrow> zmk_split_esb_status" where
  "wire_split_esb_get_status cfg now wp =
     \<lparr>status_channel = 0, status_epoch = 0,
      status_searching = (wire_peripheral_connections cfg now wp \<noteq> All_connected),
      status_rssi_dbm = 0, status_attempts_ewma_x10 = 0,
      status_config_mismatch = peripheral_config_mismatched (wp_core wp)\<rparr>"

definition wire_peripheral_set_status_callback :: "wire_peripheral \<Rightarrow> wire_peripheral \<times> status" where
  "wire_peripheral_set_status_callback wp = (wp, Ok)"

definition wire_peripheral_consume_beacon :: "wire_peripheral_config \<Rightarrow> bytes \<Rightarrow> wire_peripheral \<Rightarrow> wire_peripheral" where
  "wire_peripheral_consume_beacon cfg payload wp =
     (if length payload \<noteq> ESB_BEACON_LENGTH (wp_pool cfg)
      then wp\<lparr>wp_core := fst (peripheral_note_config_mismatch (wp_core wp))\<rparr>
      else
        let beacon = beacon_of_bytes (wp_pool cfg) payload
        in wp\<lparr>wp_core := peripheral_hid_state_store (beacon_modifiers beacon) (beacon_indicators beacon) (wp_core wp)\<rparr>)"

definition wire_peripheral_on_frame :: "wire_peripheral_config \<Rightarrow> bytes \<Rightarrow> wire_peripheral \<Rightarrow> wire_peripheral" where
  "wire_peripheral_on_frame cfg payload wp =
     (if esb_has_beacon_tag payload (of_nat (length payload)) then wire_peripheral_consume_beacon cfg payload wp
      else wp\<lparr>wp_core := peripheral_deliver_command (wp_peripheral cfg) payload (wp_core wp)\<rparr>)"

text \<open>\<open>now\<close> is the time at the start, \<open>sent_at\<close> after the send. The delay of the
  next fire is the second result.\<close>

definition wire_peripheral_keepalive_fire ::
  "crc8 \<Rightarrow> wire_peripheral_config \<Rightarrow> u8 \<Rightarrow> u32 \<Rightarrow> u32 \<Rightarrow> wire_peripheral \<Rightarrow> wire_peripheral \<times> u32" where
  "wire_peripheral_keepalive_fire crc8_ccitt cfg state_of_charge now sent_at wp =
     (let idle_ms = now - last_wire_send_ms wp
      in if idle_ms < wire_idle_keepalive_ms cfg then (wp, wire_idle_keepalive_ms cfg - idle_ms)
         else
           let filled = peripheral_keepalive_fill (wp_peripheral cfg) state_of_charge (keepalive_room cfg)
                          ESB_KEEPALIVE_IDLE 0 [] (wp_core wp);
               wp = (if length filled = 0 then wp
                     else
                       let (link, result) = wire_link_send_keepalive crc8_ccitt (wp_wire cfg) (Some filled) (wp_link wp);
                           wp = wp\<lparr>wp_link := link\<rparr>
                       in if result = Ok then wp\<lparr>last_wire_send_ms := sent_at\<rparr> else wp)
           in (wp, wire_idle_keepalive_ms cfg))"

definition wire_peripheral_init :: "wire_peripheral_config \<Rightarrow> wire_peripheral \<Rightarrow> wire_peripheral \<times> u32" where
  "wire_peripheral_init cfg wp =
     (wp\<lparr>wp_core := peripheral_set_transport True (wp_core wp), wp_link := wire_link_register_rx True (wp_link wp)\<rparr>,
      wire_idle_keepalive_ms cfg)"

section \<open>The relay of a wire peer\<close>

definition wire_relay_owns_pipe :: "link_peripheral_config \<Rightarrow> nat \<Rightarrow> bool" where
  "wire_relay_owns_pipe cfg pipe \<longleftrightarrow> pipe = peer_pipe cfg"

definition wire_relay_forward_to_peer :: "crc8 \<Rightarrow> wire_config \<Rightarrow> bytes \<Rightarrow> wire_link \<Rightarrow> wire_link" where
  "wire_relay_forward_to_peer crc8_ccitt wcfg data link =
     (if \<not> wire_link_can_transmit wcfg then link else fst (wire_link_send_event crc8_ccitt wcfg data link))"

definition wire_relay_on_frame ::
  "'r ncs \<Rightarrow> link_peripheral_config \<Rightarrow> u32 \<Rightarrow> bytes \<Rightarrow> link_peripheral \<Rightarrow> 'r \<Rightarrow>
   (link_peripheral \<times> 'r \<times> status) \<times> send_note list" where
  "wire_relay_on_frame ncs cfg now payload lp r = esb_link_send_relay ncs cfg now payload True lp r"

definition wire_relay_init :: "wire_link \<Rightarrow> wire_link" where
  "wire_relay_init link = wire_link_register_rx True link"

end
