(* ===== verification/Hid_State.thy ===== *)
theory Hid_State
  imports Hop_Central
begin

text \<open>
  HID state to the peripherals (\<open>src/hid_state_central.c\<close>): modifiers and indicators ride a
  beacon to every pipe that does not know them yet. ZMK's values are arguments, and
  \<open>stage_error\<close> is what the call \<^const>\<open>hop_stage_beacon\<close> ends in answers.
\<close>

definition HID_STATE_PIPE_MAX :: nat where "HID_STATE_PIPE_MAX = 8"

record hid_state =
  sent_modifiers :: "u8 list"
  sent_indicators :: "u8 list"
  sent_known :: "bool list"

definition hid_state_boot :: hid_state where
  "hid_state_boot = \<lparr>sent_modifiers = replicate HID_STATE_PIPE_MAX 0, sent_indicators = replicate HID_STATE_PIPE_MAX 0,
     sent_known = replicate HID_STATE_PIPE_MAX False\<rparr>"

definition hid_state_indicators :: "bool \<Rightarrow> u8 \<Rightarrow> u8" where
  "hid_state_indicators has_indicators profile = (if has_indicators then profile else 0)"

text \<open>One pass of the loop; the call staged, with the pipe.\<close>

definition hid_state_pipe ::
  "hop_central_config \<Rightarrow> u32 \<Rightarrow> (nat \<Rightarrow> u8) \<Rightarrow> (nat \<Rightarrow> status) \<Rightarrow> hop_central \<Rightarrow> u8 \<Rightarrow> u8 \<Rightarrow> nat \<Rightarrow> hid_state \<Rightarrow>
   hid_state \<times> (nat \<times> hop_call) list" where
  "hid_state_pipe cfg now battery stage_error hc modifiers indicators pipe hs =
     (if hop_pipe_needs_rendezvous cfg now pipe hc then (hs\<lparr>sent_known := (sent_known hs)[pipe := False]\<rparr>, [])
      else if sent_known hs ! pipe \<and> sent_modifiers hs ! pipe = modifiers \<and> sent_indicators hs ! pipe = indicators
      then (hs, [])
      else
        case hop_stage_beacon cfg battery pipe modifiers indicators hc of
          Inl _ \<Rightarrow> (hs, [])
        | Inr call \<Rightarrow>
            if stage_error pipe \<noteq> Ok then (hs, [])
            else (hs\<lparr>sent_known := (sent_known hs)[pipe := True], sent_modifiers := (sent_modifiers hs)[pipe := modifiers],
                     sent_indicators := (sent_indicators hs)[pipe := indicators]\<rparr>, [(pipe, call)]))"

fun hid_state_pipes ::
  "hop_central_config \<Rightarrow> u32 \<Rightarrow> (nat \<Rightarrow> u8) \<Rightarrow> (nat \<Rightarrow> status) \<Rightarrow> hop_central \<Rightarrow> u8 \<Rightarrow> u8 \<Rightarrow> nat list \<Rightarrow> hid_state \<Rightarrow>
   hid_state \<times> (nat \<times> hop_call) list" where
  "hid_state_pipes cfg now battery stage_error hc modifiers indicators [] hs = (hs, [])"
| "hid_state_pipes cfg now battery stage_error hc modifiers indicators (pipe # pipes) hs =
     (let (hs, calls) = hid_state_pipe cfg now battery stage_error hc modifiers indicators pipe hs;
          (hs, later) = hid_state_pipes cfg now battery stage_error hc modifiers indicators pipes hs
      in (hs, calls @ later))"

definition hid_state_work_fn ::
  "hop_central_config \<Rightarrow> u32 \<Rightarrow> (nat \<Rightarrow> u8) \<Rightarrow> (nat \<Rightarrow> status) \<Rightarrow> hop_central \<Rightarrow> u8 \<Rightarrow> u8 \<Rightarrow> hid_state \<Rightarrow>
   hid_state \<times> (nat \<times> hop_call) list" where
  "hid_state_work_fn cfg now battery stage_error hc modifiers indicators hs =
     hid_state_pipes cfg now battery stage_error hc modifiers indicators
       [0..<min (PERIPHERAL_COUNT cfg) HID_STATE_PIPE_MAX] hs"

text \<open>The two listeners submit the pass; what a keymap reads is ZMK's state itself.\<close>

datatype hid_state_event = Keycode_changed | Indicators_changed | Other_event

definition hid_state_listener :: "hid_state_event \<Rightarrow> bool \<Rightarrow> bool" where
  "hid_state_listener event work_pending = (if event = Keycode_changed then True else work_pending)"

definition hid_state_indicators_listener :: "hid_state_event \<Rightarrow> bool \<Rightarrow> bool" where
  "hid_state_indicators_listener event work_pending = (if event = Indicators_changed then True else work_pending)"

definition central_hid_modifiers :: "u8 \<Rightarrow> u8" where
  "central_hid_modifiers explicit_mods = explicit_mods"

definition central_hid_indicators :: "bool \<Rightarrow> u8 \<Rightarrow> u8" where
  "central_hid_indicators has_indicators profile = hid_state_indicators has_indicators profile"

section \<open>What the pipes know\<close>

definition hid_state_ok :: "hid_state \<Rightarrow> bool" where
  "hid_state_ok hs \<longleftrightarrow> length (sent_modifiers hs) = HID_STATE_PIPE_MAX \<and>
     length (sent_indicators hs) = HID_STATE_PIPE_MAX \<and> length (sent_known hs) = HID_STATE_PIPE_MAX"

text \<open>What is kept of one pipe, and the calls staged for it.\<close>

definition kept_at :: "nat \<Rightarrow> hid_state \<Rightarrow> bool \<times> u8 \<times> u8" where
  "kept_at pipe hs = (sent_known hs ! pipe, sent_modifiers hs ! pipe, sent_indicators hs ! pipe)"

definition calls_for :: "nat \<Rightarrow> (nat \<times> hop_call) list \<Rightarrow> hop_call list" where
  "calls_for pipe calls = map snd (filter (\<lambda>entry. fst entry = pipe) calls)"

definition pipe_informed ::
  "hop_central_config \<Rightarrow> u32 \<Rightarrow> (nat \<Rightarrow> u8) \<Rightarrow> (nat \<Rightarrow> status) \<Rightarrow> hop_central \<Rightarrow> u8 \<Rightarrow> u8 \<Rightarrow> nat \<Rightarrow> hid_state \<Rightarrow> hid_state \<Rightarrow>
   hop_call list \<Rightarrow> bool" where
  "pipe_informed cfg now battery stage_error hc m i pipe hs hs' staged \<longleftrightarrow>
     (if hop_pipe_needs_rendezvous cfg now pipe hc then \<not> fst (kept_at pipe hs') \<and> staged = []
      else if kept_at pipe hs = (True, m, i) \<or> stage_error pipe \<noteq> Ok then staged = [] \<and> kept_at pipe hs' = kept_at pipe hs
      else kept_at pipe hs' = (True, m, i) \<and> (\<exists>call. hop_stage_beacon cfg battery pipe m i hc = Inr call \<and> staged = [call]))"

lemma hid_state_pipe_spec:
  assumes "hid_state_pipe cfg now battery stage_error hc m i pipe hs = (hs', calls)" and "hid_state_ok hs"
    and "pipe < PERIPHERAL_COUNT cfg" "pipe < HID_STATE_PIPE_MAX"
  shows "hid_state_ok hs' \<and> pipe_informed cfg now battery stage_error hc m i pipe hs hs' (calls_for pipe calls) \<and>
    (\<forall>other. other \<noteq> pipe \<longrightarrow> kept_at other hs' = kept_at other hs \<and> calls_for other calls = [])"
  using assms
  by (auto simp: hid_state_pipe_def hid_state_ok_def kept_at_def calls_for_def pipe_informed_def hop_stage_beacon_def
      Let_def split: if_splits sum.splits)

lemma calls_for_append [simp]: "calls_for pipe (xs @ ys) = calls_for pipe xs @ calls_for pipe ys"
  by (simp add: calls_for_def)

lemma pipe_informed_cong:
  "kept_at pipe hs = kept_at pipe hs1 \<Longrightarrow> kept_at pipe hs' = kept_at pipe hs1' \<Longrightarrow>
   pipe_informed cfg now battery stage_error hc m i pipe hs hs' staged =
   pipe_informed cfg now battery stage_error hc m i pipe hs1 hs1' staged"
  by (simp add: pipe_informed_def)

lemma hid_state_pipes_spec:
  assumes "hid_state_pipes cfg now battery stage_error hc m i pipes hs = (hs', calls)" and "hid_state_ok hs"
    and "distinct pipes" "\<forall>pipe \<in> set pipes. pipe < PERIPHERAL_COUNT cfg \<and> pipe < HID_STATE_PIPE_MAX"
  shows "(\<forall>pipe \<in> set pipes. pipe_informed cfg now battery stage_error hc m i pipe hs hs' (calls_for pipe calls)) \<and>
    (\<forall>other. other \<notin> set pipes \<longrightarrow> kept_at other hs' = kept_at other hs \<and> calls_for other calls = [])"
  using assms
proof (induction pipes arbitrary: hs calls)
  case Nil
  then show ?case by (simp add: calls_for_def)
next
  case (Cons pipe pipes)
  obtain hs1 calls1 where one: "hid_state_pipe cfg now battery stage_error hc m i pipe hs = (hs1, calls1)" by fastforce
  obtain calls2 where rest: "hid_state_pipes cfg now battery stage_error hc m i pipes hs1 = (hs', calls2)"
    "calls = calls1 @ calls2"
    using Cons.prems(1) one by (auto simp: split_beta Let_def prod_eq_iff)
  have first: "hid_state_ok hs1" "pipe_informed cfg now battery stage_error hc m i pipe hs hs1 (calls_for pipe calls1)"
    "\<And>other. other \<noteq> pipe \<Longrightarrow> kept_at other hs1 = kept_at other hs \<and> calls_for other calls1 = []"
    using hid_state_pipe_spec [OF one Cons.prems(2)] Cons.prems(4) by auto
  have later: "\<And>p. p \<in> set pipes \<Longrightarrow> pipe_informed cfg now battery stage_error hc m i p hs1 hs' (calls_for p calls2)"
    "\<And>other. other \<notin> set pipes \<Longrightarrow> kept_at other hs' = kept_at other hs1 \<and> calls_for other calls2 = []"
    using Cons.IH [OF rest(1) first(1)] Cons.prems(3,4) by auto
  have "pipe_informed cfg now battery stage_error hc m i p hs hs' (calls_for p calls)" if "p \<in> set (pipe # pipes)" for p
  proof (cases "p = pipe")
    case True
    then show ?thesis
      using first(2) later(2) [of pipe] Cons.prems(3) rest(2) pipe_informed_cong [of pipe hs hs hs' hs1] by simp
  next
    case False
    then show ?thesis
      using that first(3) [of p] later(1) [of p] rest(2) pipe_informed_cong [of p hs hs1 hs' hs'] by simp
  qed
  then show ?case
    using first(3) later(2) rest(2) by auto
qed

lemma hid_state_pipes_ok:
  "hid_state_pipes cfg now battery stage_error hc m i pipes hs = (hs', calls) \<Longrightarrow> hid_state_ok hs \<Longrightarrow> hid_state_ok hs'"
  by (induction pipes arbitrary: hs calls)
    (auto simp: hid_state_pipe_def hid_state_ok_def Let_def split: prod.splits if_splits sum.splits)

text \<open>
  After a pass over the HID state every pipe the link has not lost knows the state of
  now, unless its staging failed: exactly those that did not know it are staged one beacon
  carrying it, one that knows it is staged none, and a lost one is forgotten, so the pass after
  its return tells it again.
\<close>

lemma hid_state_informs_pipes:
  assumes "hid_state_ok hs" and "hid_state_work_fn cfg now battery stage_error hc m i hs = (hs', calls)"
    and "pipe < min (PERIPHERAL_COUNT cfg) HID_STATE_PIPE_MAX"
  shows "if hop_pipe_needs_rendezvous cfg now pipe hc then \<not> fst (kept_at pipe hs') \<and> calls_for pipe calls = []
    else if kept_at pipe hs = (True, m, i) \<or> stage_error pipe \<noteq> Ok
    then calls_for pipe calls = [] \<and> kept_at pipe hs' = kept_at pipe hs
    else kept_at pipe hs' = (True, m, i) \<and>
      (\<exists>call. hop_stage_beacon cfg battery pipe m i hc = Inr call \<and> calls_for pipe calls = [call])"
proof -
  have "pipe_informed cfg now battery stage_error hc m i pipe hs hs' (calls_for pipe calls)"
    by (rule hid_state_pipes_spec [OF assms(2) [unfolded hid_state_work_fn_def] assms(1), THEN conjunct1, THEN bspec])
      (use assms(3) in auto)
  then show ?thesis by (simp only: pipe_informed_def)
qed

end
