(* ===== verification/Survey.thy ===== *)
theory Survey
  imports Hop_Policy
begin

text \<open>
  The energy sweep at boot (\<open>src/esb_survey.c\<close>): the loudest sample of every channel over
  all passes. The radio's registers are the argument \<open>probe\<close>: for a pass and a channel
  index, the polls at which its events fire and the magnitudes it samples.
\<close>

definition SURVEY_PASSES :: nat where "SURVEY_PASSES = 4"
definition SURVEY_SAMPLES_PER_PASS :: nat where "SURVEY_SAMPLES_PER_PASS = 8"
definition SURVEY_SILENT_DBM :: i8 where "SURVEY_SILENT_DBM = 0x80"
definition SURVEY_EVENT_TIMEOUT_US :: nat where "SURVEY_EVENT_TIMEOUT_US = 200"

record probe =
  ready_event :: "nat \<Rightarrow> bool"
  rssi_end_event :: "nat \<Rightarrow> nat \<Rightarrow> bool"
  rssi_sample :: "nat \<Rightarrow> i8"

text \<open>The loop from \<open>elapsed_us\<close> on, with \<open>left\<close> polls to go.\<close>

fun wait_event_from :: "(nat \<Rightarrow> bool) \<Rightarrow> nat \<Rightarrow> nat \<Rightarrow> bool" where
  "wait_event_from event elapsed_us 0 = False"
| "wait_event_from event elapsed_us (Suc left) =
     (if event elapsed_us then True else wait_event_from event (elapsed_us + 1) left)"

definition wait_radio_event :: "(nat \<Rightarrow> bool) \<Rightarrow> bool" where
  "wait_radio_event event = wait_event_from event 0 SURVEY_EVENT_TIMEOUT_US"

text \<open>The sampling loop from \<open>sample\<close> on.\<close>

fun sample_from :: "probe \<Rightarrow> nat \<Rightarrow> nat \<Rightarrow> i8 \<Rightarrow> i8" where
  "sample_from pr sample 0 peak_dbm = peak_dbm"
| "sample_from pr sample (Suc left) peak_dbm =
     (if \<not> wait_radio_event (rssi_end_event pr sample) then peak_dbm
      else
        let dbm = hop_policy_rssi_to_dbm (rssi_sample pr sample)
        in sample_from pr (sample + 1) left (if sint dbm > sint peak_dbm then dbm else peak_dbm))"

definition sample_channel_dbm :: "probe \<Rightarrow> i8" where
  "sample_channel_dbm pr =
     (if wait_radio_event (ready_event pr) then sample_from pr 0 SURVEY_SAMPLES_PER_PASS SURVEY_SILENT_DBM
      else SURVEY_SILENT_DBM)"

definition survey_channel :: "(nat \<Rightarrow> probe) \<Rightarrow> nat \<Rightarrow> i8 list \<Rightarrow> i8 list" where
  "survey_channel probes index energy_dbm =
     (let dbm = sample_channel_dbm (probes index)
      in if sint dbm > sint (energy_dbm ! index) then energy_dbm[index := dbm] else energy_dbm)"

definition esb_survey_run :: "(nat \<Rightarrow> nat \<Rightarrow> probe) \<Rightarrow> nat \<Rightarrow> i8 list" where
  "esb_survey_run probes count =
     fold (\<lambda>pass energy_dbm. fold (survey_channel (probes pass)) [0..<count] energy_dbm) [0..<SURVEY_PASSES]
       (replicate count SURVEY_SILENT_DBM)"

section \<open>Peaks\<close>

text \<open>The samples a pass takes of a channel: those before the first that times out.\<close>

definition samples :: "probe \<Rightarrow> i8 list" where
  "samples pr = (if \<not> wait_radio_event (ready_event pr) then []
     else map (\<lambda>k. - rssi_sample pr k)
       (takeWhile (\<lambda>k. wait_radio_event (rssi_end_event pr k)) [0..<SURVEY_SAMPLES_PER_PASS]))"

definition loudest :: "i8 list \<Rightarrow> int" where
  "loudest dbms = fold max (map sint dbms) (- 128)"

lemma sint_silent [simp]: "sint SURVEY_SILENT_DBM = - 128"
  by (simp add: SURVEY_SILENT_DBM_def)

lemma sint_i8_min: "- 128 \<le> sint (x :: i8)"
  using sint_ge [of x] by simp

lemma fold_max_max: "fold max xs (max a b) = max a (fold max xs (b :: int))"
proof (induction xs arbitrary: b)
  case (Cons x xs)
  have "max x (max a b) = max a (max x b)" by (simp add: max.left_commute)
  then show ?case using Cons.IH [of "max x b"] by simp
qed simp

lemma sample_from_peak:
  "sint (sample_from pr k n peak) =
     fold max (map sint (map (\<lambda>k. - rssi_sample pr k) (takeWhile (\<lambda>k. wait_radio_event (rssi_end_event pr k)) [k..<k + n])))
       (sint peak)"
proof (induction n arbitrary: k peak)
  case 0
  then show ?case by simp
next
  case (Suc n)
  have upt: "[k..<k + Suc n] = k # [Suc k..<Suc k + n]"
    by (simp add: upt_conv_Cons del: upt_Suc)
  show ?case
    unfolding upt using Suc.IH [of "Suc k"]
    by (auto simp: hop_policy_rssi_to_dbm_def Let_def max_def)
qed

lemma sample_channel_peak: "sint (sample_channel_dbm pr) = loudest (samples pr)"
  using sample_from_peak [of pr 0 SURVEY_SAMPLES_PER_PASS SURVEY_SILENT_DBM]
  by (auto simp: sample_channel_dbm_def loudest_def samples_def)

lemma survey_pass:
  assumes "length energy = count" and "index < count"
  shows "length (fold (survey_channel probes) [0..<n] energy) = count \<and>
    sint (fold (survey_channel probes) [0..<n] energy ! index) =
      (if index < n then max (sint (energy ! index)) (loudest (samples (probes index))) else sint (energy ! index))"
proof (induction n)
  case 0
  then show ?case using assms by simp
next
  case (Suc n)
  define before where "before = fold (survey_channel probes) [0..<n] energy"
  have step: "fold (survey_channel probes) [0..<Suc n] energy = survey_channel probes n before"
    by (simp add: before_def)
  have before: "length before = count" "sint (before ! index) =
      (if index < n then max (sint (energy ! index)) (loudest (samples (probes index))) else sint (energy ! index))"
    using Suc by (simp_all add: before_def)
  show ?case
    unfolding step using before assms
    by (cases "index = n") (auto simp: survey_channel_def sample_channel_peak max_def Let_def nth_list_update)
qed

text \<open>
  The energy the sweep reports of a channel is the loudest of every sample the radio
  gave in any pass, and the silent value when it gave none; a stuck radio ends each wait after
  its bounded number of polls and costs only the samples it did not give.
\<close>

theorem survey_reports_peak:
  assumes "index < count"
  shows "length (esb_survey_run probes count) = count \<and>
    sint (esb_survey_run probes count ! index) =
      loudest (concat (map (\<lambda>pass. samples (probes pass index)) [0..<SURVEY_PASSES]))"
proof -
  have "length (fold (\<lambda>pass. fold (survey_channel (probes pass)) [0..<count]) passes energy) = count \<and>
      sint (fold (\<lambda>pass. fold (survey_channel (probes pass)) [0..<count]) passes energy ! index) =
        fold max (map sint (concat (map (\<lambda>pass. samples (probes pass index)) passes))) (sint (energy ! index))"
    if "length energy = count" for passes energy
    using that
  proof (induction passes arbitrary: energy)
    case Nil
    then show ?case by simp
  next
    case (Cons pass passes)
    note one = survey_pass [OF Cons.prems assms, of "probes pass" count]
    have "fold max (map sint (samples (probes pass index))) (sint (energy ! index)) =
        max (sint (energy ! index)) (loudest (samples (probes pass index)))"
      using fold_max_max [of "map sint (samples (probes pass index))" "sint (energy ! index)" "- 128"]
        sint_i8_min [of "energy ! index"] by (simp add: loudest_def max_absorb1)
    then show ?case
      using Cons.IH [of "fold (survey_channel (probes pass)) [0..<count] energy"] one assms by simp
  qed
  from this [of "replicate count SURVEY_SILENT_DBM" "[0..<SURVEY_PASSES]"] show ?thesis
    using assms by (simp add: esb_survey_run_def loudest_def)
qed

theorem survey_reports_peak_witness:
  "sint (esb_survey_run (\<lambda>pass index. \<lparr>ready_event = (\<lambda>t. t = 3), rssi_end_event = (\<lambda>k t. k < 2 \<and> t = 1),
     rssi_sample = (\<lambda>k. if k = 0 then 70 else 60)\<rparr>) 2 ! 1) = - 60"
proof -
  define probes :: "nat \<Rightarrow> nat \<Rightarrow> probe" where "probes = (\<lambda>pass index. \<lparr>ready_event = (\<lambda>t. t = 3),
     rssi_end_event = (\<lambda>k t. k < 2 \<and> t = 1), rssi_sample = (\<lambda>k. if k = 0 then 70 else 60)\<rparr>)"
  have "samples (probes pass 1) = [- 70, - 60]" for pass
    unfolding samples_def wait_radio_event_def SURVEY_EVENT_TIMEOUT_US_def SURVEY_SAMPLES_PER_PASS_def probes_def
    by code_simp
  then have "sint (esb_survey_run probes 2 ! 1) = - 60"
    using survey_reports_peak [of 1 2 probes] by (simp add: loudest_def SURVEY_PASSES_def upt_rec)
  then show ?thesis unfolding probes_def .
qed

end
