(* ===== verification/Link_Bounds.thy ===== *)
theory Link_Bounds
  imports Link_Central
begin

text \<open>
  The sizes of the central's reverse channel (\<open>src/esb_link_central.c\<close>): every reply queued
  and latched, and every payload built in the interrupt's buffer, is a payload the radio can
  hold. The C code copies into fixed arrays and narrows lengths to a byte on the strength of it.
\<close>

definition payload_sized :: "link_config \<Rightarrow> bytes \<Rightarrow> bool" where
  "payload_sized cfg data \<longleftrightarrow> 1 \<le> length data \<and> length data \<le> max_payload cfg"

definition pipe_sized :: "link_config \<Rightarrow> nat \<Rightarrow> pipe_replies \<Rightarrow> bool" where
  "pipe_sized cfg pipe p \<longleftrightarrow> length (reply_queue p) \<le> reply_queue_depth cfg ! pipe \<and>
     (\<forall>reply \<in> set (reply_queue p). payload_sized cfg reply) \<and> (\<forall>item \<in> pending_data p. payload_sized cfg (item_data item))"

definition payload_ok :: "link_config \<Rightarrow> esb_payload \<Rightarrow> bool" where
  "payload_ok cfg payload \<longleftrightarrow> payload_pipe payload < REPLY_PIPE_COUNT cfg \<and> payload_sized cfg (payload_data payload)"

definition link_sized :: "link_config \<Rightarrow> 'r link_run \<Rightarrow> bool" where
  "link_sized cfg r \<longleftrightarrow>
     (\<forall>pipe < REPLY_PIPE_COUNT cfg. pipe_sized cfg pipe (link_pipes (run_central r) ! pipe)) \<and>
     (\<forall>payload \<in> set (snd (run_radio r)). payload_ok cfg payload)"

lemma pipe_sized_served:
  assumes "pipe_sized cfg pipe p" and "served cfg pipe p p' payload"
  shows "pipe_sized cfg pipe p'"
  using assms by (auto simp: pipe_sized_def served_def split: option.splits)

section \<open>The payloads of one pass\<close>

text \<open>The log grows by sized payloads only.\<close>

definition log_grows :: "link_config \<Rightarrow> nat \<Rightarrow> esb_payload list \<Rightarrow> esb_payload list \<Rightarrow> bool" where
  "log_grows cfg pipe log log' \<longleftrightarrow>
     (\<forall>payload \<in> set log'. payload \<in> set log \<or> payload_pipe payload = pipe \<and> payload_sized cfg (payload_data payload))"

lemma log_grows_same [simp]: "log_grows cfg pipe log log"
  by (simp add: log_grows_def)

lemma log_grows_write:
  "payload_sized cfg data \<Longrightarrow> write_reply (logged put_payload) (radio, log) \<lparr>payload_pipe = pipe, payload_data = data\<rparr> =
     ((radio', log'), written) \<Longrightarrow> log_grows cfg pipe log log'"
  by (auto simp: write_reply_logged log_grows_def split: if_splits)

lemma write_control_sized:
  assumes "write_control_from (logged put_payload) pipe kind n lc (radio, log) = (lc', (radio', log'), wrote)"
    and "kind + n \<le> length (control_latch (link_pipes lc ! pipe))"
    and "pipe_sized cfg pipe (link_pipes lc ! pipe)"
  shows "log_grows cfg pipe log log'"
  using assms(1,2)
proof (induction n arbitrary: kind)
  case 0
  then show ?case by simp
next
  case (Suc n)
  show ?case
  proof (cases "latch_pending (control_latch (link_pipes lc ! pipe) ! kind)")
    case None
    then show ?thesis using Suc.IH [of "kind + 1"] Suc.prems by simp
  next
    case (Some entry)
    obtain slot data where entry: "entry = (slot, data)" by (cases entry)
    have "Control_item data \<in> pending_data (link_pipes lc ! pipe)"
      unfolding pending_data_def using Some entry Suc.prems(2) by (intro UnI1 CollectI exI [of _ kind]) auto
    then have sized: "payload_sized cfg data" using assms(3) by (auto simp: pipe_sized_def)
    obtain radio1 log1 written where w:
      "write_reply (logged put_payload) (radio, log) \<lparr>payload_pipe = pipe, payload_data = data\<rparr> = ((radio1, log1), written)"
      by (metis surj_pair)
    have "log1 = log'" using Suc.prems(1) Some entry w by (cases written) auto
    then show ?thesis using log_grows_write [OF sized w] by simp
  qed
qed

lemma take_sized:
  "length (esb_hid_relay_pointer_take hid active room queued rp) \<le> room"
  by (auto simp: esb_hid_relay_pointer_take_def Let_def ESB_HID_RELAY_POINTER_LENGTH_def)

lemma append_sized:
  "length data \<le> max_payload cfg \<Longrightarrow> length (data @ append_pointer cfg active pipe lc data queued) \<le> max_payload cfg"
  using take_sized [of "zmk_reports cfg" active "max_payload cfg - length data" queued "link_pointer lc"]
  by (auto simp: append_pointer_def)

lemma write_queued_sized:
  assumes "write_queued_replies (logged put_payload) cfg active pipe lc (radio, log) = (lc', (radio', log'), wrote)"
    and "pipe_sized cfg pipe (link_pipes lc ! pipe)"
  shows "log_grows cfg pipe log log'"
proof -
  define q where "q = reply_queue (link_pipes lc ! pipe)"
  obtain packed data where packed: "pack_queued_replies cfg active pipe lc = (packed, data)"
    by (cases "pack_queued_replies cfg active pipe lc")
  from pack_queued_spec [OF this] obtain n where n: "n \<le> length q" "taken packed = n"
    "data = concat (map (reply_copy cfg active pipe lc) (take n q))"
    "0 < n \<longrightarrow> length data \<le> queued_room cfg active pipe lc"
    by (auto simp: q_def)
  show ?thesis
  proof (cases "n = 0")
    case True
    then show ?thesis using assms(1) packed n(2) by (simp add: write_queued_replies_def)
  next
    case False
    define tail where "tail = (if has_pointer packed then [] else append_pointer cfg active pipe lc data (n < length q))"
    have "length data \<le> max_payload cfg"
      using n(4) False by (auto simp: queued_room_def split: if_splits)
    then have fits: "length (data @ tail) \<le> max_payload cfg"
      using append_sized by (simp add: tail_def)
    obtain first rest where first: "take n q = first # rest"
      using False n(1) by (cases "take n q") auto
    then have "first \<in> set q" by (metis in_set_takeD list.set_intros(1))
    then have "1 \<le> length first" using assms(2) by (auto simp: pipe_sized_def payload_sized_def q_def)
    then have sized: "payload_sized cfg (data @ tail)"
      using fits by (simp add: payload_sized_def n(3) first)
    obtain radio1 log1 written where w:
      "write_reply (logged put_payload) (radio, log) \<lparr>payload_pipe = pipe, payload_data = data @ tail\<rparr> = ((radio1, log1), written)"
      by (metis surj_pair)
    have "log1 = log'"
      using assms(1) packed n(2) False w
      by (auto simp: write_queued_replies_def Let_def tail_def q_def split: if_splits)
    then show ?thesis using log_grows_write [OF sized w] by simp
  qed
qed

lemma write_idle_sized:
  assumes "write_idle_reply (logged put_payload) cfg active pipe lc (radio, log) = (lc', (radio', log'))"
    and "pipe_sized cfg pipe (link_pipes lc ! pipe)"
  shows "log_grows cfg pipe log log'"
proof -
  obtain lc1 slot where fresh: "fresh_idle_reply pipe lc = (lc1, slot)"
    by (cases "fresh_idle_reply pipe lc")
  define data where "data = (case slot of None \<Rightarrow> [] | Some (_, reply) \<Rightarrow> idle_data reply)"
  define tail where "tail = append_pointer cfg active pipe lc1 data False"
  have "data = [] \<or> Idle_item data \<in> pending_data (link_pipes lc ! pipe)"
  proof (cases slot)
    case (Some entry)
    obtain index reply where entry: "entry = (index, reply)" by (cases entry)
    have "latch_pending (idle_reply_latch (link_pipes lc ! pipe)) = Some (index, reply)"
      using fresh Some entry by (auto simp: fresh_idle_reply_def split: option.splits if_splits)
    then have "Idle_item (idle_data reply) \<in> pending_data (link_pipes lc ! pipe)"
      unfolding pending_data_def by blast
    then show ?thesis by (simp add: data_def Some entry)
  qed (simp add: data_def)
  then have "length data \<le> max_payload cfg"
    using assms(2) by (auto simp: pipe_sized_def payload_sized_def)
  then have fits: "length (data @ tail) \<le> max_payload cfg"
    unfolding tail_def by (rule append_sized)
  obtain radio1 log1 written where w:
    "write_reply (logged put_payload) (radio, log) \<lparr>payload_pipe = pipe, payload_data = data @ tail\<rparr> = ((radio1, log1), written)"
    by (metis surj_pair)
  show ?thesis
  proof (cases "data @ tail = []")
    case True
    then show ?thesis
      using assms(1) fresh unfolding data_def tail_def by (auto simp: write_idle_reply_def Let_def)
  next
    case False
    then have "payload_sized cfg (data @ tail)" using fits by (auto simp: payload_sized_def Suc_le_eq)
    note grows = log_grows_write [OF this w]
    have "log1 = log'"
      using assms(1) fresh w False
      by (auto simp: write_idle_reply_def Let_def data_def [symmetric] tail_def [symmetric] split: if_splits)
    then show ?thesis using grows by simp
  qed
qed

lemma log_grows_trans: "log_grows cfg pipe a b \<Longrightarrow> log_grows cfg pipe b c \<Longrightarrow> log_grows cfg pipe a c"
  by (auto simp: log_grows_def)

lemma rx_done_sized:
  assumes "rx_done_pipe (logged put_payload) cfg active pipe lc (radio, log) = (lc', (radio', log'))"
    and "pipe < length (link_pipes lc)" and "length (control_latch (link_pipes lc ! pipe)) = ESB_LINK_CONTROL_COUNT"
    and "pipe_sized cfg pipe (link_pipes lc ! pipe)"
  shows "log_grows cfg pipe log log'"
proof -
  obtain lc1 radio1 log1 wrote1 where c: "write_pending_control (logged put_payload) pipe lc (radio, log) =
      (lc1, (radio1, log1), wrote1)"
    by (metis surj_pair)
  note control = write_control_from_serves [OF c [unfolded write_pending_control_def] assms(2)]
    write_control_sized [OF c [unfolded write_pending_control_def] _ assms(4)]
  obtain lc2 radio2 log2 wrote2 where q: "write_queued_replies (logged put_payload) cfg active pipe lc (radio, log) =
      (lc2, (radio2, log2), wrote2)"
    by (metis surj_pair)
  note queued = write_queued_serves [OF q assms(2)] write_queued_sized [OF q assms(4)]
  show ?thesis
    using control queued c q assms write_idle_sized [of put_payload cfg active pipe lc radio log]
    by (cases wrote1; cases wrote2) (simp_all add: rx_done_pipe_def)
qed

section \<open>Every interleaving\<close>

lemma pipe_sized_stage:
  assumes "pipe_sized cfg pipe p" and "pending_data p' \<subseteq> insert item (pending_data p)" and "payload_sized cfg (item_data item)"
    and "reply_queue p' = reply_queue p"
  shows "pipe_sized cfg pipe p'"
  using assms by (auto simp: pipe_sized_def)

lemma link_sized_update:
  assumes "link_sized cfg r" and "length (link_pipes (run_central r)) = REPLY_PIPE_COUNT cfg"
    and "pipe < REPLY_PIPE_COUNT cfg" and "run_central r' = update_pipe pipe f (run_central r)"
    and "run_radio r' = run_radio r" and "pipe_sized cfg pipe (f (link_pipes (run_central r) ! pipe))"
  shows "link_sized cfg r'"
proof -
  have "pipe_sized cfg other (link_pipes (run_central r') ! other)" if "other < REPLY_PIPE_COUNT cfg" for other
    using assms that by (cases "other = pipe") (simp_all add: link_sized_def)
  then show ?thesis using assms(1,5) by (simp add: link_sized_def)
qed

lemma link_sized_step:
  assumes "link_step cfg put_payload r r'" and "link_inv cfg r" and "link_sized cfg r"
    and "ESB_LINK_CONTROL_MAX_LENGTH \<le> max_payload cfg"
  shows "link_sized cfg r'"
  using assms(1)
proof cases
  have count: "length (link_pipes (run_central r)) = REPLY_PIPE_COUNT cfg"
    using assms(2) by (simp add: link_inv_def)
  note update = link_sized_update [OF assms(3) count]
  have sized: "pipe_sized cfg pipe (link_pipes (run_central r) ! pipe)" "latches_ok (link_pipes (run_central r) ! pipe)"
    if "pipe < REPLY_PIPE_COUNT cfg" for pipe
    using assms(2,3) that by (auto simp: link_sized_def link_inv_def pipe_inv_def)
  {
    case (put pipe data lc result)
    show ?thesis
    proof (cases "result = Ok")
      case True
      then have ok: "pipe < REPLY_PIPE_COUNT cfg" "payload_sized cfg data"
        "length (reply_queue (link_pipes (run_central r) ! pipe)) < reply_queue_depth cfg ! pipe"
        "lc = update_pipe pipe (\<lambda>p. p\<lparr>reply_queue := reply_queue p @ [data]\<rparr>) (run_central r)"
        using put(2) by (auto simp: stage_reply_put_def payload_sized_def Suc_le_eq split: if_splits)
      show ?thesis
        by (rule update [OF ok(1), of _ "\<lambda>p. p\<lparr>reply_queue := reply_queue p @ [data]\<rparr>"])
          (use ok sized [OF ok(1)] in \<open>auto simp: put(1) pipe_sized_def\<close>)
    next
      case False
      then have "lc = run_central r" using put(2) by (auto simp: stage_reply_put_def split: if_splits)
      then show ?thesis using assms(3) by (simp add: put(1) link_sized_def)
    qed
  next
    case (counted pipe)
    show ?thesis
    proof (cases "pipe < REPLY_PIPE_COUNT cfg")
      case True
      show ?thesis
        by (rule update [OF True, of _ "\<lambda>p. p\<lparr>replies_staged := replies_staged p + 1\<rparr>"])
          (use sized [OF True] in \<open>auto simp: counted stage_reply_count_def pipe_sized_def\<close>)
    next
      case False
      then show ?thesis
        using assms(3) count by (simp add: counted link_sized_def stage_reply_count_def update_pipe_def)
    qed
  next
    case (control pipe kind data lc result)
    show ?thesis
    proof (cases "result = Ok")
      case True
      then have ok: "pipe < REPLY_PIPE_COUNT cfg" "kind < ESB_LINK_CONTROL_COUNT" "payload_sized cfg data"
        "lc = update_pipe pipe (\<lambda>p. p\<lparr>control_latch :=
          (control_latch p)[kind := latch_stage data (control_latch p ! kind)]\<rparr>) (run_central r)"
        using control(2) assms(4) by (auto simp: esb_link_latch_control_def payload_sized_def Suc_le_eq split: if_splits)
      show ?thesis
        by (rule update [OF ok(1), of _ "\<lambda>p. p\<lparr>control_latch :=
            (control_latch p)[kind := latch_stage data (control_latch p ! kind)]\<rparr>"], simp add: control(1) ok(4),
            simp add: control(1), rule pipe_sized_stage [OF sized(1) [OF ok(1)], where item = "Control_item data"])
          (use latches_ok_stage(1) [OF sized(2) [OF ok(1)] ok(2)] ok(3) in simp_all)
    next
      case False
      then have "lc = run_central r" using control(2) by (auto simp: esb_link_latch_control_def split: if_splits)
      then show ?thesis using assms(3) by (simp add: control(1) link_sized_def)
    qed
  next
    case (idle pipe data lc result)
    show ?thesis
    proof (cases "result = Ok")
      case True
      then have ok: "pipe < REPLY_PIPE_COUNT cfg" "payload_sized cfg data"
        "lc = update_pipe pipe (\<lambda>p. p\<lparr>idle_reply_latch :=
          latch_stage \<lparr>idle_data = data, idle_staged = replies_staged p\<rparr> (idle_reply_latch p)\<rparr>) (run_central r)"
        using idle(2) by (auto simp: esb_link_latch_idle_reply_def payload_sized_def Suc_le_eq split: if_splits)
      show ?thesis
        by (rule update [OF ok(1), of _ "\<lambda>p. p\<lparr>idle_reply_latch :=
            latch_stage \<lparr>idle_data = data, idle_staged = replies_staged p\<rparr> (idle_reply_latch p)\<rparr>"],
            simp add: idle(1) ok(3), simp add: idle(1), rule pipe_sized_stage [OF sized(1) [OF ok(1)], where item = "Idle_item data"])
          (use pending_data_stage_idle latches_ok_latch [OF sized(2) [OF ok(1)]] ok(2) in simp_all)
    next
      case False
      then have "lc = run_central r" using idle(2) by (auto simp: esb_link_latch_idle_reply_def split: if_splits)
      then show ?thesis using assms(3) by (simp add: idle(1) link_sized_def)
    qed
  next
    case (pointer rp)
    then show ?thesis using assms(3) by (simp add: link_sized_def)
  next
    case (rx_done pipe active lc radio)
    obtain radio0 log0 radio1 log1 where pairs: "run_radio r = (radio0, log0)" "radio = (radio1, log1)"
      by (metis surj_pair)
    have ready: "pipe < length (link_pipes (run_central r))"
      "length (control_latch (link_pipes (run_central r) ! pipe)) = ESB_LINK_CONTROL_COUNT"
      using count sized(2) rx_done(2) by (auto simp: latches_ok_def)
    have pass: "rx_done_pipe (logged put_payload) cfg active pipe (run_central r) (radio0, log0) = (lc, (radio1, log1))"
      using rx_done(3) pairs by simp
    note serves = rx_done_pipe_serves [OF this ready]
    have "pipe_sized cfg other (link_pipes lc ! other)" if "other < REPLY_PIPE_COUNT cfg" for other
      using serves sized(1) [OF that] pipe_sized_served by (cases "other = pipe") (auto simp: serves_def)
    moreover have "\<forall>payload \<in> set log1. payload_ok cfg payload"
      using rx_done_sized [OF pass ready sized(1) [OF rx_done(2)]] assms(3) rx_done(2) pairs
      by (auto simp: log_grows_def link_sized_def payload_ok_def)
    ultimately show ?thesis by (simp add: rx_done(1) link_sized_def pairs)
  }
qed

lemma link_sized_boot: "link_sized cfg (link_run_boot cfg radio)"
  by (auto simp: link_sized_def link_run_boot_def link_central_boot_def pipe_sized_def reply_latches_init_def
      pending_data_def CONTROL_LATCH_SLOTS_def IDLE_REPLY_SLOTS_def)

lemma link_sized_reaches:
  assumes "link_reaches cfg put_payload radio r" and "ESB_LINK_CONTROL_MAX_LENGTH \<le> max_payload cfg"
  shows "link_sized cfg r"
  using assms(1) unfolding link_reaches_def
proof (induction rule: rtranclp_induct)
  case (step r r')
  then have "link_inv cfg r" using link_inv_reaches [of cfg put_payload radio r] by (simp add: link_reaches_def)
  then show ?case by (rule link_sized_step [OF step(2) _ step.IH assms(2)])
qed (rule link_sized_boot)

text \<open>
  Claim C23: in every interleaving of staging threads and the radio's interrupts, whatever it
  refuses, each reply queue stays within its depth, every reply in it and every payload the
  radio takes has at least one byte and no more than the radio's payload holds, and each
  payload is for a pipe there is.
\<close>

theorem link_payloads_sized:
  assumes "link_reaches cfg put_payload radio r" and "ESB_LINK_CONTROL_MAX_LENGTH \<le> max_payload cfg"
  shows "(\<forall>payload \<in> set (snd (run_radio r)). payload_pipe payload < REPLY_PIPE_COUNT cfg \<and>
      1 \<le> length (payload_data payload) \<and> length (payload_data payload) \<le> max_payload cfg) \<and>
    (\<forall>pipe < REPLY_PIPE_COUNT cfg.
      length (reply_queue (link_pipes (run_central r) ! pipe)) \<le> reply_queue_depth cfg ! pipe \<and>
      (\<forall>reply \<in> set (reply_queue (link_pipes (run_central r) ! pipe)). 1 \<le> length reply \<and> length reply \<le> max_payload cfg))"
  using link_sized_reaches [OF assms]
  by (simp add: link_sized_def payload_ok_def pipe_sized_def payload_sized_def)

theorem link_payloads_sized_witness:
  "link_reaches link_example take_all () example_run \<and> length (snd (run_radio example_run)) = 1 \<and>
    payload_pipe (hd (snd (run_radio example_run))) < 2 \<and>
    length (payload_data (hd (snd (run_radio example_run)))) \<le> 48"
proof -
  have "link_reaches link_example take_all () example_run" by (rule example_run_reached)
  then show ?thesis
    using link_payloads_sized [of link_example take_all "()" example_run]
    by (auto simp: link_example_def ESB_LINK_CONTROL_MAX_LENGTH_def REPLY_PIPE_COUNT_def example_run_def)
qed

end
