(* ===== verification/Relay_Path.thy ===== *)
theory Relay_Path
  imports Link_Bounds Relay_Central Relay_Sink Esb_Peripheral Hop_Peripheral "HOL-Library.Sublist"
begin

text \<open>
  The HID relay end to end: from the reports the central hands over for a relay pipe
  (\<open>src/esb_hid_relay_central.c\<close>, \<open>src/esb_link_central.c\<close>) through the payloads its
  radio took to the reports the dongle delivers (\<open>src/hop_peripheral.c\<close>,
  \<open>src/esb_peripheral.c\<close>, \<open>src/esb_hid_relay_peripheral.c\<close>).
\<close>

section \<open>What the dongle does with a payload\<close>

text \<open>The link offers a received payload to the hop engine first and hands it to the transport
  only if that did not take it. \<open>forward\<close> is \<open>wire_relay_forward_to_peer\<close>.\<close>

definition dongle_hear ::
  "hop_peripheral_config \<Rightarrow> esb_peripheral_config \<Rightarrow> (bytes \<Rightarrow> 'w \<Rightarrow> 'w) \<Rightarrow> 's sink \<Rightarrow> zmk_hid \<Rightarrow> u32 \<Rightarrow> nat \<Rightarrow>
   u32 \<times> bytes \<Rightarrow> hop_peripheral \<times> esb_peripheral \<times> 'w \<times> relay_sink \<times> 's \<Rightarrow>
   hop_peripheral \<times> esb_peripheral \<times> 'w \<times> relay_sink \<times> 's" where
  "dongle_hear hop_cfg cfg forward callback hid loss pipe = (\<lambda>(now_ms, data) (hp, ep, wire, state).
     (let (hp, p, consumed) = hop_consume_rx hop_cfg pipe data hp (core ep);
          ep = ep\<lparr>core := p\<rparr>
      in if consumed then (hp, ep, wire, state)
         else (hp, esb_peripheral_on_rx cfg forward (esb_hid_relay_deliver (Some callback) hid loss now_ms) pipe data
                 (ep, wire, state))))"

definition dongle_sink :: "hop_peripheral \<times> esb_peripheral \<times> 'w \<times> 's \<Rightarrow> 's" where
  "dongle_sink = (\<lambda>(hp, ep, wire, state). state)"

text \<open>A control packet by its tag. A pool of one channel has no mask updates.\<close>

definition control_packet :: "hop_pool \<Rightarrow> bytes \<Rightarrow> bool" where
  "control_packet chans data \<longleftrightarrow> data \<noteq> [] \<and>
     (data ! 0 = ESB_BEACON_TAG \<or> data ! 0 = ESB_MASK_UPDATE_TAG \<and> HOP_COUNT chans > 1)"

definition tags_apart :: "zmk_hid \<Rightarrow> bool" where
  "tags_apart hid \<longleftrightarrow> {id_keyboard hid, id_consumer hid, id_mouse hid} \<inter> {ESB_BEACON_TAG, ESB_MASK_UPDATE_TAG} = {}"

text \<open>What the latches of a relay pipe are given: control packets, and whole reports back to back.\<close>

definition latch_fed :: "zmk_hid \<Rightarrow> hop_pool \<Rightarrow> latched_item set \<Rightarrow> bool" where
  "latch_fed hid chans items \<longleftrightarrow> (\<forall>item \<in> items. case item of
     Control_item data \<Rightarrow> control_packet chans data
   | Idle_item data \<Rightarrow> \<exists>reports. data = concat reports \<and> (\<forall>report \<in> set reports. whole_report hid report))"

text \<open>The reports of the idle replies latched.\<close>

definition idle_reports :: "zmk_hid \<Rightarrow> latched_item set \<Rightarrow> bytes set" where
  "idle_reports hid items = {report. \<exists>reports. Idle_item (concat reports) \<in> items \<and>
     (\<forall>report \<in> set reports. whole_report hid report) \<and> report \<in> set reports}"

text \<open>The state reports among some: the ones that are not a pointer's.\<close>

definition state_reports :: "zmk_hid \<Rightarrow> bytes list \<Rightarrow> bytes list" where
  "state_reports hid reports = filter (\<lambda>report. \<not> is_pointer hid report) reports"

section \<open>The payloads\<close>

lemma pointer_whole: "hid_ok hid room \<Longrightarrow> is_pointer hid report \<Longrightarrow> whole_report hid report"
  by (auto simp: is_pointer_def whole_report_def relay_report_length_def ESB_HID_RELAY_POINTER_LENGTH_def)

text \<open>A payload read as the reports it consists of, \<^const>\<open>None\<close> for a control packet.\<close>

definition reads_as :: "zmk_hid \<Rightarrow> hop_pool \<Rightarrow> bytes \<Rightarrow> bytes list option \<Rightarrow> bool" where
  "reads_as hid chans data run = (case run of
     None \<Rightarrow> control_packet chans data
   | Some reports \<Rightarrow> data = concat reports \<and> (\<forall>report \<in> set reports. whole_report hid report))"

abbreviation reports_in :: "bytes list option list \<Rightarrow> bytes list" where
  "reports_in runs \<equiv> concat (map (case_option [] id) runs)"

lemma state_reports_append [simp]: "state_reports hid (a @ b) = state_reports hid a @ state_reports hid b"
  by (simp add: state_reports_def)

lemma same_report_state:
  "list_all2 (same_report hid) replies copies \<Longrightarrow> state_reports hid copies = state_reports hid replies"
  by (induction rule: list_all2_induct) (auto simp: same_report_def state_reports_def split: if_splits)

lemma same_report_whole:
  assumes "list_all2 (same_report hid) replies copies" and "hid_ok hid room"
    and "\<forall>reply \<in> set replies. whole_report hid reply"
  shows "\<forall>copy \<in> set copies. whole_report hid copy"
  using assms by (induction rule: list_all2_induct) (auto simp: same_report_def pointer_whole split: if_splits)

lemma carries_reads:
  assumes "carries cfg pipe replies data" and "esb_link_pipe_is_relay cfg pipe" and "hid_ok (zmk_reports cfg) room"
    and "\<forall>reply \<in> set replies. whole_report (zmk_reports cfg) reply"
  obtains reports where "reads_as (zmk_reports cfg) chans data (Some reports)"
    "state_reports (zmk_reports cfg) reports = state_reports (zmk_reports cfg) replies"
proof -
  obtain copies tail where split: "data = concat copies @ tail" "list_all2 (same_report (zmk_reports cfg)) replies copies"
    "tail = [] \<or> is_pointer (zmk_reports cfg) tail"
    using assms(1,2) by (auto simp: carries_def)
  define rest where "rest = (if tail = [] then [] else [tail])"
  have data: "data = concat (copies @ rest)" using split(1) by (simp add: rest_def)
  have whole: "\<forall>report \<in> set (copies @ rest). whole_report (zmk_reports cfg) report"
    using same_report_whole [OF split(2) assms(3,4)] split(3) pointer_whole [OF assms(3)]
    by (auto simp: rest_def)
  have same: "state_reports (zmk_reports cfg) (copies @ rest) = state_reports (zmk_reports cfg) replies"
    using same_report_state [OF split(2)] split(3) by (auto simp: rest_def state_reports_def)
  show ?thesis
    by (rule that [OF _ same]) (use data whole in \<open>simp add: reads_as_def\<close>)
qed

lemma latched_reads:
  assumes "latched_payload cfg pipe items data" and "latch_fed (zmk_reports cfg) chans items" and "hid_ok (zmk_reports cfg) room"
  obtains run where "reads_as (zmk_reports cfg) chans data run"
    "set (state_reports (zmk_reports cfg) (case_option [] id run)) \<subseteq> idle_reports (zmk_reports cfg) items"
proof -
  consider (control) "Control_item data \<in> items" | (idle) "Idle_item data \<in> items"
    | (pointer) idle report where "idle = [] \<or> Idle_item idle \<in> items" "is_pointer (zmk_reports cfg) report" "data = idle @ report"
    using assms(1) by (auto simp: latched_payload_def)
  then show ?thesis
  proof cases
    case control
    then show ?thesis using assms(2) that [of None] by (force simp: latch_fed_def reads_as_def state_reports_def)
  next
    case idle
    then obtain reports where "data = concat reports" "\<forall>report \<in> set reports. whole_report (zmk_reports cfg) report"
      using assms(2) by (force simp: latch_fed_def)
    then show ?thesis
      using that [of "Some reports"] idle by (auto simp: reads_as_def idle_reports_def state_reports_def)
  next
    case pointer
    have "\<exists>reports. idle = concat reports \<and> (\<forall>report \<in> set reports. whole_report (zmk_reports cfg) report) \<and>
        set reports \<subseteq> idle_reports (zmk_reports cfg) items"
      using pointer(1)
    proof
      assume "Idle_item idle \<in> items"
      moreover from this obtain reports where "idle = concat reports"
        "\<forall>report \<in> set reports. whole_report (zmk_reports cfg) report"
        using assms(2) by (force simp: latch_fed_def)
      ultimately show ?thesis unfolding idle_reports_def by blast
    qed (auto intro!: exI [of _ "[]"])
    then obtain reports where reports: "idle = concat reports" "\<forall>report \<in> set reports. whole_report (zmk_reports cfg) report"
      "set reports \<subseteq> idle_reports (zmk_reports cfg) items"
      by blast
    show ?thesis
      by (rule that [of "Some (reports @ [report])"])
        (use pointer(2,3) reports pointer_whole [OF assms(3)] in \<open>auto simp: reads_as_def state_reports_def\<close>)
  qed
qed

text \<open>The whole log read: the state reports handed over are in it, in their order.\<close>

lemma accounted_reads:
  assumes "list_all2 (carries cfg pipe) groups payloads" and "log \<in> shuffles payloads others"
    and "\<forall>data \<in> set others. latched_payload cfg pipe items data"
    and "\<forall>reply \<in> set (concat groups). whole_report (zmk_reports cfg) reply"
    and relay: "esb_link_pipe_is_relay cfg pipe" and hid: "hid_ok (zmk_reports cfg) room"
    and fed: "latch_fed (zmk_reports cfg) chans items"
  shows "\<exists>runs. list_all2 (reads_as (zmk_reports cfg) chans) log runs \<and>
    subseq (state_reports (zmk_reports cfg) (concat groups)) (state_reports (zmk_reports cfg) (reports_in runs)) \<and>
    set (state_reports (zmk_reports cfg) (reports_in runs)) \<subseteq>
      set (concat groups) \<union> idle_reports (zmk_reports cfg) items"
  using assms(1-4)
proof (induction log arbitrary: groups payloads others)
  case Nil
  then show ?case by (auto intro!: exI [of _ "[]"] list_emb_Nil simp: state_reports_def)
next
  case (Cons data log)
  from Cons.prems(2) consider
      (reply) rest where "payloads = data # rest" "log \<in> shuffles rest others"
    | (other) rest where "others = data # rest" "log \<in> shuffles payloads rest"
    by (auto simp: Cons_in_shuffles_iff) (metis list.collapse)+
  then show ?case
  proof cases
    case reply
    then obtain group gs where groups: "groups = group # gs" "carries cfg pipe group data" "list_all2 (carries cfg pipe) gs rest"
      using Cons.prems(1) by (auto simp: list_all2_Cons2)
    obtain reports where reports: "reads_as (zmk_reports cfg) chans data (Some reports)"
      "state_reports (zmk_reports cfg) reports = state_reports (zmk_reports cfg) group"
      using carries_reads [OF groups(2) relay hid] Cons.prems(4) groups(1) by (metis UnCI concat.simps(2) set_append)
    obtain runs where "list_all2 (reads_as (zmk_reports cfg) chans) log runs"
      "subseq (state_reports (zmk_reports cfg) (concat gs)) (state_reports (zmk_reports cfg) (reports_in runs))"
      "set (state_reports (zmk_reports cfg) (reports_in runs)) \<subseteq> set (concat gs) \<union> idle_reports (zmk_reports cfg) items"
      using Cons.IH [OF groups(3) reply(2) Cons.prems(3)] Cons.prems(4) groups(1) by auto
    moreover have "set (state_reports (zmk_reports cfg) reports) \<subseteq> set group"
      using reports(2) by (auto simp: state_reports_def)
    ultimately show ?thesis
      using reports groups(1) by (intro exI [of _ "Some reports # runs"]) (auto simp: list_emb_append_mono)
  next
    case other
    obtain run where run: "reads_as (zmk_reports cfg) chans data run"
      "set (state_reports (zmk_reports cfg) (case_option [] id run)) \<subseteq> idle_reports (zmk_reports cfg) items"
      using latched_reads [OF _ fed hid] Cons.prems(3) other(1) by (metis list.set_intros(1))
    obtain runs where "list_all2 (reads_as (zmk_reports cfg) chans) log runs"
      "subseq (state_reports (zmk_reports cfg) (concat groups)) (state_reports (zmk_reports cfg) (reports_in runs))"
      "set (state_reports (zmk_reports cfg) (reports_in runs)) \<subseteq> set (concat groups) \<union> idle_reports (zmk_reports cfg) items"
      using Cons.IH [OF Cons.prems(1) other(2)] Cons.prems(3,4) other(1) by auto
    then show ?thesis
      using run by (intro exI [of _ "run # runs"]) (auto simp: list_emb_append2)
  qed
qed

section \<open>Hearing them\<close>

lemma whole_first:
  assumes "whole_report hid report"
  shows "report \<noteq> [] \<and> report ! 0 \<in> {id_keyboard hid, id_consumer hid, id_mouse hid}"
  using assms by (cases rule: find_report_cases [of "report ! 0" hid])
    (auto simp: whole_report_def relay_report_length_def split: if_splits)

lemma reports_first:
  assumes "\<forall>report \<in> set reports. whole_report hid report" and "concat reports \<noteq> []"
  shows "concat reports ! 0 \<in> {id_keyboard hid, id_consumer hid, id_mouse hid}"
proof (cases reports)
  case (Cons report rest)
  then show ?thesis using whole_first [of hid report] assms(1) by (auto simp: nth_append)
qed (use assms in simp)

lemma short_length: "length data < 256 \<Longrightarrow> (of_nat (length data) :: u8) = 0 \<longleftrightarrow> data = []"
  by (metis length_0_conv of_nat_0 unat_eq_0 unat_of_nat_u8)

lemma hear_control:
  assumes "control_packet (channel_pool hop_cfg) data" and "length data < 256"
    and "hop_peripheral_config.wire_relay_pipe hop_cfg \<noteq> Some pipe"
  shows "dongle_sink (dongle_hear hop_cfg cfg forward callback hid loss pipe (now_ms, data) st) = dongle_sink st"
  using assms short_length [OF assms(2)]
  by (cases st) (auto simp: dongle_hear_def dongle_sink_def control_packet_def hop_consume_rx_def esb_has_beacon_tag_def
      esb_has_mask_update_tag_def split_beta Let_def ESB_BEACON_TAG_def ESB_MASK_UPDATE_TAG_def)

lemma hear_reports:
  assumes "\<forall>report \<in> set reports. whole_report hid report" and "hid_ok hid room" "tags_apart hid"
    and "esb_peripheral_config.self_is_relay cfg" "esb_peripheral_config.wire_relay_pipe cfg \<noteq> Some pipe"
  shows "dongle_sink (dongle_hear hop_cfg cfg forward callback hid loss pipe (now_ms, concat reports) st) =
    fold (deliver_one callback hid loss now_ms) reports (dongle_sink st)"
proof -
  obtain hp ep wire state where st: "st = (hp, ep, wire, state)" by (cases st) auto
  have "concat reports \<noteq> [] \<Longrightarrow> concat reports ! 0 \<noteq> ESB_BEACON_TAG \<and> concat reports ! 0 \<noteq> ESB_MASK_UPDATE_TAG"
    using reports_first [OF assms(1)] assms(3) by (auto simp: tags_apart_def)
  then have "hop_consume_rx hop_cfg pipe (concat reports) hp (core ep) = (hp, core ep, False)"
    by (cases "concat reports = []")
      (auto simp: hop_consume_rx_def esb_has_beacon_tag_def esb_has_mask_update_tag_def simp del: concat_eq_Nil_conv)
  then show ?thesis
    using assms(4,5) relay_payload_roundtrip [OF assms(2,1), of callback loss now_ms state]
    by (cases state) (auto simp: st dongle_hear_def dongle_sink_def esb_peripheral_on_rx_def)
qed

text \<open>The reports of a log with the time each was heard.\<close>

definition timed :: "(u32 \<times> bytes) list \<Rightarrow> bytes list option list \<Rightarrow> (u32 \<times> bytes) list" where
  "timed heard runs = concat (map2 (\<lambda>(now_ms, data) run. map (Pair now_ms) (case_option [] id run)) heard runs)"

lemma timed_reports: "length heard = length runs \<Longrightarrow> map snd (timed heard runs) = reports_in runs"
  by (induction heard runs rule: list_induct2) (auto simp: timed_def split_beta comp_def)

lemma fold_at_time:
  "fold (\<lambda>(now_ms, report). deliver now_ms report) (map (Pair now_ms) reports) state = fold (deliver now_ms) reports state"
  by (induction reports arbitrary: state) simp_all

lemma dongle_hears:
  assumes "list_all2 (reads_as hid (channel_pool hop_cfg)) (map snd heard) runs"
    and "\<forall>data \<in> set (map snd heard). length data < 256" and "hid_ok hid room" "tags_apart hid"
    and "hop_peripheral_config.wire_relay_pipe hop_cfg \<noteq> Some pipe"
    and "esb_peripheral_config.self_is_relay cfg" "esb_peripheral_config.wire_relay_pipe cfg \<noteq> Some pipe"
  shows "dongle_sink (fold (dongle_hear hop_cfg cfg forward callback hid loss pipe) heard st) =
    fold (\<lambda>(now_ms, report). deliver_one callback hid loss now_ms report) (timed heard runs) (dongle_sink st)"
  using assms(1,2)
proof (induction heard arbitrary: runs st)
  case Nil
  then show ?case by (simp add: timed_def)
next
  case (Cons entry heard)
  obtain now_ms data where entry: "entry = (now_ms, data)" by (cases entry)
  then obtain run rest where runs: "runs = run # rest" "reads_as hid (channel_pool hop_cfg) data run"
    "list_all2 (reads_as hid (channel_pool hop_cfg)) (map snd heard) rest"
    using Cons.prems(1) by (auto simp: list_all2_Cons1)
  have "dongle_sink (dongle_hear hop_cfg cfg forward callback hid loss pipe (now_ms, data) st) =
      fold (deliver_one callback hid loss now_ms) (case_option [] id run) (dongle_sink st)"
  proof (cases run)
    case None
    then show ?thesis
      using runs(2) Cons.prems(2) hear_control [of hop_cfg data pipe] assms(5) by (simp add: reads_as_def entry)
  next
    case (Some reports)
    then show ?thesis
      using runs(2) hear_reports [OF _ assms(3,4,6,7), of reports] by (simp add: reads_as_def)
  qed
  then show ?case
    using Cons.IH [OF runs(3)] Cons.prems(2)
    by (simp add: entry runs(1) timed_def fold_at_time)
qed

text \<open>
  Claim C2: the reports the central's reply queue of a relay pipe accepted are what the dongle
  delivers, whatever threads and interrupts interleave and the radio refuses. If the dongle hears
  the payloads the central's radio took for the pipe, it delivers, one at a time, a run of whole
  reports in which every keyboard and consumer report that left the queue stands in the order
  staged, and none but those and the ones of the idle replies latched.
\<close>

theorem relay_reports_reach_dongle:
  assumes "link_reaches cfg put_payload radio r" and "pipe < REPLY_PIPE_COUNT cfg" "esb_link_pipe_is_relay cfg pipe"
    and "hid_ok (zmk_reports cfg) (max_payload cfg)" "tags_apart (zmk_reports cfg)"
    and "ESB_LINK_CONTROL_MAX_LENGTH \<le> max_payload cfg"
    and "\<forall>reply \<in> set (handed r pipe). whole_report (zmk_reports cfg) reply"
    and "latch_fed (zmk_reports cfg) (channel_pool hop_cfg) (latched r pipe)"
    and "map snd heard = sent_to r pipe"
    and "hop_peripheral_config.wire_relay_pipe hop_cfg \<noteq> Some dongle_pipe"
    and "esb_peripheral_config.self_is_relay dongle_cfg" "esb_peripheral_config.wire_relay_pipe dongle_cfg \<noteq> Some dongle_pipe"
  shows "\<exists>sent delivered. handed r pipe = sent @ reply_queue (link_pipes (run_central r) ! pipe) \<and>
    dongle_sink (fold (dongle_hear hop_cfg dongle_cfg forward callback (zmk_reports cfg) loss dongle_pipe) heard st) =
      fold (\<lambda>(now_ms, report). deliver_one callback (zmk_reports cfg) loss now_ms report) delivered (dongle_sink st) \<and>
    subseq (state_reports (zmk_reports cfg) sent) (state_reports (zmk_reports cfg) (map snd delivered)) \<and>
    set (state_reports (zmk_reports cfg) (map snd delivered)) \<subseteq> set sent \<union> idle_reports (zmk_reports cfg) (latched r pipe)"
proof -
  obtain sent groups payloads others where sent: "handed r pipe = sent @ reply_queue (link_pipes (run_central r) ! pipe)"
    "sent = concat groups" "list_all2 (carries cfg pipe) groups payloads" "sent_to r pipe \<in> shuffles payloads others"
    "\<forall>data \<in> set others. latched_payload cfg pipe (latched r pipe) data"
    using pipe_inv_of [OF link_inv_reaches [OF assms(1)] assms(2)] by (auto simp: pipe_inv_def replies_accounted_def)
  have whole: "\<forall>reply \<in> set (concat groups). whole_report (zmk_reports cfg) reply"
    using assms(7) sent(1,2) by simp
  obtain runs where runs: "list_all2 (reads_as (zmk_reports cfg) (channel_pool hop_cfg)) (map snd heard) runs"
    "subseq (state_reports (zmk_reports cfg) sent) (state_reports (zmk_reports cfg) (reports_in runs))"
    "set (state_reports (zmk_reports cfg) (reports_in runs)) \<subseteq> set sent \<union> idle_reports (zmk_reports cfg) (latched r pipe)"
    using accounted_reads [OF sent(3-5) whole assms(3,4,8)] by (auto simp: assms(9) sent(2))
  have "\<forall>data \<in> set (sent_to r pipe). length data \<le> max_payload cfg"
    using link_sized_reaches [OF assms(1,6)] by (auto simp: sent_to_def link_sized_def payload_ok_def payload_sized_def)
  then have short: "\<forall>data \<in> set (map snd heard). length data < 256"
    using assms(4) unfolding assms(9) by (force simp: hid_ok_def)
  have "map snd (timed heard runs) = reports_in runs"
    using list_all2_lengthD [OF runs(1)] by (intro timed_reports) simp
  then show ?thesis
    using sent(1) runs(2,3) dongle_hears [OF runs(1) short assms(4,5,10-12)]
    by (intro exI [of _ sent], intro conjI exI [of _ "timed heard runs"]) simp_all
qed

text \<open>One keyboard report through a pipe with the relay role.\<close>

definition relay_report_example :: bytes where
  "relay_report_example = [1, 0, 4, 0, 0, 0, 0, 0, 0]"

definition relay_run_example :: "unit link_run" where
  "relay_run_example =
     (let lc = fst (stage_reply_put link_example 1 relay_report_example (link_central_boot link_example));
          (lc, radio) = rx_done_pipe (logged take_all) link_example True 1 lc ((), [])
      in (link_run_boot link_example ())\<lparr>run_central := lc, run_radio := radio,
            handed := (\<lambda>_. [])(1 := [relay_report_example])\<rparr>)"

lemma relay_run_reached: "link_reaches link_example take_all () relay_run_example"
proof -
  define lc where "lc = fst (stage_reply_put link_example 1 relay_report_example (link_central_boot link_example))"
  have put: "stage_reply_put link_example 1 relay_report_example (run_central (link_run_boot link_example ())) = (lc, Ok)"
    unfolding lc_def link_run_boot_def relay_report_example_def by code_simp
  define r1 where "r1 = (link_run_boot link_example ())\<lparr>run_central := lc, handed := (\<lambda>_. [])(1 := [relay_report_example])\<rparr>"
  obtain lc2 radio where pass: "rx_done_pipe (logged take_all) link_example True 1 lc ((), []) = (lc2, radio)"
    by (metis surj_pair)
  have "link_step link_example take_all (link_run_boot link_example ()) r1"
    using link_step.put [OF put, of take_all] by (simp add: r1_def link_run_boot_def)
  moreover have "link_step link_example take_all r1 relay_run_example"
    using link_step.rx_done [of 1 link_example take_all True r1 lc2 radio] pass
    by (simp add: r1_def relay_run_example_def lc_def link_run_boot_def REPLY_PIPE_COUNT_def link_example_def Let_def)
  ultimately show ?thesis
    by (simp add: link_reaches_def)
qed

lemma relay_run_facts:
  "handed relay_run_example 1 = [relay_report_example]" "latched relay_run_example 1 = {}"
  "sent_to relay_run_example 1 = [relay_report_example]"
  "reply_queue (link_pipes (run_central relay_run_example) ! 1) = []"
  by (simp_all add: relay_run_example_def link_run_boot_def split_beta Let_def) (code_simp+)

theorem relay_reports_reach_dongle_witness:
  "\<exists>sent delivered. [relay_report_example] = sent @ [] \<and>
    dongle_sink (fold (dongle_hear hop_peripheral_config_example dongle_config_example (\<lambda>_ w. w) (logged_sink busy_once)
        (zmk_reports link_example) 100 1) [(5, relay_report_example)]
        (hop_peripheral_boot hop_peripheral_config_example blank_retained, esb_peripheral_boot dongle_config_example 8, (), sink_example, (False, []))) =
      fold (\<lambda>(now_ms, report). deliver_one (logged_sink busy_once) (zmk_reports link_example) 100 now_ms report) delivered
        (sink_example, (False, [])) \<and>
    subseq (state_reports (zmk_reports link_example) sent) (state_reports (zmk_reports link_example) (map snd delivered)) \<and>
    set (state_reports (zmk_reports link_example) (map snd delivered)) \<subseteq> set sent \<union> idle_reports (zmk_reports link_example) {}"
proof -
  have pipe: "1 < REPLY_PIPE_COUNT link_example" "esb_link_pipe_is_relay link_example 1"
    by (simp_all add: REPLY_PIPE_COUNT_def esb_link_pipe_is_relay_def link_example_def)
  have hid: "hid_ok (zmk_reports link_example) (max_payload link_example)" "tags_apart (zmk_reports link_example)"
    "ESB_LINK_CONTROL_MAX_LENGTH \<le> max_payload link_example"
    by (simp_all add: hid_ok_def tags_apart_def link_example_def ESB_HID_RELAY_POINTER_LENGTH_def ESB_BEACON_TAG_def
        ESB_MASK_UPDATE_TAG_def ESB_LINK_CONTROL_MAX_LENGTH_def)
  have whole: "\<forall>reply \<in> set (handed relay_run_example 1). whole_report (zmk_reports link_example) reply"
    unfolding relay_run_facts by (simp add: relay_report_example_def whole_report_def relay_report_find_def relay_report_length_def
        relay_reports_def link_example_def)
  have fed: "latch_fed (zmk_reports link_example) (channel_pool hop_peripheral_config_example) (latched relay_run_example 1)"
    unfolding relay_run_facts by (simp add: latch_fed_def)
  have heard: "map snd [(5, relay_report_example)] = sent_to relay_run_example 1"
    unfolding relay_run_facts by simp
  have roles: "hop_peripheral_config.wire_relay_pipe hop_peripheral_config_example \<noteq> Some 1"
    "esb_peripheral_config.self_is_relay dongle_config_example"
    "esb_peripheral_config.wire_relay_pipe dongle_config_example \<noteq> Some 1"
    by (simp_all add: hop_peripheral_config_example_def dongle_config_example_def)
  show ?thesis
    using relay_reports_reach_dongle [OF relay_run_reached pipe hid whole fed heard roles, of "\<lambda>_ w. w" "logged_sink busy_once" 100
        "(hop_peripheral_boot hop_peripheral_config_example blank_retained, esb_peripheral_boot dongle_config_example 8, (),
          sink_example, (False, []))"]
    by (simp only: relay_run_facts dongle_sink_def prod.case)
qed

end
