(* ===== verification/Device.thy ===== *)
theory Device
  imports Hop_Central Link_Peripheral Relay_Path
begin

text \<open>
  The two devices put together: what each role implements behind
  \<open>src/esb_link_internal.h\<close> and \<open>src/hop.h\<close> on the state of its own modules, as
  the \<open>role\<close> record the shared link (\<open>src/esb_link.c\<close>) runs on, and bringing the
  link up and down. NCS is a parameter; \<open>now_ms\<close> is the uptime when the event came.
\<close>

section \<open>The central\<close>

record 'r central_radio =
  put_payload :: "'r radio_write"
  start_receiver :: "'r \<Rightarrow> 'r \<times> status"
  stop_receiver :: "'r \<Rightarrow> 'r"
  flush_fifo :: "'r \<Rightarrow> 'r"

record 'r central_device =
  device_hop :: hop_central
  device_relay :: relay_central
  device_radio :: 'r
  decision_scheduled :: bool

definition central_role_start :: "'r central_radio \<Rightarrow> 'r central_device \<Rightarrow> 'r central_device \<times> status" where
  "central_role_start ncs d =
     (let (r, error) = start_receiver ncs (device_radio d) in (d\<lparr>device_radio := r\<rparr>, error))"

definition central_set_idle :: "bool \<Rightarrow> 'r central_device \<Rightarrow> 'r central_device" where
  "central_set_idle idle d = d"

definition central_role_rx_done :: "'r central_radio \<Rightarrow> link_config \<Rightarrow> u8 \<Rightarrow> 'r central_device \<Rightarrow> 'r central_device" where
  "central_role_rx_done ncs link_cfg pipes_acked d =
     (let rc = device_relay d;
          (lc, r) = esb_link_role_rx_done (put_payload ncs) link_cfg (esb_hid_relay_active rc) pipes_acked
                      (relay_link rc) (device_radio d)
      in d\<lparr>device_relay := rc\<lparr>relay_link := lc\<rparr>, device_radio := r\<rparr>)"

definition central_role_tx_succeeded :: "'r central_device \<Rightarrow> 'r central_device" where
  "central_role_tx_succeeded d = d"

definition central_role_retry_failed_tx :: "'r central_device \<Rightarrow> 'r central_device \<times> bool" where
  "central_role_retry_failed_tx d = (d, False)"

definition central_role_stop :: "'r central_device \<Rightarrow> 'r central_device" where
  "central_role_stop d = d"

definition central_note_tx_success :: "u8 \<Rightarrow> 'r central_device \<Rightarrow> 'r central_device" where
  "central_note_tx_success attempts d = d"

definition central_note_tx_failed :: "'r central_device \<Rightarrow> 'r central_device" where
  "central_note_tx_failed d = d"

text \<open>The decision work is the only one the hop engine's calls schedule.\<close>

fun central_work :: "Hop_Central.hop_call list \<Rightarrow> bool \<Rightarrow> bool" where
  "central_work [] scheduled = scheduled"
| "central_work (call # calls) scheduled = central_work calls
     (case call of Reschedule_decision \<Rightarrow> True | Cancel_decision \<Rightarrow> False | _ \<Rightarrow> scheduled)"

definition central_role ::
  "'r central_radio \<Rightarrow> hop_central_config \<Rightarrow> link_config \<Rightarrow> u32 \<Rightarrow> 'r central_device role" where
  "central_role ncs hop_cfg link_cfg now_ms = \<lparr>
     role_consume_rx = (\<lambda>pipe data rssi d.
       let (hc, consumed) = Hop_Central.hop_consume_rx hop_cfg now_ms pipe data rssi (device_hop d)
       in (d\<lparr>device_hop := hc\<rparr>, consumed)),
     role_rx_done = central_role_rx_done ncs link_cfg,
     role_note_tx_success = central_note_tx_success,
     role_tx_succeeded = central_role_tx_succeeded,
     role_note_tx_failed = central_note_tx_failed,
     role_retry_failed_tx = central_role_retry_failed_tx,
     flush_tx = (\<lambda>d. d\<lparr>device_radio := flush_fifo ncs (device_radio d)\<rparr>),
     role_start = central_role_start ncs,
     role_stop = central_role_stop,
     role_hop_start = (\<lambda>d. d\<lparr>decision_scheduled := central_work Hop_Central.hop_start (decision_scheduled d)\<rparr>),
     role_hop_stop = (\<lambda>d. d\<lparr>decision_scheduled := central_work Hop_Central.hop_stop (decision_scheduled d)\<rparr>),
     stop_rx = (\<lambda>d. d\<lparr>device_radio := stop_receiver ncs (device_radio d)\<rparr>)\<rparr>"

section \<open>The peripheral\<close>

record 'r peripheral_device =
  pd_hop :: hop_peripheral
  pd_link :: link_peripheral
  pd_transport :: esb_peripheral
  pd_radio :: 'r
  pd_keepalive_work :: bool
  pd_poll_work :: bool

definition peripheral_role_start :: "'r peripheral_device \<Rightarrow> 'r peripheral_device \<times> status" where
  "peripheral_role_start d = (d, Ok)"

definition peripheral_role_rx_done :: "u8 \<Rightarrow> 'r peripheral_device \<Rightarrow> 'r peripheral_device" where
  "peripheral_role_rx_done pipes_acked d = d"

text \<open>A refused channel is set again before the restart; \<open>set_error\<close> is the radio's answer.\<close>

definition peripheral_role_retry_failed_tx ::
  "hop_peripheral_config \<Rightarrow> status \<Rightarrow> 'r peripheral_device \<Rightarrow> 'r peripheral_device \<times> bool" where
  "peripheral_role_retry_failed_tx hop_cfg set_error d =
     (let hp = pd_hop d;
          hp = hp\<lparr>hop_peripheral.tuned := fst (apply_hop_channel (channel_pool hop_cfg) False set_error (hop_peripheral.tuned hp))\<rparr>;
          (lp, retry) = esb_link_role_retry_failed_tx (hop_link_acked hp) (pd_link d)
      in (d\<lparr>pd_hop := hp, pd_link := lp\<rparr>, retry))"

text \<open>The works the hop engine's calls schedule: the keepalive and the relay poll.\<close>

fun peripheral_work :: "hop_link_call list \<Rightarrow> bool \<times> bool \<Rightarrow> bool \<times> bool" where
  "peripheral_work [] works = works"
| "peripheral_work (call # calls) (keepalive, poll) = peripheral_work calls
     (case call of
        Reschedule_keepalive _ \<Rightarrow> (True, poll)
      | Reschedule_relay_poll _ \<Rightarrow> (keepalive, True)
      | Cancel_keepalive \<Rightarrow> (False, poll)
      | Cancel_relay_poll \<Rightarrow> (keepalive, False)
      | _ \<Rightarrow> (keepalive, poll))"

definition with_works :: "hop_link_call list \<Rightarrow> 'r peripheral_device \<Rightarrow> 'r peripheral_device" where
  "with_works calls d =
     (let (keepalive, poll) = peripheral_work calls (pd_keepalive_work d, pd_poll_work d)
      in d\<lparr>pd_keepalive_work := keepalive, pd_poll_work := poll\<rparr>)"

text \<open>The time of the last transmit event is noted where the events are; the send path reads it.\<close>

definition peripheral_role ::
  "'r ncs \<Rightarrow> ('r \<Rightarrow> 'r) \<Rightarrow> hop_peripheral_config \<Rightarrow> status \<Rightarrow> u32 \<Rightarrow> 'r peripheral_device role" where
  "peripheral_role ncs stop_radio hop_cfg set_error now_ms = \<lparr>
     role_consume_rx = (\<lambda>pipe data rssi d.
       let (hp, p, consumed) = Hop_Peripheral.hop_consume_rx hop_cfg pipe data (pd_hop d) (core (pd_transport d))
       in (d\<lparr>pd_hop := hp, pd_transport := (pd_transport d)\<lparr>core := p\<rparr>\<rparr>, consumed)),
     role_rx_done = peripheral_role_rx_done,
     role_note_tx_success = (\<lambda>attempts d. d\<lparr>pd_hop := Hop_Peripheral.hop_note_tx_success hop_cfg attempts (pd_hop d),
       pd_link := (pd_link d)\<lparr>last_tx_event_ms := now_ms\<rparr>\<rparr>),
     role_tx_succeeded = (\<lambda>d. d\<lparr>pd_link := esb_link_role_tx_succeeded (pd_link d)\<rparr>),
     role_note_tx_failed = (\<lambda>d. d\<lparr>pd_hop := Hop_Peripheral.hop_note_tx_failed hop_cfg (pd_hop d),
       pd_link := (pd_link d)\<lparr>last_tx_event_ms := now_ms\<rparr>\<rparr>),
     role_retry_failed_tx = peripheral_role_retry_failed_tx hop_cfg set_error,
     flush_tx = (\<lambda>d. d\<lparr>pd_radio := esb_flush_tx ncs (pd_radio d)\<rparr>),
     role_start = peripheral_role_start,
     role_stop = (\<lambda>d. d\<lparr>pd_link := esb_link_role_stop (pd_link d)\<rparr>),
     role_hop_start = with_works (Hop_Peripheral.hop_start hop_cfg),
     role_hop_stop = with_works Hop_Peripheral.hop_stop,
     stop_rx = (\<lambda>d. d\<lparr>pd_radio := stop_radio (pd_radio d)\<rparr>)\<rparr>"

section \<open>Up and down\<close>

text \<open>What the role promises of its works: the hop engine's start schedules them, its stop cancels
  them, and nothing else in the role does either.\<close>

locale works =
  fixes role :: "u32 \<Rightarrow> 'w role" and running :: "'w \<Rightarrow> bool"
  assumes starts: "running (role_hop_start (role now_ms) w)"
    and stops: "\<not> running (role_hop_stop (role now_ms) w)"
    and keeps_up: "running (fst (role_start (role now_ms) w)) = running w"
    and keeps_down: "running (role_stop (role now_ms) w) = running w"
      "running (stop_rx (role now_ms) w) = running w" "running (flush_tx (role now_ms) w) = running w"
    and keeps_rx: "running (fst (role_consume_rx (role now_ms) pipe data rssi w)) = running w"
      "running (role_rx_done (role now_ms) acked w) = running w"
    and keeps_tx: "running (role_note_tx_success (role now_ms) attempts w) = running w"
      "running (role_tx_succeeded (role now_ms) w) = running w"
      "running (role_note_tx_failed (role now_ms) w) = running w"
      "running (fst (role_retry_failed_tx (role now_ms) w)) = running w"

datatype link_op = Link_init status status | Link_enable status bool | Link_event esb_event

text \<open>One call or interrupt at a time, with what it answers.\<close>

definition link_op_step :: "(u32 \<Rightarrow> 'w role) \<Rightarrow> nat \<Rightarrow> u32 \<times> link_op \<Rightarrow> 'w esb_link \<Rightarrow> 'w esb_link \<times> status" where
  "link_op_step role ring_size = (\<lambda>(now_ms, op) link.
     (case op of
        Link_init clock radio \<Rightarrow> esb_link_init (role now_ms) clock radio link
      | Link_enable clock enabled \<Rightarrow> esb_link_set_enabled (role now_ms) clock enabled link
      | Link_event event \<Rightarrow> (on_esb_event (role now_ms) ring_size now_ms event link, Ok)))"

definition link_ops :: "(u32 \<Rightarrow> 'w role) \<Rightarrow> nat \<Rightarrow> (u32 \<times> link_op) list \<Rightarrow> 'w esb_link \<Rightarrow> 'w esb_link" where
  "link_ops role ring_size ops link = fold (\<lambda>op link. fst (link_op_step role ring_size op link)) ops link"

definition works_held :: "('w \<Rightarrow> bool) \<Rightarrow> 'w esb_link \<Rightarrow> bool" where
  "works_held running link \<longleftrightarrow> (running (role_state link) \<longrightarrow> hfclk_held link \<and> link_ready link)"

context works
begin

lemma drain_keeps: "running (fst (snd (snd (drain_rx (role now_ms) ring_size payloads received acked w rx)))) = running w"
proof (induction payloads arbitrary: received acked w rx)
  case (Cons payload payloads)
  then show ?case
    using keeps_rx(1) [of now_ms "rx_pipe payload" "rx_data payload" "rx_rssi payload" w]
    by (auto simp: Let_def split: prod.splits)
qed simp

lemma event_keeps:
  "running (role_state (on_esb_event (role now_ms) ring_size now_ms event link)) = running (role_state link) \<and>
   hfclk_held (on_esb_event (role now_ms) ring_size now_ms event link) = hfclk_held link \<and>
   link_ready (on_esb_event (role now_ms) ring_size now_ms event link) = link_ready link"
proof (cases event)
  case (ESB_EVENT_RX_RECEIVED payloads)
  then show ?thesis
    using drain_keeps [of now_ms ring_size payloads False 0 "role_state link" "rx_state link"]
    by (auto simp: on_esb_event_def on_rx_received_def keeps_rx split: prod.splits)
next
  case (ESB_EVENT_TX_SUCCESS attempts)
  then show ?thesis by (simp add: on_esb_event_def esb_link_mark_tx_event_def keeps_tx Let_def)
next
  case ESB_EVENT_TX_FAILED
  obtain w retry where failed: "role_retry_failed_tx (role now_ms) (role_note_tx_failed (role now_ms) (role_state link)) = (w, retry)"
    by fastforce
  then have "running w = running (role_state link)"
    using keeps_tx(3) [of now_ms "role_state link"] keeps_tx(4) [of now_ms "role_note_tx_failed (role now_ms) (role_state link)"]
    by simp
  then show ?thesis
    using ESB_EVENT_TX_FAILED failed
    by (simp add: on_esb_event_def esb_link_mark_tx_event_def keeps_down Let_def)
qed

lemma init_spec:
  assumes "esb_link_init (role now_ms) clock radio link = (link', result)"
  shows "(result = Ok \<longrightarrow> running (role_state link') \<and> hfclk_held link' \<and> link_ready link') \<and>
    (result \<noteq> Ok \<longrightarrow> running (role_state link') = running (role_state link) \<and> link_ready link' = link_ready link \<and>
      (hfclk_held link \<longrightarrow> hfclk_held link'))"
  using assms keeps_up [of now_ms "role_state link"] starts
  by (auto simp: esb_link_init_def esb_link_hfclk_acquire_def esb_link_radio_setup_def Let_def
      split: prod.splits if_splits)

lemma enable_spec:
  assumes "esb_link_set_enabled (role now_ms) clock enabled link = (link', result)"
  shows "link_ready link' = link_ready link \<and>
    (\<not> link_ready link \<longrightarrow> link' = link \<and> result = Ok) \<and>
    (link_ready link \<longrightarrow> \<not> enabled \<longrightarrow> result = Ok \<and> \<not> running (role_state link') \<and> \<not> hfclk_held link') \<and>
    (link_ready link \<longrightarrow> enabled \<longrightarrow> result = Ok \<longrightarrow> running (role_state link') \<and> hfclk_held link') \<and>
    (result \<noteq> Ok \<longrightarrow> running (role_state link') = running (role_state link) \<and> (hfclk_held link \<longrightarrow> hfclk_held link'))"
  using assms keeps_up [of now_ms "role_state link"] starts keeps_down stops
  by (auto simp: esb_link_set_enabled_def esb_link_hfclk_acquire_def esb_link_hfclk_release_def Let_def
      split: prod.splits if_splits)

lemma works_held_step:
  assumes "works_held running link" and "link_op_step role ring_size (now_ms, op) link = (link', result)"
  shows "works_held running link'"
proof (cases op)
  case (Link_init clock radio)
  then show ?thesis
    using init_spec [of now_ms clock radio link link' result] assms
    by (cases "result = Ok") (auto simp: link_op_step_def works_held_def)
next
  case (Link_enable clock enabled)
  then show ?thesis
    using enable_spec [of now_ms clock enabled link link' result] assms
    by (cases "result = Ok"; cases enabled) (auto simp: link_op_step_def works_held_def)
next
  case (Link_event event)
  then show ?thesis
    using event_keeps [of now_ms ring_size event link] assms by (auto simp: link_op_step_def works_held_def)
qed

lemma works_held_ops: "works_held running link \<Longrightarrow> works_held running (link_ops role ring_size ops link)"
proof (induction ops arbitrary: link)
  case (Cons op ops)
  then show ?case
    using works_held_step [OF Cons.prems, of ring_size "fst op" "snd op"] by (simp add: link_ops_def) (metis surjective_pairing)
qed (simp add: link_ops_def)

end

lemma central_work_start [simp]: "central_work Hop_Central.hop_start b" "\<not> central_work Hop_Central.hop_stop b"
  by (simp_all add: Hop_Central.hop_start_def Hop_Central.hop_stop_def)

interpretation central: works "\<lambda>now_ms. central_role ncs hop_cfg link_cfg now_ms" decision_scheduled
  by unfold_locales
    (auto simp: central_role_def central_role_start_def central_role_rx_done_def central_role_tx_succeeded_def
      central_role_retry_failed_tx_def central_role_stop_def central_note_tx_success_def central_note_tx_failed_def
      Let_def split: prod.splits)

lemma with_works_keeps [simp]: "pd_hop (with_works calls d) = pd_hop d"
  by (simp add: with_works_def split: prod.splits)

interpretation peripheral: works "\<lambda>now_ms. peripheral_role ncs stop_radio hop_cfg set_error now_ms" pd_keepalive_work
  by unfold_locales
    (auto simp: peripheral_role_def peripheral_role_start_def peripheral_role_rx_done_def
      peripheral_role_retry_failed_tx_def with_works_def Hop_Peripheral.hop_start_def Hop_Peripheral.hop_stop_def
      Let_def split: prod.splits)

text \<open>
  Claim C22: on the central, whatever the clock, the radio and the receiver answer and whatever
  events come in between, the hop engine's decision work is scheduled only while the link is
  ready and its crystal held. The next call returns the answer of its first step that failed and
  has then started no work; a bring-up that returns 0 has the work scheduled and the crystal held,
  and taking the link down leaves neither. Before the first bring-up enabling does nothing.
\<close>

theorem link_errors_start_nothing:
  assumes "link = link_ops (\<lambda>now_ms. central_role ncs hop_cfg link_cfg now_ms) ring_size ops (esb_link_boot d)"
    and "\<not> decision_scheduled d"
    and "link_op_step (\<lambda>now_ms. central_role ncs hop_cfg link_cfg now_ms) ring_size (now_ms, op) link = (link', result)"
  shows "(decision_scheduled (role_state link) \<longrightarrow> hfclk_held link \<and> link_ready link) \<and>
    (result \<noteq> Ok \<longrightarrow> decision_scheduled (role_state link') = decision_scheduled (role_state link)) \<and>
    (case op of
       Link_init clock radio \<Rightarrow>
         result = (if \<not> hfclk_held link \<and> clock \<noteq> Ok then clock else if radio \<noteq> Ok then radio
           else snd (start_receiver ncs (device_radio (role_state link)))) \<and>
         (result = Ok \<longrightarrow> decision_scheduled (role_state link') \<and> hfclk_held link' \<and> link_ready link')
     | Link_enable clock enabled \<Rightarrow>
         if \<not> link_ready link then link' = link \<and> result = Ok
         else if enabled then
           result = (if \<not> hfclk_held link \<and> clock \<noteq> Ok then clock
             else snd (start_receiver ncs (device_radio (role_state link)))) \<and>
           (result = Ok \<longrightarrow> decision_scheduled (role_state link') \<and> hfclk_held link')
         else result = Ok \<and> \<not> decision_scheduled (role_state link') \<and> \<not> hfclk_held link'
     | Link_event event \<Rightarrow> result = Ok \<and> decision_scheduled (role_state link') = decision_scheduled (role_state link))"
proof -
  have held: "works_held decision_scheduled link"
    unfolding assms(1) by (rule central.works_held_ops) (simp add: works_held_def esb_link_boot_def assms(2))
  have start: "snd (role_start (central_role ncs hop_cfg link_cfg now_ms) d) = snd (start_receiver ncs (device_radio d))" for d
    by (simp add: central_role_def central_role_start_def split: prod.splits)
  show ?thesis
  proof (cases op)
    case (Link_init clock radio)
    then have init: "esb_link_init (central_role ncs hop_cfg link_cfg now_ms) clock radio link = (link', result)"
      using assms(3) by (simp add: link_op_step_def)
    moreover have "result = (if \<not> hfclk_held link \<and> clock \<noteq> Ok then clock else if radio \<noteq> Ok then radio
        else snd (start_receiver ncs (device_radio (role_state link))))"
      using init start [of "role_state link"]
      by (auto simp: esb_link_init_def esb_link_hfclk_acquire_def esb_link_radio_setup_def Let_def
          split: prod.splits if_splits)
    ultimately show ?thesis
      using central.init_spec [OF init] held by (simp add: Link_init works_held_def)
  next
    case (Link_enable clock enabled)
    then have enable: "esb_link_set_enabled (central_role ncs hop_cfg link_cfg now_ms) clock enabled link = (link', result)"
      using assms(3) by (simp add: link_op_step_def)
    moreover have "link_ready link \<Longrightarrow> enabled \<Longrightarrow> result = (if \<not> hfclk_held link \<and> clock \<noteq> Ok then clock
        else snd (start_receiver ncs (device_radio (role_state link))))"
      using enable start [of "role_state link"]
      by (auto simp: esb_link_set_enabled_def esb_link_hfclk_acquire_def Let_def split: prod.splits if_splits)
    ultimately show ?thesis
      using central.enable_spec [OF enable] held by (simp add: Link_enable works_held_def)
  next
    case (Link_event event)
    then show ?thesis
      using central.event_keeps [of ncs hop_cfg link_cfg now_ms ring_size event link] assms(3) held
      by (auto simp: link_op_step_def works_held_def)
  qed
qed

text \<open>A central whose receiver starts, and a clock that fails when it is enabled again.\<close>

definition central_radio_example :: "unit central_radio" where
  "central_radio_example = \<lparr>put_payload = take_all, start_receiver = (\<lambda>r. (r, Ok)), stop_receiver = (\<lambda>r. r), flush_fifo = (\<lambda>r. r)\<rparr>"

definition central_device_example :: "unit central_device" where
  "central_device_example = \<lparr>device_hop = hop_central_boot hop_config_example, device_relay = relay_central_boot link_example,
     device_radio = (), decision_scheduled = False\<rparr>"

theorem link_errors_start_nothing_witness:
  "let role = \<lambda>now_ms. central_role central_radio_example hop_config_example link_example now_ms;
       link = link_ops role 16 [(0, Link_init Ok Ok), (5, Link_enable Ok False)] (esb_link_boot central_device_example);
       (link', result) = link_op_step role 16 (9, Link_enable (Err EIO) True) link
   in result = Err EIO \<and> decision_scheduled (role_state link') = decision_scheduled (role_state link)"
proof -
  define role where "role = (\<lambda>now_ms. central_role central_radio_example hop_config_example link_example now_ms)"
  define link where "link = link_ops role 16 [(0, Link_init Ok Ok), (5, Link_enable Ok False)] (esb_link_boot central_device_example)"
  obtain link' result where step: "link_op_step role 16 (9, Link_enable (Err EIO) True) link = (link', result)"
    by fastforce
  have down: "link_ready link" "\<not> hfclk_held link"
    by (simp_all add: link_def role_def link_ops_def link_op_step_def esb_link_init_def esb_link_set_enabled_def esb_link_boot_def
        esb_link_hfclk_acquire_def esb_link_hfclk_release_def esb_link_radio_setup_def central_role_def central_role_start_def
        central_radio_example_def central_device_example_def Let_def)
  have "\<not> decision_scheduled central_device_example"
    by (simp add: central_device_example_def)
  from link_errors_start_nothing [OF link_def [unfolded role_def] this step [unfolded role_def]] down
  have "result = Err EIO" "decision_scheduled (role_state link') = decision_scheduled (role_state link)"
    by simp_all
  then show ?thesis
    using step by (simp add: role_def link_def)
qed

section \<open>A packet through the link\<close>

text \<open>With the ring empty and its thread waiting, one packet's interrupt and the thread's pass over
  it have the effect of hearing it at once.\<close>

lemma event_is_heard:
  assumes "rx_state link = rx_path_boot" and "1 \<le> ring_size"
    and "on_esb_event (peripheral_role ncs stop_radio hop_cfg set_error now_ms) ring_size now_ms
      (ESB_EVENT_RX_RECEIVED [payload]) link = link'"
    and "rx_thread_release (rx_thread_consume (rx_thread_wake (rx_state link'))) = (rx, packet)"
  shows "dongle_hear hop_cfg cfg forward callback hid loss (rx_pipe payload) (now_ms, rx_data payload)
      (pd_hop (role_state link), pd_transport (role_state link), wire, state) =
    (pd_hop (role_state link'), case packet of
        None \<Rightarrow> (pd_transport (role_state link'), wire, state)
      | Some packet \<Rightarrow> esb_peripheral_on_rx cfg forward (esb_hid_relay_deliver (Some callback) hid loss now_ms)
          (packet_pipe packet) (packet_data packet) (pd_transport (role_state link'), wire, state))"
proof -
  obtain hp p consumed where hop: "Hop_Peripheral.hop_consume_rx hop_cfg (rx_pipe payload) (rx_data payload) (pd_hop (role_state link))
      (core (pd_transport (role_state link))) = (hp, p, consumed)"
    by (metis surj_pair)
  define d where "d = (role_state link)\<lparr>pd_hop := hp, pd_transport := (pd_transport (role_state link))\<lparr>core := p\<rparr>\<rparr>"
  have role: "role_consume_rx (peripheral_role ncs stop_radio hop_cfg set_error now_ms) (rx_pipe payload) (rx_data payload)
      (rx_rssi payload) (role_state link) = (d, consumed)"
    "role_rx_done (peripheral_role ncs stop_radio hop_cfg set_error now_ms) acked d = d" for acked
    by (simp_all add: peripheral_role_def peripheral_role_rx_done_def hop d_def)
  have link': "link' = link\<lparr>role_state := d, rx_state := if consumed then rx_path_boot
      else rx_path_boot\<lparr>rx_ring := [\<lparr>packet_pipe = rx_pipe payload, packet_data = rx_data payload\<rparr>], rx_sem := True\<rparr>\<rparr>"
    using assms(3) [symmetric] assms(1,2)
    by (cases consumed) (simp_all add: on_esb_event_def on_rx_received_def role Let_def ring_used_def rx_path_boot_def)
  have packet: "packet = (if consumed then None else Some \<lparr>packet_pipe = rx_pipe payload, packet_data = rx_data payload\<rparr>)"
    using assms(4)
    by (cases consumed) (auto simp: link' rx_path_boot_def rx_thread_wake_def rx_thread_consume_def rx_thread_release_def)
  show ?thesis
    by (simp add: dongle_hear_def hop packet link' d_def)
qed

end
