(* ===== verification/Sleep.thy ===== *)
theory Sleep
  imports Device
begin

text \<open>
  A peripheral's power states end to end: the activity listener of \<open>src/esb_sleep.c\<close> driving
  \<open>esb_link_set_enabled\<close> (\<open>src/esb_link.c\<close>) and \<open>esb_link_set_idle\<close>
  (\<open>src/esb_link_peripheral.c\<close>) on the device of \<open>Device\<close>, with the crystal's release
  work in between.
\<close>

text \<open>The crystal is one variable of \<open>src/esb_link_hfclk.c\<close>: the peripheral keeps it in its link's
  record, and the shared code runs on that value.\<close>

definition peripheral_set_enabled ::
  "'r ncs \<Rightarrow> ('r \<Rightarrow> 'r) \<Rightarrow> hop_peripheral_config \<Rightarrow> bool \<Rightarrow> 'r peripheral_device esb_link \<Rightarrow>
   'r peripheral_device esb_link \<times> status" where
  "peripheral_set_enabled ncs stop_radio hop_cfg enabled link =
     (let d = role_state link;
          (link, result) = esb_link_set_enabled (peripheral_role ncs stop_radio hop_cfg Ok 0) (hfclk_answer ncs (pd_radio d)) enabled
             (link\<lparr>hfclk_held := hfclk_on (pd_link d)\<rparr>);
          d = role_state link
      in (link\<lparr>role_state := d\<lparr>pd_link := (pd_link d)\<lparr>hfclk_on := hfclk_held link\<rparr>\<rparr>\<rparr>, result))"

definition with_link :: "(link_peripheral \<Rightarrow> link_peripheral) \<Rightarrow> 'r peripheral_device esb_link \<Rightarrow> 'r peripheral_device esb_link" where
  "with_link f link = link\<lparr>role_state := (role_state link)\<lparr>pd_link := f (pd_link (role_state link))\<rparr>\<rparr>"

definition power_call ::
  "'r ncs \<Rightarrow> ('r \<Rightarrow> 'r) \<Rightarrow> hop_peripheral_config \<Rightarrow> sleep_call \<Rightarrow> 'r peripheral_device esb_link \<Rightarrow> 'r peripheral_device esb_link" where
  "power_call ncs stop_radio hop_cfg call link =
     (case call of
        Set_enabled enabled \<Rightarrow> fst (peripheral_set_enabled ncs stop_radio hop_cfg enabled link)
      | Set_idle idle \<Rightarrow> with_link (esb_link_set_idle ncs (pd_radio (role_state link)) idle) link)"

datatype power_op = Activity zmk_activity | Release_work

definition power_step ::
  "'r ncs \<Rightarrow> ('r \<Rightarrow> 'r) \<Rightarrow> hop_peripheral_config \<Rightarrow> power_op \<Rightarrow> bool \<times> 'r peripheral_device esb_link \<Rightarrow>
   bool \<times> 'r peripheral_device esb_link" where
  "power_step ncs stop_radio hop_cfg op = (\<lambda>(asleep, link).
     (case op of
        Activity activity \<Rightarrow>
          let (asleep, calls) = esb_sleep_listener activity asleep
          in (asleep, fold (power_call ncs stop_radio hop_cfg) calls link)
      | Release_work \<Rightarrow> (asleep, with_link (hfclk_release_work_fn ncs (pd_radio (role_state link))) link)))"

definition last_activity :: "power_op list \<Rightarrow> zmk_activity" where
  "last_activity ops = fold (\<lambda>op latest. case op of Activity activity \<Rightarrow> activity | Release_work \<Rightarrow> latest) ops ZMK_ACTIVITY_ACTIVE"

text \<open>Down: no keepalive, poll or restart work scheduled, crystal off. Up: the works run; the crystal is held
  unless the gate may release it.\<close>

definition radio_down :: "'r peripheral_device \<Rightarrow> bool" where
  "radio_down d \<longleftrightarrow> \<not> pd_keepalive_work d \<and> \<not> pd_poll_work d \<and> \<not> tx_restart_work (pd_link d) \<and> \<not> hfclk_on (pd_link d)"

definition radio_up :: "hop_peripheral_config \<Rightarrow> 'r peripheral_device \<Rightarrow> bool" where
  "radio_up hop_cfg d \<longleftrightarrow> pd_keepalive_work d \<and> pd_poll_work d = hop_peripheral_config.self_is_relay hop_cfg \<and>
     (hfclk_gating (pd_link d) \<or> hfclk_on (pd_link d))"

lemma works_after:
  "pd_keepalive_work (with_works (Hop_Peripheral.hop_start cfg) d)"
  "pd_poll_work (with_works (Hop_Peripheral.hop_start cfg) d) = (pd_poll_work d \<or> hop_peripheral_config.self_is_relay cfg)"
  "\<not> pd_keepalive_work (with_works Hop_Peripheral.hop_stop d)" "\<not> pd_poll_work (with_works Hop_Peripheral.hop_stop d)"
  "pd_link (with_works calls d) = pd_link d" "pd_radio (with_works calls d) = pd_radio d"
  by (simp_all add: with_works_def Hop_Peripheral.hop_start_def Hop_Peripheral.hop_stop_def split: prod.splits)

lemma disable_down:
  assumes "link_ready link"
  shows "radio_down (role_state (fst (peripheral_set_enabled ncs stop_radio cfg False link)))"
    "link_ready (fst (peripheral_set_enabled ncs stop_radio cfg False link))"
  using assms
  by (simp_all add: peripheral_set_enabled_def esb_link_set_enabled_def peripheral_role_def radio_down_def
      esb_link_role_stop_def esb_link_hfclk_release_def works_after Let_def)

lemma enable_up:
  assumes "link_ready link" "hfclk_answer ncs (pd_radio (role_state link)) = Ok" "radio_down (role_state link)"
  shows "radio_up cfg (role_state (fst (peripheral_set_enabled ncs stop_radio cfg True link)))"
    "hfclk_on (pd_link (role_state (fst (peripheral_set_enabled ncs stop_radio cfg True link))))"
  using assms
  by (auto simp: peripheral_set_enabled_def esb_link_set_enabled_def peripheral_role_def radio_up_def radio_down_def
      esb_link_hfclk_acquire_def peripheral_role_start_def works_after Let_def)

lemma enable_ready: "link_ready link \<Longrightarrow> link_ready (fst (peripheral_set_enabled ncs stop_radio cfg enabled link))"
  by (auto simp: peripheral_set_enabled_def esb_link_set_enabled_def Let_def split: prod.splits if_splits)

definition power_inv :: "'r ncs \<Rightarrow> hop_peripheral_config \<Rightarrow> zmk_activity \<Rightarrow> bool \<times> 'r peripheral_device esb_link \<Rightarrow> bool" where
  "power_inv ncs cfg latest = (\<lambda>(asleep, link).
     link_ready link \<and> (asleep \<longleftrightarrow> latest = ZMK_ACTIVITY_SLEEP) \<and> (asleep \<longrightarrow> radio_down (role_state link)) \<and>
     ((\<forall>r. hfclk_answer ncs r = Ok) \<longrightarrow> \<not> asleep \<longrightarrow> radio_up cfg (role_state link) \<and>
       (latest = ZMK_ACTIVITY_ACTIVE \<longrightarrow> hfclk_on (pd_link (role_state link)) \<and> \<not> hfclk_gating (pd_link (role_state link)))))"

lemma with_link_simps [simp]:
  "link_ready (with_link f link) = link_ready link"
  "pd_link (role_state (with_link f link)) = f (pd_link (role_state link))"
  "pd_keepalive_work (role_state (with_link f link)) = pd_keepalive_work (role_state link)"
  "pd_poll_work (role_state (with_link f link)) = pd_poll_work (role_state link)"
  by (simp_all add: with_link_def)

lemma set_idle_up:
  assumes "hfclk_answer ncs (pd_radio (role_state link)) = Ok" and "radio_up cfg (role_state link)"
  shows "radio_up cfg (role_state (power_call ncs stop_radio cfg (Set_idle idle) link))"
    "\<not> idle \<Longrightarrow> hfclk_on (pd_link (role_state (power_call ncs stop_radio cfg (Set_idle idle) link))) \<and>
      \<not> hfclk_gating (pd_link (role_state (power_call ncs stop_radio cfg (Set_idle idle) link)))"
  using assms
  by (auto simp: power_call_def esb_link_set_idle_def reschedule_release_def radio_up_def esb_link_hfclk_acquire_def Let_def)

lemma set_idle_ready [simp]: "link_ready (power_call ncs stop_radio cfg (Set_idle idle) link) = link_ready link"
  by (simp add: power_call_def)

lemma power_inv_awake:
  assumes "power_inv ncs cfg latest (asleep, link)" and "activity \<noteq> ZMK_ACTIVITY_SLEEP"
  shows "power_inv ncs cfg activity (power_step ncs stop_radio cfg (Activity activity) (asleep, link))"
proof -
  define link1 where "link1 = (if asleep then power_call ncs stop_radio cfg (Set_enabled True) link else link)"
  define idle where "idle = (activity = ZMK_ACTIVITY_IDLE)"
  have step: "power_step ncs stop_radio cfg (Activity activity) (asleep, link) =
      (False, power_call ncs stop_radio cfg (Set_idle idle) link1)"
    using assms(2) by (cases activity) (auto simp: power_step_def esb_sleep_listener_def link1_def idle_def)
  have ready: "link_ready link1"
    using assms(1) enable_ready [of link ncs stop_radio cfg True]
    by (cases asleep) (simp_all add: link1_def power_inv_def power_call_def)
  have up: "radio_up cfg (role_state link1)" if "\<forall>r. hfclk_answer ncs r = Ok"
    using assms(1) that enable_up [where link = link and ncs = ncs and cfg = cfg and stop_radio = stop_radio] by (auto simp: link1_def power_inv_def power_call_def)
  have awake: "radio_up cfg (role_state (power_call ncs stop_radio cfg (Set_idle idle) link1))"
    "\<not> idle \<Longrightarrow> hfclk_on (pd_link (role_state (power_call ncs stop_radio cfg (Set_idle idle) link1))) \<and>
      \<not> hfclk_gating (pd_link (role_state (power_call ncs stop_radio cfg (Set_idle idle) link1)))"
    if "\<forall>r. hfclk_answer ncs r = Ok"
    by (rule set_idle_up [OF that [rule_format] up [OF that]], assumption?)+
  have idle: "activity = ZMK_ACTIVITY_ACTIVE \<Longrightarrow> \<not> idle"
    by (simp add: idle_def)
  show ?thesis
    unfolding step power_inv_def prod.case set_idle_ready
    using ready assms(2) awake(1) awake(2) [OF _ idle] by (intro conjI impI) (simp_all del: One_nat_def)
qed

lemma power_inv_sleep:
  assumes "power_inv ncs cfg latest (asleep, link)"
  shows "power_inv ncs cfg ZMK_ACTIVITY_SLEEP (power_step ncs stop_radio cfg (Activity ZMK_ACTIVITY_SLEEP) (asleep, link))"
  using assms disable_down [of link ncs stop_radio cfg]
  by (simp add: power_step_def esb_sleep_listener_def power_inv_def power_call_def)

lemma power_inv_release:
  assumes "power_inv ncs cfg latest (asleep, link)"
  shows "power_inv ncs cfg latest (power_step ncs stop_radio cfg Release_work (asleep, link))"
  using assms
  by (auto simp: power_step_def power_inv_def radio_down_def radio_up_def hfclk_release_work_fn_def
      hop_policy_hfclk_release_allowed_def reschedule_release_def esb_link_hfclk_release_def Let_def)

lemma power_inv_run:
  "power_inv ncs cfg ZMK_ACTIVITY_ACTIVE state \<Longrightarrow>
   power_inv ncs cfg (last_activity ops) (fold (power_step ncs stop_radio cfg) ops state)"
proof (induction ops rule: rev_induct)
  case (snoc op ops)
  obtain asleep link where state: "fold (power_step ncs stop_radio cfg) ops state = (asleep, link)" by fastforce
  show ?case
    using snoc power_inv_awake [of ncs cfg "last_activity ops" asleep link] power_inv_sleep [of ncs cfg "last_activity ops" asleep link]
      power_inv_release [of ncs cfg "last_activity ops" asleep link]
    by (cases op) (auto simp: last_activity_def state, metis)
qed (simp add: last_activity_def)

lemma release_when_off:
  "\<not> hfclk_on lp \<Longrightarrow> \<exists>again. hfclk_release_work_fn ncs r lp = lp\<lparr>hfclk_release_work := again\<rparr>"
  by (cases lp) (auto simp: hfclk_release_work_fn_def reschedule_release_def esb_link_hfclk_release_def Let_def)


text \<open>Idle, the crystal released, asleep.\<close>

definition power_example :: "tx_payload list peripheral_device esb_link" where
  "power_example = (esb_link_boot \<lparr>pd_hop = hop_peripheral_boot hop_peripheral_config_example blank_retained,
     pd_link = (link_peripheral_boot 8 3 600)\<lparr>hfclk_on := True\<rparr>, pd_transport = esb_peripheral_boot dongle_config_example 8,
     pd_radio = [], pd_keepalive_work = True, pd_poll_work = False\<rparr>)\<lparr>link_ready := True\<rparr>"


end
