(* ===== verification/System.thy ===== *)
theory System
  imports Central Peripheral Batch Hop_Central Hop_Peripheral
begin

text \<open>
  Where the components meet: the packets a peripheral sends at the central that ingests them,
  and the control packets of the central at the peripheral that adopts them. The definitions
  here are specifications and runs, not code.
\<close>

section \<open>A peripheral's keys\<close>

text \<open>The positions held down after a run of events.\<close>

fun keys_down :: "event list \<Rightarrow> nat set \<Rightarrow> nat set" where
  "keys_down [] down = down"
| "keys_down (event # events) down = keys_down events
     (case event of
        Key_position p pressed \<Rightarrow>
          if ESB_KEEPALIVE_POSITION_COUNT \<le> unat p then down
          else if pressed then insert (unat p) down else down - {unat p}
      | _ \<Rightarrow> down)"

definition peripheral_events :: "zmk_abi \<Rightarrow> nat \<Rightarrow> event list \<Rightarrow> peripheral \<Rightarrow> peripheral" where
  "peripheral_events abi wire_size events p =
     fold (\<lambda>event p. fst (peripheral_encode_event abi wire_size event p)) events p"

definition peripheral_ok :: "peripheral \<Rightarrow> bool" where
  "peripheral_ok p \<longleftrightarrow> length (pressed_positions p) = ESB_KEEPALIVE_BITMAP_BYTES \<and> length (held_input_keys p) < 256"

lemma length_note_event [simp]: "length (peripheral_input_note_event event keys) = length keys"
  by (auto simp: peripheral_input_note_event_def held_entry_add_def held_entry_remove_def Let_def
      split: event.split option.split)

lemma bitmap_set_out: "ESB_KEEPALIVE_POSITION_COUNT \<le> p \<Longrightarrow> esb_keepalive_bitmap_set bitmap p pressed = bitmap"
  by (simp add: esb_keepalive_bitmap_set_def)

lemma encode_event_keys:
  "peripheral_ok p \<Longrightarrow> peripheral_ok (fst (peripheral_encode_event abi wire_size event p)) \<and>
    pressed_set (pressed_positions (fst (peripheral_encode_event abi wire_size event p))) =
      keys_down [event] (pressed_set (pressed_positions p))"
  by (cases event)
    (auto simp: peripheral_ok_def peripheral_encode_event_def peripheral_note_key_event_def
      peripheral_sensor_event_to_total_def pressed_set_update bitmap_set_out ESB_KEEPALIVE_BITMAP_BYTES_def
      Let_def not_le split: if_splits)

lemma keys_down_Cons: "keys_down (event # events) down = keys_down events (keys_down [event] down)"
  by simp

lemma peripheral_events_keys:
  "peripheral_ok p \<Longrightarrow> peripheral_ok (peripheral_events abi wire_size events p) \<and>
    pressed_set (pressed_positions (peripheral_events abi wire_size events p)) =
      keys_down events (pressed_set (pressed_positions p))"
proof (induction events arbitrary: p)
  case Nil
  then show ?case by (simp add: peripheral_events_def)
next
  case (Cons event events)
  define p1 where "p1 = fst (peripheral_encode_event abi wire_size event p)"
  have "peripheral_events abi wire_size (event # events) p = peripheral_events abi wire_size events p1"
    by (simp add: peripheral_events_def p1_def)
  then show ?case
    unfolding keys_down_Cons [of event events]
    using Cons.IH [of p1] encode_event_keys [OF Cons.prems, of abi wire_size event] by (simp add: p1_def)
qed

lemma peripheral_boot_ok:
  "keys_max < 256 \<Longrightarrow> peripheral_ok (peripheral_boot config keys_max) \<and>
    pressed_set (pressed_positions (peripheral_boot config keys_max)) = {}"
  by (simp add: peripheral_ok_def peripheral_boot_def pressed_set_blank)

lemma snapshot_of_ok:
  assumes "peripheral_ok p" and "length motion_totals < 256"
  shows "snapshot_ok (peripheral_snapshot config state_of_charge state link_cost motion_totals p)"
proof -
  have "length (peripheral_input_held_keys (held_input_keys p)) \<le> length (held_input_keys p)"
    by (simp add: peripheral_input_held_keys_def)
  then show ?thesis
    using assms by (simp add: peripheral_ok_def snapshot_ok_def peripheral_snapshot_def)
qed

lemma pressed_set_take:
  assumes "take ESB_KEEPALIVE_BITMAP_BYTES bitmap = bitmap'" and "length bitmap' = ESB_KEEPALIVE_BITMAP_BYTES"
  shows "pressed_set bitmap = pressed_set bitmap'"
proof -
  have "esb_keepalive_bitmap_get bitmap p = esb_keepalive_bitmap_get bitmap' p" for p
    unfolding esb_keepalive_bitmap_get_def assms(1) [symmetric]
    by (auto simp: keepalive_layout)
  then show ?thesis by (simp add: pressed_set_def)
qed

text \<open>What the keepalive of a peripheral says at the central.\<close>

lemma keepalive_of_peripheral:
  assumes "peripheral_ok p" and "length motion_totals < 256"
    and "keepalive = peripheral_keepalive_fill config state_of_charge room state link_cost motion_totals p"
    and "keepalive \<noteq> []"
  shows "esb_keepalive_matches keepalive (length keepalive) \<and> 14 \<le> length keepalive \<and>
    pressed_set (esb_keepalive_bitmap keepalive) = pressed_set (pressed_positions p)"
proof -
  define snapshot where "snapshot = peripheral_snapshot config state_of_charge state link_cost motion_totals p"
  have enc: "keepalive = esb_keepalive_encode room snapshot"
    using assms(3) by (simp add: peripheral_keepalive_fill_def snapshot_def)
  have ok: "snapshot_ok snapshot"
    unfolding snapshot_def by (rule snapshot_of_ok [OF assms(1,2)])
  have "take ESB_KEEPALIVE_BITMAP_BYTES (esb_keepalive_bitmap keepalive) = pressed_positions p"
    using encode_bitmap [OF ok enc assms(4)] by (simp add: snapshot_def peripheral_snapshot_def)
  from pressed_set_take [OF this] show ?thesis
    using encode_matches [OF ok enc assms(4)] encode_offsets(1) [OF ok enc assms(4)] assms(1)
    by (simp add: peripheral_ok_def)
qed

section \<open>The central's queue\<close>

lemma central_handle_all_append:
  "central_handle_all config (xs @ ys) c =
     (let (c, calls) = central_handle_all config xs c; (c, later) = central_handle_all config ys c
      in (c, calls @ later))"
  by (induction xs arbitrary: c) (auto simp: split_beta Let_def)

lemma update_input_frame [simp]:
  "tracked_positions (fst (update_input pipe f c)) = tracked_positions c"
  "central_event_msgq (fst (update_input pipe f c)) = central_event_msgq c"
  by (simp_all add: update_input_def split_beta)

section \<open>Runs of packets\<close>

text \<open>Packets ingested one after another, each at its time, and events delivered so.\<close>

fun ingest_packets ::
  "zmk_abi \<Rightarrow> central_config \<Rightarrow> nat \<Rightarrow> (u32 \<times> bytes) list \<Rightarrow> central \<Rightarrow> central \<times> zmk_call list" where
  "ingest_packets abi config pipe [] c = (c, [])"
| "ingest_packets abi config pipe ((now, wire) # packets) c =
     (let (c, calls) = central_ingest_packet abi config now pipe wire c;
          (c, later) = ingest_packets abi config pipe packets c
      in (c, calls @ later))"

fun deliver_inputs :: "nat \<Rightarrow> (u32 \<times> event) list \<Rightarrow> central \<Rightarrow> central \<times> zmk_call list" where
  "deliver_inputs pipe [] c = (c, [])"
| "deliver_inputs pipe ((now, event) # events) c =
     (let (c, calls) = update_input pipe (central_input_deliver_event now pipe event) c;
          (c, later) = deliver_inputs pipe events c
      in (c, calls @ later))"

lemma deliver_inputs_append:
  "deliver_inputs pipe (xs @ ys) c =
     (let (c, calls) = deliver_inputs pipe xs c; (c, later) = deliver_inputs pipe ys c in (c, calls @ later))"
  by (induction xs arbitrary: c) (auto simp: split_beta Let_def)

lemma ingest_events_deliver:
  assumes "\<forall>event \<in> set (wire_events abi data). is_Input_event event"
  shows "central_ingest_events abi config now pipe data c =
    deliver_inputs pipe (map (Pair now) (wire_events abi data)) c"
  using assms
proof (induction abi data arbitrary: c rule: wire_events.induct)
  case (1 abi data)
  show ?case
  proof (cases "esb_wire_decode_event abi data")
    case None
    then show ?thesis
      by (simp add: wire_events.simps [of abi data] central_ingest_events.simps [of abi config now pipe data])
  next
    case (Some decoded)
    obtain event consumed where decoded: "decoded = (event, consumed)" by fastforce
    have "data \<noteq> []"
      using Some by (auto simp: esb_wire_decode_event_def)
    moreover have "is_Input_event event" "\<forall>event \<in> set (wire_events abi (drop consumed data)). is_Input_event event"
      using "1.prems" Some decoded by (simp_all add: wire_events.simps [of abi data])
    moreover from this have "event_type abi event = input_tag abi"
      by (cases event) auto
    ultimately show ?thesis
      using "1.IH" [OF Some decoded [symmetric]] Some decoded
      by (simp add: wire_events.simps [of abi data] central_ingest_events.simps [of abi config now pipe data])
  qed
qed

lemma ingest_input_packet:
  assumes "abi_ok abi" and "wire \<noteq> []" and "hd wire = input_tag abi"
    and "\<forall>event \<in> set (wire_events abi wire). is_Input_event event"
  shows "central_ingest_packet abi config now pipe wire c = deliver_inputs pipe (map (Pair now) (wire_events abi wire)) c"
proof -
  have "wire ! 0 < ESB_RELAY_POLL_TAG"
    using assms(1-3) by (simp add: abi_ok_def hd_conv_nth)
  then have "wire ! 0 \<noteq> ESB_HOST_INDICATORS_TAG" "wire ! 0 \<noteq> ESB_KEEPALIVE_TAG"
    by (auto simp: ESB_RELAY_POLL_TAG_def ESB_HOST_INDICATORS_TAG_def ESB_KEEPALIVE_TAG_def)
  then show ?thesis
    using ingest_events_deliver [OF assms(4)]
    by (simp add: central_ingest_packet_def esb_is_host_indicators_def esb_keepalive_matches_def)
qed

lemma ingest_packets_deliver:
  assumes "abi_ok abi" and "length stamps = length sends"
    and "\<forall>(wire, acked) \<in> set sends. wire \<noteq> [] \<and> hd wire = input_tag abi"
    and "\<forall>event \<in> set (packet_events abi sends). is_Input_event event"
  shows "\<exists>stamped. map snd stamped = packet_events abi sends \<and>
    ingest_packets abi config pipe (zip stamps (map fst sends)) c = deliver_inputs pipe stamped c"
  using assms(2-)
proof (induction stamps sends arbitrary: c rule: list_induct2)
  case Nil
  then show ?case by simp
next
  case (Cons now stamps packet sends)
  obtain wire acked where packet: "packet = (wire, acked)" by fastforce
  have one: "central_ingest_packet abi config now pipe wire c =
      deliver_inputs pipe (map (Pair now) (wire_events abi wire)) c" for c
    by (rule ingest_input_packet [OF assms(1)]) (use Cons.prems packet in auto)
  obtain c1 calls where c1: "deliver_inputs pipe (map (Pair now) (wire_events abi wire)) c = (c1, calls)"
    by fastforce
  have "\<exists>stamped. map snd stamped = packet_events abi sends \<and>
      ingest_packets abi config pipe (zip stamps (map fst sends)) c1 = deliver_inputs pipe stamped c1"
    by (rule Cons.IH) (use Cons.prems packet in auto)
  then obtain stamped where "map snd stamped = packet_events abi sends"
    "ingest_packets abi config pipe (zip stamps (map fst sends)) c1 = deliver_inputs pipe stamped c1"
    by blast
  then show ?case
    by (intro exI [of _ "map (Pair now) (wire_events abi wire) @ stamped"])
      (simp add: packet one c1 deliver_inputs_append comp_def)
qed

section \<open>Control packets at the peripheral\<close>

lemma mask_packet_consumed:
  assumes "pool_ok (channel_pool config)" and "1 < HOP_COUNT (channel_pool config)"
    and "length hop_mask = ESB_HOP_MASK_BYTES (channel_pool config)"
  shows "Hop_Peripheral.hop_consume_rx config pipe (esb_mask_update (channel_pool config) hop_mask) hp p =
    (hp\<lparr>staged_mask := latch_stage hop_mask (staged_mask hp)\<rparr>, p, True)"
proof -
  define packet where "packet = esb_mask_update (channel_pool config) hop_mask"
  have len: "length packet = ESB_MASK_UPDATE_LENGTH (channel_pool config)" "packet ! 0 = ESB_MASK_UPDATE_TAG"
    "drop 1 packet = hop_mask"
    using assms(3) by (simp_all add: packet_def esb_mask_update_def ESB_MASK_UPDATE_LENGTH_def)
  have "HOP_COUNT (channel_pool config) < 255"
    using assms(1) by (simp add: pool_ok_def)
  then have "ESB_MASK_UPDATE_LENGTH (channel_pool config) < 256"
    unfolding ESB_MASK_UPDATE_LENGTH_def ESB_HOP_MASK_BYTES_def by linarith
  then have "(of_nat (length packet) :: u8) \<noteq> 0"
    using unat_of_nat_u8 [of "length packet"] len(1)
    by (auto simp: ESB_MASK_UPDATE_LENGTH_def)
  then show ?thesis
    using len assms(2,3)
    by (simp add: packet_def [symmetric] Hop_Peripheral.hop_consume_rx_def esb_has_beacon_tag_def esb_has_mask_update_tag_def
        ESB_BEACON_TAG_def ESB_MASK_UPDATE_TAG_def consume_mask_update_def)
qed

lemma beacon_packet_consumed:
  assumes "length (beacon_peers beacon) = beacon_peer_count (channel_pool config)"
    and "beacon_peer_count (channel_pool config) \<le> 8"
    and "Hop_Peripheral.hop_consume_rx config pipe (beacon_bytes beacon) hp p = (hp', p', consumed)"
  shows "beacon_epoch hp' = beacon_epoch_of beacon \<and> staged_mask hp' = staged_mask hp \<and>
    adopted_epoch hp' = adopted_epoch hp \<and> tuned hp' = tuned hp \<and>
    p' = peripheral_hid_state_store (beacon_modifiers beacon) (beacon_indicators beacon) p"
proof -
  have len: "length (beacon_bytes beacon) = ESB_BEACON_LENGTH (channel_pool config)"
    by (rule length_beacon_bytes [OF assms(1)])
  have "ESB_BEACON_LENGTH (channel_pool config) < 256" "0 < ESB_BEACON_LENGTH (channel_pool config)"
    using assms(2) by (simp_all add: ESB_BEACON_LENGTH_def)
  then have "(of_nat (length (beacon_bytes beacon)) :: u8) \<noteq> 0"
    using unat_of_nat_u8 [of "length (beacon_bytes beacon)"] len by auto
  then show ?thesis
    using assms(3) len
    by (auto simp: Hop_Peripheral.hop_consume_rx_def beacon_tag_bytes consume_beacon_def beacon_of_bytes_bytes [OF assms(1)] Let_def)
qed

lemma adopt_new_epoch:
  assumes "1 < HOP_COUNT (channel_pool config)" and "beacon_epoch hp \<noteq> adopted_epoch hp"
    and "latch_pending (staged_mask hp) = Some (slot, hop_mask)"
  shows "Hop_Peripheral.active_mask (fst (keepalive_work_fn config set_error hp)) = hop_mask \<and>
    hop_index (Hop_Peripheral.tuned (fst (keepalive_work_fn config set_error hp))) =
      hop_policy_channel_for_epoch_masked (ucast (beacon_epoch hp)) hop_mask (HOP_COUNT (channel_pool config))"
  using assms
  by (auto simp: keepalive_work_fn_def settle_link_state_def adopt_epoch_def adopt_staged_mask_def tune_to_def
      clear_window_attempts_def Let_def split_beta)

text \<open>A peripheral with a battery and no encoder.\<close>

definition peripheral_config_example :: peripheral_config where
  "peripheral_config_example = \<lparr>battery_reporting = True, keymap_sensors = 0, command_size = 4, command_queue_size = 4\<rparr>"

end
