(* ===== verification/Hid_Path.thy ===== *)
theory Hid_Path
  imports System Hid_State Wire_Transports
begin

text \<open>
  HID state from the central to what a keymap on a peripheral reads: the pass of
  \<open>src/hid_state_central.c\<close>, the beacon it stages over the radio or the wire, and the
  peripheral that hears it (\<open>src/hop_peripheral.c\<close>, \<open>src/wire_peripheral.c\<close>,
  \<open>src/peripheral.c\<close>).
\<close>

lemma beacon_on_wire:
  assumes "length (beacon_peers beacon) = beacon_peer_count (wp_pool cfg)" and "beacon_peer_count (wp_pool cfg) \<le> 8"
  shows "wp_core (wire_peripheral_on_frame cfg (beacon_bytes beacon) wp) =
    peripheral_hid_state_store (beacon_modifiers beacon) (beacon_indicators beacon) (wp_core wp)"
proof -
  have len: "length (beacon_bytes beacon) = ESB_BEACON_LENGTH (wp_pool cfg)"
    by (rule length_beacon_bytes [OF assms(1)])
  have "ESB_BEACON_LENGTH (wp_pool cfg) < 256" "0 < ESB_BEACON_LENGTH (wp_pool cfg)"
    using assms(2) by (simp_all add: ESB_BEACON_LENGTH_def)
  then have "(of_nat (length (beacon_bytes beacon)) :: u8) \<noteq> 0"
    using unat_of_nat_u8 [of "length (beacon_bytes beacon)"] len by auto
  then show ?thesis
    using len by (simp add: wire_peripheral_on_frame_def wire_peripheral_consume_beacon_def beacon_tag_bytes
        beacon_of_bytes_bytes [OF assms(1)] Let_def)
qed

text \<open>
  Claim C20: a pass over the HID state tells a pipe that is in reach and does not know it with
  one beacon, and whoever hears it, over the radio or over the wire, reads exactly the central's
  modifiers and indicators; the next pass over the same state tells that pipe nothing.
\<close>

theorem hid_state_reaches_peripherals:
  assumes "hid_state_ok hs" and "hid_state_work_fn config now battery stage_error hc m i hs = (hs', calls)"
    and "pipe < min (PERIPHERAL_COUNT config) HID_STATE_PIPE_MAX" and "\<not> hop_pipe_needs_rendezvous config now pipe hc"
    and "kept_at pipe hs \<noteq> (True, m, i)" and "stage_error pipe = Ok"
    and "beacon_peer_count (Hop_Central.pool config) = PERIPHERAL_COUNT config" "PERIPHERAL_COUNT config \<le> 8"
    and "channel_pool radio_cfg = Hop_Central.pool config" and "wp_pool wire_cfg = Hop_Central.pool config"
  shows "\<exists>data. calls_for pipe calls =
      [if wire_owns config pipe then Wire_central_send data else Latch_control pipe Control_beacon data] \<and>
    (let heard = fst (snd (Hop_Peripheral.hop_consume_rx radio_cfg heard_on data hp p))
     in zmk_split_esb_hid_modifiers heard = m \<and> zmk_split_esb_hid_indicators heard = i) \<and>
    (let heard = wp_core (wire_peripheral_on_frame wire_cfg data wp)
     in zmk_split_esb_hid_modifiers heard = m \<and> zmk_split_esb_hid_indicators heard = i) \<and>
    calls_for pipe (snd (hid_state_work_fn config now battery stage_error hc m i hs')) = []"
proof -
  define beacon where "beacon = staged_beacon config battery m i hc"
  have told: "kept_at pipe hs' = (True, m, i)"
    "\<exists>call. hop_stage_beacon config battery pipe m i hc = Inr call \<and> calls_for pipe calls = [call]"
    using hid_state_informs_pipes [OF assms(1-3)] assms(4-6) by simp_all
  have data: "calls_for pipe calls =
      [if wire_owns config pipe then Wire_central_send (beacon_bytes beacon) else Latch_control pipe Control_beacon (beacon_bytes beacon)]"
    using told(2) assms(3) by (auto simp: hop_stage_beacon_def beacon_def Let_def split: if_splits)
  have peers: "length (beacon_peers beacon) = PERIPHERAL_COUNT config" "beacon_modifiers beacon = m" "beacon_indicators beacon = i"
    by (simp_all add: beacon_def staged_beacon_def)
  obtain hp' p' consumed where heard: "Hop_Peripheral.hop_consume_rx radio_cfg heard_on (beacon_bytes beacon) hp p = (hp', p', consumed)"
    by (metis prod_cases3)
  have radio: "p' = peripheral_hid_state_store m i p"
    using beacon_packet_consumed [OF _ _ heard] peers assms(7-9) by simp
  have wire: "wp_core (wire_peripheral_on_frame wire_cfg (beacon_bytes beacon) wp) = peripheral_hid_state_store m i (wp_core wp)"
    using beacon_on_wire [of beacon wire_cfg wp] peers assms(7,8,10) by simp
  obtain hs2 calls2 where again: "hid_state_work_fn config now battery stage_error hc m i hs' = (hs2, calls2)" by fastforce
  have "hid_state_ok hs'"
    using hid_state_pipes_ok [OF assms(2) [unfolded hid_state_work_fn_def] assms(1)] by simp
  then have "calls_for pipe calls2 = []"
    using hid_state_informs_pipes [OF _ again assms(3)] assms(4) told(1) by simp
  then show ?thesis
    using data heard radio wire again
    by (intro exI [of _ "beacon_bytes beacon"]) (simp add: peripheral_hid_state_roundtrip)
qed

text \<open>A pipe over the radio, and a wire peripheral of the same list.\<close>

definition radio_example :: hop_peripheral_config where
  "radio_example = hop_peripheral_config_example\<lparr>channel_pool := Hop_Central.pool hop_config_example\<rparr>"

definition wire_example :: wire_peripheral_config where
  "wire_example = \<lparr>wp_wire = \<lparr>simplex = False, transport_wire = True, wire_timeout_ms = 500\<rparr>,
     wp_peripheral = peripheral_config_example, wp_pool = Hop_Central.pool hop_config_example,
     wire_idle_keepalive_ms = 1000, keepalive_room = 64\<rparr>"

definition wire_device_example :: wire_peripheral where
  "wire_device_example = \<lparr>wp_enabled = True, last_wire_send_ms = 0, wp_link = wire_link_boot,
     wp_core = peripheral_boot peripheral_config_example 6\<rparr>"

theorem hid_state_reaches_peripherals_witness:
  "\<exists>data. calls_for 0 (snd (hid_state_work_fn hop_config_example 0 (\<lambda>_. 50) (\<lambda>_. Ok) (hop_central_boot hop_config_example) 2 1
      hid_state_boot)) = [Latch_control 0 Control_beacon data] \<and>
    zmk_split_esb_hid_modifiers (fst (snd (Hop_Peripheral.hop_consume_rx radio_example 0 data
      (hop_peripheral_boot radio_example blank_retained) (peripheral_boot peripheral_config_example 6)))) = 2 \<and>
    zmk_split_esb_hid_indicators (wp_core (wire_peripheral_on_frame wire_example data wire_device_example)) = 1"
proof -
  obtain hs' calls where pass: "hid_state_work_fn hop_config_example 0 (\<lambda>_. 50) (\<lambda>_. Ok)
      (hop_central_boot hop_config_example) 2 1 hid_state_boot = (hs', calls)" by fastforce
  have ok: "hid_state_ok hid_state_boot" by (simp add: hid_state_ok_def hid_state_boot_def)
  have pipe: "0 < min (PERIPHERAL_COUNT hop_config_example) HID_STATE_PIPE_MAX"
    "\<not> hop_pipe_needs_rendezvous hop_config_example 0 0 (hop_central_boot hop_config_example)"
    and wire: "\<not> wire_owns hop_config_example 0"
    by (simp_all add: HID_STATE_PIPE_MAX_def PERIPHERAL_COUNT_def hop_config_example_def hop_central_boot_def
        hop_pipe_needs_rendezvous_def pipe_is_self_def wire_owns_def hop_pipe_quiet_ms_def Let_def)
  have fresh: "kept_at 0 hid_state_boot \<noteq> (True, 2, 1)"
    by (simp add: kept_at_def hid_state_boot_def HID_STATE_PIPE_MAX_def)
  have peers: "beacon_peer_count (Hop_Central.pool hop_config_example) = PERIPHERAL_COUNT hop_config_example"
    "PERIPHERAL_COUNT hop_config_example \<le> 8"
    by (simp_all add: hop_config_example_def PERIPHERAL_COUNT_def)
  have pools: "channel_pool radio_example = Hop_Central.pool hop_config_example" "wp_pool wire_example = Hop_Central.pool hop_config_example"
    by (simp_all add: radio_example_def wire_example_def)
  from hid_state_reaches_peripherals [OF ok pass pipe fresh _ peers pools, of 0 "hop_peripheral_boot radio_example blank_retained"
      "peripheral_boot peripheral_config_example 6" wire_device_example]
  show ?thesis
    using wire pass by (auto simp: Let_def)
qed

end
