(* ===== verification/Motion_Path.thy ===== *)
theory Motion_Path
  imports System Esb_Peripheral "HOL-Library.Sublist"
begin

text \<open>
  Lossy pointer motion end to end: the moves a peripheral turns into running totals
  (\<open>src/esb_peripheral.c\<close>), of which any part reaches the central, and the keepalive that
  heals the rest (\<open>src/central_input.c\<close>). The definitions here are specifications and runs.
\<close>

section \<open>The central's tracks\<close>

text \<open>The track of an axis is that of the first slot in use for it.\<close>

fun track_of :: "tracked_motion list \<Rightarrow> u8 \<times> u8 \<Rightarrow> esb_motion_track option" where
  "track_of [] axis = None"
| "track_of (slot # slots) axis =
     (if track_used slot \<and> (track_reg slot, track_code slot) = axis then Some (track slot) else track_of slots axis)"

lemma track_of_find:
  "track_of slots (reg, code) = map_option (\<lambda>found. track (slots ! found)) (find_motion_track reg code slots)"
  by (induction slots) (auto simp: find_motion_track_def option.map_comp o_def)

lemma track_of_update_self:
  "find_motion_track reg code slots = Some found \<Longrightarrow>
   track_of (slots[found := (slots ! found)\<lparr>track := t\<rparr>]) (reg, code) = Some t"
  by (induction slots arbitrary: found) (auto simp: find_motion_track_def split: if_splits)

lemma track_of_update_other:
  assumes "\<not> track_used (slots ! index) \<or> (track_reg (slots ! index), track_code (slots ! index)) \<noteq> axis"
    and "index < length slots" and "(track_reg slot, track_code slot) \<noteq> axis"
  shows "track_of (slots[index := slot]) axis = track_of slots axis"
  using assms by (induction slots arbitrary: index) (auto split: nat.splits simp: nth_Cons)

lemma find_motion_trackD:
  assumes "find_motion_track reg code slots = Some found"
  shows "found < length slots" "track_reg (slots ! found) = reg" "track_code (slots ! found) = code"
  using first_index_SomeD [OF assms [unfolded find_motion_track_def]] by auto

section \<open>Motion at the host\<close>

definition host_move :: "u8 \<times> u8 \<Rightarrow> zmk_call \<Rightarrow> i32" where
  "host_move axis call =
     (case call of
        Peripheral_event pipe event \<Rightarrow>
          if is_Input_event event \<and> input_type event = INPUT_EV_REL \<and> event_axis event = axis then input_value event else 0
      | _ \<Rightarrow> 0)"

definition host_motion :: "u8 \<times> u8 \<Rightarrow> zmk_call list \<Rightarrow> i32" where
  "host_motion axis calls = sum_list (map (host_move axis) calls)"

lemma host_motion_simps [simp]:
  "host_motion axis [] = 0"
  "host_motion axis (call # calls) = host_move axis call + host_motion axis calls"
  "host_motion axis (calls @ calls') = host_motion axis calls + host_motion axis calls'"
  by (simp_all add: host_motion_def)

lemma host_move_event [simp]:
  "host_move axis (Peripheral_event pipe (Input_event reg sync INPUT_EV_REL code val)) =
     (if (reg, ucast code) = axis then val else 0)"
  by (simp add: host_move_def event_axis_def)

lemma host_move_replay [simp]: "host_move axis (replay_input_key pipe key pressed) = 0"
  by (simp add: host_move_def replay_input_key_def INPUT_EV_KEY_def INPUT_EV_REL_def)

text \<open>What a tracker's second result adds.\<close>

definition counted :: "i32 option \<Rightarrow> i32" where
  "counted delta = (case delta of None \<Rightarrow> 0 | Some d \<Rightarrow> d)"

section \<open>Totals on their way\<close>

definition is_total :: "event \<Rightarrow> bool" where
  "is_total event \<longleftrightarrow> is_Input_event event \<and> input_type event = INPUT_EV_REL \<and>
     input_sync event AND ESB_WIRE_INPUT_TOTAL \<noteq> 0"

fun deliver_totals :: "nat \<Rightarrow> (u32 \<times> event) list \<Rightarrow> central_input \<Rightarrow> central_input \<times> zmk_call list" where
  "deliver_totals pipe [] ci = (ci, [])"
| "deliver_totals pipe ((now, event) # events) ci =
     (let (ci, calls) = central_input_deliver_event now pipe event ci;
          (ci, later) = deliver_totals pipe events ci
      in (ci, calls @ later))"

definition totals_of :: "u8 \<times> u8 \<Rightarrow> event list \<Rightarrow> i32 list" where
  "totals_of axis events = map input_value (filter (\<lambda>event. event_axis event = axis) events)"

lemma claim_tracked:
  assumes "claim_motion_track reg code slots = (slots', found)" and "track_of slots axis = Some t"
  shows "(reg, code) = axis \<Longrightarrow> slots' = slots \<and> found = find_motion_track reg code slots \<and> found \<noteq> None"
    and "(reg, code) \<noteq> axis \<Longrightarrow> track_of slots' axis = Some t \<and>
      (\<forall>index. found = Some index \<longrightarrow> index < length slots' \<and>
        (track_reg (slots' ! index), track_code (slots' ! index)) = (reg, code))"
proof -
  show "slots' = slots \<and> found = find_motion_track reg code slots \<and> found \<noteq> None" if axis: "(reg, code) = axis"
  proof -
    obtain found' where found': "find_motion_track reg code slots = Some found'"
      using assms(2) axis track_of_find [of slots reg code] by (cases "find_motion_track reg code slots") auto
    then have "slots' = slots \<and> found = Some found'"
      using assms(1) by (simp add: claim_motion_track_def)
    then show ?thesis using found' by simp
  qed
  show "track_of slots' axis = Some t \<and> (\<forall>index. found = Some index \<longrightarrow> index < length slots' \<and>
        (track_reg (slots' ! index), track_code (slots' ! index)) = (reg, code))" if other: "(reg, code) \<noteq> axis"
  proof (cases "find_motion_track reg code slots")
    case (Some index)
    then show ?thesis
      using assms find_motion_trackD [OF Some] by (auto simp: claim_motion_track_def)
  next
    case None
    show ?thesis
    proof (cases "first_index (\<lambda>slot. \<not> track_used slot) slots")
      case None
      then show ?thesis
        using assms \<open>find_motion_track reg code slots = None\<close> by (auto simp: claim_motion_track_def)
    next
      case (Some index)
      have "index < length slots" "\<not> track_used (slots ! index)"
        using first_index_SomeD [OF Some] by auto
      then show ?thesis
        using assms \<open>find_motion_track reg code slots = None\<close> Some other
        by (auto simp: claim_motion_track_def track_of_update_other)
    qed
  qed
qed

lemma deliver_total:
  assumes "is_total event" and "pipe < ESB_LINK_PIPE_MAX" and "\<not> input_reset ci"
    and "track_of (tracked_motions ci) axis = Some t"
    and "central_input_deliver_event now pipe event ci = (ci', calls)"
  shows "\<not> input_reset ci'"
    and "event_axis event = axis \<Longrightarrow>
      track_of (tracked_motions ci') axis = Some (fst (esb_motion_track_delta t (input_value event))) \<and>
      host_motion axis calls = counted (snd (esb_motion_track_delta t (input_value event)))"
    and "event_axis event \<noteq> axis \<Longrightarrow> track_of (tracked_motions ci') axis = Some t \<and> host_motion axis calls = 0"
proof -
  obtain reg sync code val where event: "event = Input_event reg sync INPUT_EV_REL code val"
    using assms(1) by (cases event) (auto simp: is_total_def)
  define ci1 where "ci1 = note_input_reg reg ci"
  have ci1: "tracked_motions ci1 = tracked_motions ci" "input_reset ci1 = input_reset ci"
    by (simp_all add: ci1_def note_input_reg_def)
  obtain slots found where claim: "claim_motion_track reg (ucast code) (tracked_motions ci) = (slots, found)" by fastforce
  note claimed = claim_tracked [OF claim assms(4)]
  have run: "central_input_deliver_event now pipe event ci =
      (let (ci, delivered) = motion_total_to_delta now event ci1 in (ci, [Peripheral_event pipe delivered]))"
    using assms(1-3)
    by (simp add: central_input_deliver_event_def event is_total_def apply_input_reset_def ci1_def
        deliver_key_transition_def INPUT_EV_REL_def INPUT_EV_KEY_def)
  show "\<not> input_reset ci'"
    using assms(3,5) run claim
    by (auto simp: motion_total_to_delta_def event ci1 Let_def split: option.splits prod.splits)
  show "track_of (tracked_motions ci') axis = Some (fst (esb_motion_track_delta t (input_value event))) \<and>
      host_motion axis calls = counted (snd (esb_motion_track_delta t (input_value event)))" if "event_axis event = axis"
  proof -
    have axis: "axis = (reg, ucast code)" using that by (simp add: event event_axis_def)
    with claimed(1) obtain index where index: "slots = tracked_motions ci" "found = Some index"
      "find_motion_track reg (ucast code) (tracked_motions ci) = Some index" by auto
    have t: "track (tracked_motions ci ! index) = t"
      using assms(4) index(3) by (simp add: axis track_of_find)
    show ?thesis
      using assms(5) run claim track_of_update_self [OF index(3)]
      by (auto simp: motion_total_to_delta_def event ci1 index t axis counted_def Let_def split: prod.splits)
  qed
  show "track_of (tracked_motions ci') axis = Some t \<and> host_motion axis calls = 0" if "event_axis event \<noteq> axis"
  proof -
    have other: "(reg, ucast code) \<noteq> axis" using that by (simp add: event event_axis_def)
    note claimed = claimed(2) [OF this]
    show ?thesis
    proof (cases found)
      case None
      then show ?thesis
        using assms(5) run claim claimed other
        by (auto simp: motion_total_to_delta_def event ci1)
    next
      case (Some index)
      obtain t' delta where delta: "esb_motion_track_delta (track (slots ! index)) val = (t', delta)" by fastforce
      have "track_of (slots[index := (slots ! index)\<lparr>track := t'\<rparr>]) axis = track_of slots axis"
        using claimed Some other by (intro track_of_update_other) auto
      then show ?thesis
        using assms(5) run claim claimed other Some delta
        by (auto simp: motion_total_to_delta_def event ci1)
    qed
  qed
qed

lemma deliver_totals_track:
  assumes "pipe < ESB_LINK_PIPE_MAX" and "\<forall>(now, event) \<in> set arrivals. is_total event" and "\<not> input_reset ci"
    and "track_of (tracked_motions ci) axis = Some t" and "deliver_totals pipe arrivals ci = (ci', calls)"
  shows "\<not> input_reset ci' \<and>
    track_of (tracked_motions ci') axis =
      Some (fold (\<lambda>tot t. fst (esb_motion_track_delta t tot)) (totals_of axis (map snd arrivals)) t) \<and>
    host_motion axis calls = motion.forwarded t (totals_of axis (map snd arrivals))"
  using assms
proof (induction arrivals arbitrary: ci t calls)
  case Nil
  then show ?case by (simp add: totals_of_def)
next
  case (Cons arrival arrivals)
  obtain now event where arrival: "arrival = (now, event)" by (cases arrival)
  obtain ci1 first where deliver: "central_input_deliver_event now pipe event ci = (ci1, first)" by fastforce
  obtain later where later: "deliver_totals pipe arrivals ci1 = (ci', later)" "calls = first @ later"
    using Cons.prems(5) by (auto simp: arrival deliver split: prod.splits)
  have total: "is_total event" using Cons.prems(2) by (simp add: arrival)
  note step = deliver_total [OF total Cons.prems(1,3,4) deliver]
  have rest: "\<forall>(now, event) \<in> set arrivals. is_total event" using Cons.prems(2) by simp
  show ?case
  proof (cases "event_axis event = axis")
    case True
    then show ?thesis
      using Cons.IH [OF Cons.prems(1) rest step(1) step(2) [OF True, THEN conjunct1] later(1)] step(2) [OF True] later(2)
      by (simp add: arrival totals_of_def counted_def split_beta)
  next
    case False
    then show ?thesis
      using Cons.IH [OF Cons.prems(1) rest step(1) step(3) [OF False, THEN conjunct1] later(1)] step(3) [OF False] later(2)
      by (simp add: arrival totals_of_def)
  qed
qed

text \<open>The central keeps \<^const>\<open>MOTION_TRACKS_MAX\<close> tracks a pipe, a peripheral a total for every
  lossy pair of its devicetree: with the tracks taken the motion of any further axis is lost for
  good, the total having replaced it.\<close>

lemma further_axis_lost:
  assumes "\<forall>slot \<in> set (tracked_motions ci). track_used slot" and "track_of (tracked_motions ci) axis = None"
    and "is_total event" "event_axis event = axis" and "pipe < ESB_LINK_PIPE_MAX" "\<not> input_reset ci"
    and "central_input_deliver_event now pipe event ci = (ci', calls)"
  shows "host_motion axis calls = 0 \<and> tracked_motions ci' = tracked_motions ci"
proof -
  obtain reg sync code val where event: "event = Input_event reg sync INPUT_EV_REL code val"
    using assms(3) by (cases event) (auto simp: is_total_def)
  have "find_motion_track reg (ucast code) (tracked_motions ci) = None"
    using assms(2,4) by (auto simp: event event_axis_def track_of_find)
  moreover have "first_index (\<lambda>slot. \<not> track_used slot) (tracked_motions ci) = None"
    using assms(1) by (simp add: first_index_None)
  ultimately have "claim_motion_track reg (ucast code) (tracked_motions ci) = (tracked_motions ci, None)"
    by (simp add: claim_motion_track_def)
  then show ?thesis
    using assms(3,5-7)
    by (auto simp: central_input_deliver_event_def event is_total_def apply_input_reset_def note_input_reg_def
        deliver_key_transition_def INPUT_EV_KEY_def INPUT_EV_REL_def motion_total_to_delta_def host_move_def
        split: if_splits)
qed

section \<open>The heal\<close>

definition motion_axis :: "esb_keepalive_motion_total \<Rightarrow> u8 \<times> u8" where
  "motion_axis motion = (motion_reg motion, motion_code motion)"

definition pending_move :: "u8 \<times> u8 \<Rightarrow> event option \<Rightarrow> i32" where
  "pending_move axis pending =
     (case pending of None \<Rightarrow> 0 | Some heal \<Rightarrow> if event_axis heal = axis then input_value heal else 0)"

definition heal_event :: "event option \<Rightarrow> bool" where
  "heal_event pending \<longleftrightarrow> (\<forall>heal. pending = Some heal \<longrightarrow> input_type heal = INPUT_EV_REL \<and> is_Input_event heal)"

lemma host_move_heal:
  "heal_event (Some heal) \<Longrightarrow> host_move axis (deliver_heal pipe heal sync) = pending_move axis (Some heal)"
  by (cases heal) (auto simp: heal_event_def deliver_heal_def pending_move_def event_axis_def)

lemma code_widened [simp]: "ucast (ucast (code :: u8) :: u16) = code"
  by (simp add: ucast_up_ucast_id is_up)

lemma motion_heal_at_spec:
  assumes "motion_heal_at keepalive index slots = (slots', heal)" and "track_of slots axis = Some t"
    and "esb_keepalive_motion_total_at keepalive index = motion"
  shows "heal_event heal"
    and "motion_axis motion \<noteq> axis \<Longrightarrow> track_of slots' axis = Some t \<and> pending_move axis heal = 0"
    and "motion_axis motion = axis \<Longrightarrow> pending_move axis heal = counted (snd (esb_motion_track_short_delta t (short_total motion))) \<and>
      track_of slots' axis = Some (fst (esb_motion_track_short_delta t (short_total motion)))"
proof -
  show "heal_event heal"
    using assms(1) by (auto simp: motion_heal_at_def heal_event_def Let_def split: option.splits prod.splits)
  show "track_of slots' axis = Some t \<and> pending_move axis heal = 0" if other: "motion_axis motion \<noteq> axis"
  proof (cases "find_motion_track (motion_reg motion) (motion_code motion) slots")
    case None
    then show ?thesis using assms by (simp add: motion_heal_at_def pending_move_def)
  next
    case (Some found)
    obtain t' delta where delta: "esb_motion_track_short_delta (track (slots ! found)) (short_total motion) = (t', delta)"
      by fastforce
    have "track_of (slots[found := (slots ! found)\<lparr>track := t'\<rparr>]) axis = track_of slots axis"
      using find_motion_trackD [OF Some] other by (intro track_of_update_other) (auto simp: motion_axis_def)
    then show ?thesis
      using assms Some delta other
      by (cases delta) (auto simp: motion_heal_at_def pending_move_def event_axis_def motion_axis_def)
  qed
  show "pending_move axis heal = counted (snd (esb_motion_track_short_delta t (short_total motion))) \<and>
      track_of slots' axis = Some (fst (esb_motion_track_short_delta t (short_total motion)))" if "motion_axis motion = axis"
  proof -
    have axis: "axis = (motion_reg motion, motion_code motion)" using that by (simp add: motion_axis_def)
    with assms(2) obtain found where found: "find_motion_track (motion_reg motion) (motion_code motion) slots = Some found"
      "track (slots ! found) = t"
      by (auto simp: track_of_find)
    show ?thesis
      using assms(1,3) found track_of_update_self [OF found(1)]
      by (auto simp: motion_heal_at_def pending_move_def counted_def axis event_axis_def Let_def
          split: option.splits prod.splits)
  qed
qed

lemma heal_motions_spec:
  assumes "heal_motions pipe keepalive indices pending slots = (slots', calls)" and "heal_event pending"
    and "track_of slots axis = Some t"
    and "distinct (map (\<lambda>index. motion_axis (esb_keepalive_motion_total_at keepalive index)) indices)"
  shows "host_motion axis calls = pending_move axis pending +
    (case find (\<lambda>motion. motion_axis motion = axis) (map (esb_keepalive_motion_total_at keepalive) indices) of
       None \<Rightarrow> 0 | Some motion \<Rightarrow> counted (snd (esb_motion_track_short_delta t (short_total motion))))"
  using assms
proof (induction indices arbitrary: pending slots slots' calls t)
  case Nil
  then show ?case
    using host_move_heal [of _ axis pipe True] by (cases pending) (auto simp: pending_move_def)
next
  case (Cons index indices)
  define motion where "motion = esb_keepalive_motion_total_at keepalive index"
  obtain slots1 heal where heal: "motion_heal_at keepalive index slots = (slots1, heal)" by fastforce
  note spec = motion_heal_at_spec [OF heal Cons.prems(3) motion_def [symmetric]]
  define pending1 where "pending1 = (if heal = None then pending else heal)"
  obtain later where later: "heal_motions pipe keepalive indices pending1 slots1 = (slots', later)"
    and calls: "host_motion axis calls = (if heal = None then 0 else pending_move axis pending) + host_motion axis later"
    using Cons.prems(1,2) heal host_move_heal [of _ axis pipe False]
    by (cases heal; cases pending) (auto simp: pending1_def pending_move_def split: prod.splits)
  have pending1: "heal_event pending1"
    using spec(1) Cons.prems(2) by (simp add: pending1_def)
  have pend: "(if heal = None then 0 else pending_move axis pending) + pending_move axis pending1 =
      pending_move axis pending + pending_move axis heal"
    by (cases heal) (simp_all add: pending1_def pending_move_def)
  have distinct: "distinct (map (\<lambda>index. motion_axis (esb_keepalive_motion_total_at keepalive index)) indices)"
    and fresh: "motion_axis motion \<notin> set (map (\<lambda>index. motion_axis (esb_keepalive_motion_total_at keepalive index)) indices)"
    using Cons.prems(4) by (simp_all add: motion_def)
  show ?case
  proof (cases "motion_axis motion = axis")
    case False
    note spec = spec(2) [OF False]
    from Cons.IH [OF later pending1 spec [THEN conjunct1] distinct] show ?thesis
      using pend spec calls False by (simp add: motion_def [symmetric])
  next
    case True
    note spec = spec(3) [OF True]
    have "find (\<lambda>motion. motion_axis motion = axis) (map (esb_keepalive_motion_total_at keepalive) indices) = None"
      using fresh unfolding True by (force simp: find_None_iff)
    with Cons.IH [OF later pending1 spec [THEN conjunct2] distinct] show ?thesis
      using pend spec calls True by (simp add: motion_def [symmetric])
  qed
qed

section \<open>The keepalive's totals\<close>

lemma snapshot_axes:
  "slots_wf slots \<Longrightarrow> distinct (map motion_axis (motion_totals_snapshot slots)) \<and>
     set (map motion_axis (motion_totals_snapshot slots)) = axes slots"
proof (induction slots)
  case (Cons slot slots)
  show ?case
  proof (cases "claimed slot")
    case True
    then show ?thesis
      using Cons by (auto simp: motion_totals_snapshot_def motion_axis_def table_simps)
  next
    case False
    then show ?thesis
      using Cons.prems unclaimed_axes [of slots] by (auto simp: motion_totals_snapshot_def table_simps filter_empty_conv)
  qed
qed (simp add: motion_totals_snapshot_def table_simps)

lemma snapshot_find:
  "slots_wf slots \<Longrightarrow> axis \<in> axes slots \<Longrightarrow>
   \<exists>motion. find (\<lambda>motion. motion_axis motion = axis) (motion_totals_snapshot slots) = Some motion \<and>
     short_total motion = ucast (axis_total slots axis)"
proof (induction slots)
  case (Cons slot slots)
  then show ?case
    using unclaimed_axes [of slots]
    by (cases "claimed slot") (auto simp: motion_totals_snapshot_def motion_axis_def table_simps)
qed (simp add: table_simps)

lemma released_motion:
  "release_unheld_slots pipe keepalive slots = (slots', calls) \<Longrightarrow> host_motion axis calls = 0"
  by (induction slots arbitrary: slots' calls) (auto simp: split: prod.splits if_splits)

lemma pressed_motion:
  "press_keys pipe keys ci = (ci', calls) \<Longrightarrow> host_motion axis calls = 0 \<and>
    tracked_motions ci' = tracked_motions ci \<and> motion_heard_ms ci' = motion_heard_ms ci"
  by (induction pipe keys ci arbitrary: ci' calls rule: press_keys.induct)
    (auto simp: note_input_reg_def split: if_splits option.splits prod.splits)

lemma reconcile_motion:
  assumes "pipe < ESB_LINK_PIPE_MAX" and "\<not> input_reset ci" and "track_of (tracked_motions ci) axis = Some t"
    and "window \<le> now - motion_heard_ms ci"
    and "map (esb_keepalive_motion_total_at keepalive) [0..<unat (esb_keepalive_motion_count keepalive)] =
      motion_totals_snapshot slots"
    and "slots_wf slots" "axis \<in> axes slots"
    and "central_input_reconcile window now pipe keepalive ci = (ci', calls)"
  shows "host_motion axis calls = counted (snd (esb_motion_track_short_delta t (ucast (axis_total slots axis))))"
proof -
  obtain keys released where rel: "release_unheld_slots pipe keepalive (tracked_keys ci) = (keys, released)" by fastforce
  obtain ci2 pressed where press: "press_held_input_keys pipe keepalive (ci\<lparr>tracked_keys := keys\<rparr>) = (ci2, pressed)"
    by fastforce
  have motion: "tracked_motions ci2 = tracked_motions ci" "motion_heard_ms ci2 = motion_heard_ms ci"
    "host_motion axis pressed = 0"
    using pressed_motion [OF press [unfolded press_held_input_keys_def]] by simp_all
  obtain tracks healed where heal: "heal_motions pipe keepalive [0..<unat (esb_keepalive_motion_count keepalive)] None
      (tracked_motions ci) = (tracks, healed)" by fastforce
  have calls: "calls = released @ pressed @ healed"
    using assms(1,2,4,8) rel press heal motion
    by (auto simp: central_input_reconcile_def apply_input_reset_def release_unheld_input_keys_def
        heal_lost_motion_def esb_motion_quiet_enough_def)
  obtain motion where found: "find (\<lambda>motion. motion_axis motion = axis) (motion_totals_snapshot slots) = Some motion"
    "short_total motion = ucast (axis_total slots axis)"
    using snapshot_find [OF assms(6,7)] by blast
  have "distinct (map (\<lambda>index. motion_axis (esb_keepalive_motion_total_at keepalive index))
      [0..<unat (esb_keepalive_motion_count keepalive)])"
    using snapshot_axes [OF assms(6)] unfolding assms(5) [symmetric] by (simp add: o_def)
  from heal_motions_spec [OF heal _ assms(3) this] have "host_motion axis healed =
      counted (snd (esb_motion_track_short_delta t (ucast (axis_total slots axis))))"
    unfolding assms(5) by (simp add: heal_event_def found pending_move_def)
  then show ?thesis
    using released_motion [OF rel] motion(3) by (simp add: calls)
qed

lemma keepalive_motion_totals:
  assumes "peripheral_ok (core ep)" and "length (motion_slots ep) < 256"
    and "keepalive = esb_link_keepalive_fill config state_of_charge link_cost room state ep" "keepalive \<noteq> []"
  shows "map (esb_keepalive_motion_total_at keepalive) [0..<unat (esb_keepalive_motion_count keepalive)] =
    motion_totals_snapshot (motion_slots ep)"
proof -
  define totals where "totals = motion_totals_snapshot (motion_slots ep)"
  define snapshot where "snapshot = peripheral_snapshot (core_config config) state_of_charge state link_cost totals (core ep)"
  have "length totals < 256"
    using le_less_trans [OF length_filter_le [of claimed "motion_slots ep"] assms(2)]
    by (simp add: totals_def motion_totals_snapshot_def)
  then have ok: "snapshot_ok snapshot"
    unfolding snapshot_def by (rule snapshot_of_ok [OF assms(1)])
  have enc: "keepalive = esb_keepalive_encode room snapshot"
    using assms(3) by (simp add: esb_link_keepalive_fill_def peripheral_keepalive_fill_def snapshot_def totals_def)
  have "snap_motion_totals snapshot = totals"
    by (simp add: snapshot_def peripheral_snapshot_def)
  then show ?thesis
    using encode_counts(2) [OF ok enc assms(4)] encode_tables(2) [OF ok enc assms(4)]
    by (intro nth_equalityI) (simp_all add: totals_def)
qed

lemma motion_run_is_total:
  assumes "slots_wf slots" "\<forall>event \<in> set events. totalled event"
    and "card (axes slots \<union> event_axis ` set events) \<le> length slots" and "event \<in> set (snd (motion_run slots events))"
  shows "is_total event"
proof -
  have flag: "(sync OR ESB_WIRE_INPUT_TOTAL) AND ESB_WIRE_INPUT_TOTAL \<noteq> 0" for sync
  proof -
    have "bit ((sync OR ESB_WIRE_INPUT_TOTAL) AND ESB_WIRE_INPUT_TOTAL) 1"
      by (simp add: ESB_WIRE_INPUT_TOTAL_def bit_simps)
    then show ?thesis by (metis bit_0_eq bot_apply bot_bool_def)
  qed
  obtain i tot where "i < length events" "event = as_total tot (events ! i)"
    using motion_to_total_running_sums [OF assms(1-3)] assms(4) by auto
  then show ?thesis
    using assms(2) flag by (auto simp: is_total_def as_total_def totalled_def dest: nth_mem)
qed

lemma motion_run_slots:
  assumes "slots_wf slots" "\<forall>event \<in> set events. totalled event"
    and "card (axes slots \<union> event_axis ` set events) \<le> length slots"
  shows "length (fst (motion_run slots events)) = length slots"
  using assms
proof (induction events arbitrary: slots)
  case (Cons event events)
  have "card (axes slots \<union> {event_axis event}) \<le> length slots"
    by (rule le_trans [OF card_mono Cons.prems(3)]) auto
  with Cons.prems obtain slots' tot where "motion_to_total event slots = (slots', as_total tot event)"
    "slots_wf slots'" "length slots' = length slots" "axes slots' = insert (event_axis event) (axes slots)"
    by (rule_tac motion_to_total_step [of slots event]) auto
  then show ?case
    using Cons.IH [of slots'] Cons.prems by (simp add: split_beta)
qed simp

section \<open>The whole path\<close>

lemma short_delta_counted:
  assumes "motion_base t = Some prev" and "\<bar>sint (tot - prev)\<bar> < 2 ^ 15"
  shows "counted (snd (esb_motion_track_short_delta t (ucast tot))) + motion.skipped prev [tot] = tot - prev"
proof -
  have t: "valid t" "last_total t = prev"
    using assms(1) by (auto simp: motion_base_def split: if_splits)
  show ?thesis
    using short_delta_adopts [OF t(1), of tot] assms motion.delta_adopt [of t tot] by (auto simp: t(2) counted_def)
qed

text \<open>The axis's track at the central: a base, and the last total heard near enough to the final one
  for the 16 bits of the keepalive.\<close>

definition tracked_from :: "u8 \<times> u8 \<Rightarrow> i32 \<Rightarrow> event list \<Rightarrow> i32 \<Rightarrow> central_input \<Rightarrow> bool" where
  "tracked_from axis base got final ci \<longleftrightarrow>
     track_of (tracked_motions ci) axis = Some \<lparr>last_total = base, valid = True\<rparr> \<and>
     \<bar>sint (final - last (base # totals_of axis got))\<bar> < 2 ^ 15"


text \<open>The first of three moves arrives; the keepalive brings the rest of its axis.\<close>

definition mouse_example :: esb_peripheral where
  "mouse_example = (esb_peripheral_boot dongle_config_example 4)
     \<lparr>motion_slots := fst (motion_run (replicate 2 free_motion_slot) motion_events_example)\<rparr>"

definition mouse_keepalive :: bytes where
  "mouse_keepalive = esb_link_keepalive_fill dongle_config_example 100 0 64 0 mouse_example"

definition mouse_tracks :: central_input where
  "mouse_tracks = (central_input_boot 2)\<lparr>tracked_motions := [\<lparr>track_used = True, track_reg = 1, track_code = 0,
     track = \<lparr>last_total = 0, valid = True\<rparr>\<rparr>]\<rparr>"

lemma mouse_run:
  "motion_run (replicate 2 free_motion_slot) motion_events_example =
     (motion_slots mouse_example, [Input_event 1 2 INPUT_EV_REL 0 5, Input_event 1 3 INPUT_EV_REL 1 (-3), Input_event 1 2 INPUT_EV_REL 0 12])"
  "axes (motion_slots mouse_example) = {(1, 0), (1, 1)}" "axis_total (motion_slots mouse_example) (1, 0) = 12"
  by code_simp+

lemma mouse_keepalive_sent: "mouse_keepalive \<noteq> []" "peripheral_ok (core mouse_example)"
  by code_simp+

lemma mouse_heard:
  "motion_heard_ms (fst (deliver_totals 1 [(10, Input_event 1 2 INPUT_EV_REL 0 5)] mouse_tracks)) = 10"
  by code_simp


end
