(* ===== verification/Sensor_Path.thy ===== *)
theory Sensor_Path
  imports System
begin

text \<open>
  Encoder rotation end to end: the totals a peripheral keeps (\<open>src/peripheral.c\<close>), of whose
  reports any part reaches the central's event work, and the keepalive that brings the rest
  (\<open>src/central.c\<close>). The definitions here are runs and specifications.
\<close>

section \<open>Rotation at the host\<close>

definition host_turn :: "nat \<Rightarrow> nat \<Rightarrow> zmk_call \<Rightarrow> i64" where
  "host_turn source index call =
     (case call of
        Peripheral_event pipe (Sensor_event i channel val1 val2) \<Rightarrow>
          if pipe = source \<and> unat i = index then esb_sensor_udeg val1 val2 else 0
      | _ \<Rightarrow> 0)"

definition host_rotation :: "nat \<Rightarrow> nat \<Rightarrow> zmk_call list \<Rightarrow> i64" where
  "host_rotation source index calls = sum_list (map (host_turn source index) calls)"

lemma host_rotation_simps [simp]:
  "host_rotation source index [] = 0"
  "host_rotation source index (call # calls) = host_turn source index call + host_rotation source index calls"
  "host_rotation source index (calls @ calls') = host_rotation source index calls + host_rotation source index calls'"
  by (simp_all add: host_rotation_def)

lemma host_rotation_none: "\<forall>call \<in> set calls. host_turn source index call = 0 \<Longrightarrow> host_rotation source index calls = 0"
  by (induction calls) simp_all

text \<open>The totals a message to the event work reports of one sensor.\<close>

fun reported :: "nat \<Rightarrow> nat \<Rightarrow> central_inbound \<Rightarrow> i64 list" where
  "reported source index (Inbound_event pipe (Sensor_event i channel val1 val2)) =
     (if pipe = source \<and> unat i = index then [esb_sensor_udeg val1 val2] else [])"
| "reported source index (Inbound_keepalive pipe keepalive) =
     (if pipe = source \<and> index < unat (esb_keepalive_sensor_count keepalive (length keepalive))
      then [esb_keepalive_sensor_total_udeg keepalive index] else [])"
| "reported source index _ = []"

lemma forwarded_append:
  "sensor.forwarded t (xs @ ys) = sensor.forwarded t xs + sensor.forwarded (fold (\<lambda>tot t. fst (esb_sensor_track_delta t tot)) xs t) ys"
  by (induction xs arbitrary: t) (auto simp: split_beta Let_def)

section \<open>The central's tracks\<close>

definition turned :: "i64 option \<Rightarrow> i64" where
  "turned delta = (case delta of None \<Rightarrow> 0 | Some d \<Rightarrow> d)"

definition sensor_ready :: "central_config \<Rightarrow> nat \<Rightarrow> nat \<Rightarrow> central \<Rightarrow> bool" where
  "sensor_ready config source index c \<longleftrightarrow> has_sensors config \<and> source < ESB_LINK_PIPE_MAX \<and>
     index < central_config.keymap_sensors config \<and> index < length (sensor_tracks c source)"

lemma track_delta_split:
  assumes "esb_sensor_track_delta t tot = (t', Some d)"
  shows "esb_sensor_udeg (esb_sensor_udeg_val1 d) (esb_sensor_udeg_val2 d) = d"
proof (rule udeg_split)
  have "sint d \<le> 180 * 1000000" "- (180 * 1000000) \<le> sint d"
    using assms
    by (auto simp: esb_sensor_track_delta_def ESB_SENSOR_RESYNC_UDEG_def ESB_SENSOR_MICRODEG_PER_DEG_def
        Let_def split: if_splits)
  then show "\<bar>sint d\<bar> < 2 ^ 31 * ESB_SENSOR_MICRODEG_PER_DEG"
    by (simp add: ESB_SENSOR_MICRODEG_PER_DEG_def abs_less_iff)
qed

lemma sensor_delta_value_spec:
  assumes "sensor_delta_value config pipe i tot c = (c', value)" and "sensor_ready config source index c"
  shows "pipe = source \<Longrightarrow> i = index \<Longrightarrow>
      sensor_tracks c' source ! index = fst (esb_sensor_track_delta (sensor_tracks c source ! index) tot) \<and>
      (case value of None \<Rightarrow> 0 | Some (val1, val2) \<Rightarrow> esb_sensor_udeg val1 val2) =
        turned (snd (esb_sensor_track_delta (sensor_tracks c source ! index) tot))"
    and "pipe \<noteq> source \<or> i \<noteq> index \<Longrightarrow> sensor_tracks c' source ! index = sensor_tracks c source ! index"
    and "sensor_ready config source index c'"
  using assms track_delta_split
  by (auto simp: sensor_delta_value_def sensor_ready_def turned_def nth_list_update Let_def
      split: if_splits prod.splits option.splits)

lemma frame_tracks [simp]:
  "sensor_tracks (fst (update_input pipe f c)) = sensor_tracks c"
  by (simp add: update_input_def split_beta)

lemma key_call_turn: "is_key_call call \<Longrightarrow> host_turn source index call = 0"
  by (auto simp: is_key_call_def host_turn_def split: zmk_call.splits event.splits)

lemma reconcile_indices_tracks:
  assumes "reconcile_sensor_indices config pipe keepalive indices c = (c', calls)" and "sensor_ready config source index c"
    and "distinct indices" "\<forall>i \<in> set indices. i < 256"
    and "totals = (if pipe = source \<and> index \<in> set indices then [esb_keepalive_sensor_total_udeg keepalive index] else [])"
  shows "sensor_ready config source index c' \<and>
    sensor_tracks c' source ! index = fold (\<lambda>tot t. fst (esb_sensor_track_delta t tot)) totals (sensor_tracks c source ! index) \<and>
    host_rotation source index calls = sensor.forwarded (sensor_tracks c source ! index) totals"
  using assms
proof (induction indices arbitrary: c calls totals)
  case Nil
  then show ?case by simp
next
  case (Cons i indices)
  obtain c1 v where v: "sensor_delta_value config pipe i (esb_keepalive_sensor_total_udeg keepalive i) c = (c1, v)" by fastforce
  obtain later where r: "reconcile_sensor_indices config pipe keepalive indices c1 = (c', later)"
    and calls: "calls = (case v of None \<Rightarrow> [] | Some (val1, val2) \<Rightarrow>
        [Peripheral_event pipe (Sensor_event (of_nat i) SENSOR_CHAN_ROTATION val1 val2)]) @ later"
    using Cons.prems(1) v by (auto split: prod.splits option.splits)
  have word: "unat (of_nat i :: u8) = i" using Cons.prems(4) by (intro unat_of_nat_u8) simp
  note spec = sensor_delta_value_spec [OF v Cons.prems(2)]
  note IH = Cons.IH [OF r spec(3) _ _ refl]
  have call: "host_rotation source index calls =
      (if pipe = source \<and> i = index then (case v of None \<Rightarrow> 0 | Some (val1, val2) \<Rightarrow> esb_sensor_udeg val1 val2) else 0) +
      host_rotation source index later"
    using word by (cases v) (auto simp: calls host_turn_def)
  show ?case
  proof (cases "pipe = source \<and> i = index")
    case True
    then have "index \<notin> set indices" using Cons.prems(3) by simp
    then show ?thesis
      using IH spec(1) True Cons.prems(3-5) call by (simp add: turned_def split_beta)
  next
    case False
    then show ?thesis
      using IH spec(2) Cons.prems(3-5) call by auto
  qed
qed

lemma inbound_tracks:
  assumes "central_handle_inbound config inbound c = (c', calls)" and "sensor_ready config source index c"
  shows "sensor_ready config source index c' \<and>
    sensor_tracks c' source ! index =
      fold (\<lambda>tot t. fst (esb_sensor_track_delta t tot)) (reported source index inbound) (sensor_tracks c source ! index) \<and>
    host_rotation source index calls = sensor.forwarded (sensor_tracks c source ! index) (reported source index inbound)"
proof (cases inbound)
  case (Inbound_keepalive pipe keepalive)
  obtain c1 replayed where r: "replay_position_diff pipe (esb_keepalive_bitmap keepalive) c = (c1, replayed)" by fastforce
  obtain c2 battery where b: "(if central_config.battery_reporting config \<and> \<not> ble_battery_fetching config
      then reconcile_battery pipe (esb_keepalive_battery_level keepalive) c1 else (c1, [])) = (c2, battery)" by fastforce
  have tracks: "sensor_tracks c2 = sensor_tracks c"
    using r b by (auto simp: replay_position_diff_def reconcile_battery_def Let_def split: if_splits prod.splits)
  have none: "host_rotation source index replayed = 0" "host_rotation source index battery = 0"
    using r b replay_positions_key_calls key_call_turn
    by (auto simp: replay_position_diff_def reconcile_battery_def host_turn_def Let_def split: if_splits prod.splits
        intro!: host_rotation_none)
  define count where "count = unat (esb_keepalive_sensor_count keepalive (length keepalive))"
  have count: "count < 256" unfolding count_def using unsigned_less [of "esb_keepalive_sensor_count keepalive (length keepalive)"]
    by (simp add: nat_less_iff)
  have ready: "sensor_ready config source index c2" using assms(2) by (simp add: sensor_ready_def tracks)
  then have sensors: "has_sensors config" by (simp add: sensor_ready_def)
  obtain later where s: "reconcile_sensor_indices config pipe keepalive [0..<count] c2 = (c', later)"
    and calls: "calls = replayed @ battery @ later"
    using assms(1) Inbound_keepalive r b sensors
    by (auto simp: central_handle_inbound_def reconcile_sensor_totals_def count_def split: prod.splits)
  have totals: "reported source index inbound =
      (if pipe = source \<and> index \<in> set [0..<count] then [esb_keepalive_sensor_total_udeg keepalive index] else [])"
    by (simp add: Inbound_keepalive count_def)
  show ?thesis
    using reconcile_indices_tracks [OF s ready _ _ totals] count none by (simp add: calls tracks)
next
  case (Inbound_event pipe event)
  show ?thesis
  proof (cases event)
    case (Sensor_event i channel val1 val2)
    obtain c1 v where v: "sensor_delta_value config pipe (unat i) (esb_sensor_udeg val1 val2) c = (c1, v)" by fastforce
    note spec = sensor_delta_value_spec [OF v assms(2)]
    have c': "c' = c1" and calls: "calls = (case v of None \<Rightarrow> [] | Some (val1, val2) \<Rightarrow>
        [Peripheral_event pipe (Sensor_event i channel val1 val2)])"
      using assms v by (auto simp: Inbound_event Sensor_event central_handle_inbound_def sensor_event_to_delta_def
          sensor_ready_def split: option.splits)
    show ?thesis
    proof (cases "pipe = source \<and> unat i = index")
      case True
      then show ?thesis
        using spec(1,3) by (cases v) (auto simp: Inbound_event Sensor_event c' calls host_turn_def turned_def split_beta)
    next
      case False
      then show ?thesis
        using spec(2,3) by (cases v) (auto simp: Inbound_event Sensor_event c' calls host_turn_def)
    qed
  qed (use assms in \<open>auto simp: Inbound_event central_handle_inbound_def deliver_key_event_def reconcile_battery_def
      host_turn_def sensor_ready_def forward_key_position_def Let_def split: if_splits key_verdict.splits\<close>)
qed

lemma all_tracks:
  assumes "central_handle_all config inbounds c = (c', calls)" and "sensor_ready config source index c"
  shows "host_rotation source index calls =
    sensor.forwarded (sensor_tracks c source ! index) (concat (map (reported source index) inbounds))"
  using assms
proof (induction inbounds arbitrary: c calls)
  case (Cons inbound inbounds)
  obtain c1 first where f: "central_handle_inbound config inbound c = (c1, first)" by fastforce
  obtain later where l: "central_handle_all config inbounds c1 = (c', later)" "calls = first @ later"
    using Cons.prems(1) f by (auto split: prod.splits)
  note step = inbound_tracks [OF f Cons.prems(2)]
  show ?case
    using Cons.IH [OF l(1)] step by (simp add: l(2) forwarded_append)
qed simp

section \<open>The peripheral's totals\<close>

definition rotated :: "nat \<Rightarrow> event list \<Rightarrow> i64" where
  "rotated index events = sum_list (map (\<lambda>event. case event of
     Sensor_event i channel val1 val2 \<Rightarrow> if unat i = index then esb_sensor_udeg val1 val2 else 0 | _ \<Rightarrow> 0) events)"

lemma encode_event_totals:
  assumes "index < length (sensor_total_udeg p)" and "p' = fst (peripheral_encode_event abi wire_size event p)"
  shows "length (sensor_total_udeg p') = length (sensor_total_udeg p) \<and>
    sensor_total_udeg p' ! index = sensor_total_udeg p ! index + rotated index [event]"
  using assms
  by (cases event) (auto simp: rotated_def peripheral_encode_event_def peripheral_note_key_event_def
      peripheral_sensor_event_to_total_def nth_list_update Let_def)

lemma peripheral_events_totals:
  assumes "index < length (sensor_total_udeg p)"
  shows "length (sensor_total_udeg (peripheral_events abi wire_size events p)) = length (sensor_total_udeg p) \<and>
    sensor_total_udeg (peripheral_events abi wire_size events p) ! index = sensor_total_udeg p ! index + rotated index events"
  using assms
proof (induction events arbitrary: p)
  case Nil
  then show ?case by (simp add: peripheral_events_def rotated_def)
next
  case (Cons event events)
  define p1 where "p1 = fst (peripheral_encode_event abi wire_size event p)"
  have "peripheral_events abi wire_size (event # events) p = peripheral_events abi wire_size events p1"
    by (simp add: peripheral_events_def p1_def)
  then show ?case
    using Cons.IH [of p1] encode_event_totals [OF Cons.prems p1_def] Cons.prems by (simp add: rotated_def)
qed

lemma keepalive_sensor_totals:
  assumes "peripheral_ok p" "length motion_totals < 256" "length (sensor_total_udeg p) < 256"
    and "keepalive = peripheral_keepalive_fill config state_of_charge room state link_cost motion_totals p" "keepalive \<noteq> []"
    and "index < length (sensor_total_udeg p)"
  shows "reported source index (Inbound_keepalive source keepalive) = [sensor_total_udeg p ! index]"
proof -
  define snapshot where "snapshot = peripheral_snapshot config state_of_charge state link_cost motion_totals p"
  have ok: "snapshot_ok snapshot"
    unfolding snapshot_def by (rule snapshot_of_ok [OF assms(1,2)])
  have enc: "keepalive = esb_keepalive_encode room snapshot"
    using assms(4) by (simp add: peripheral_keepalive_fill_def snapshot_def)
  have totals: "snap_sensor_totals snapshot = sensor_total_udeg p"
    by (simp add: snapshot_def peripheral_snapshot_def)
  have "unat (esb_keepalive_sensor_count keepalive (length keepalive)) = length (sensor_total_udeg p)"
    using encode_offsets [OF ok enc assms(5)] assms(3)
    by (simp add: esb_keepalive_sensor_count_def totals keepalive_layout unat_of_nat_u8)
  then show ?thesis
    using encode_tables(3) [OF ok enc assms(5), of index] assms(6) by (simp add: totals)
qed


text \<open>Two clicks of an encoder, the first report lost.\<close>

definition encoder_example :: peripheral where
  "encoder_example = peripheral_boot (peripheral_config_example\<lparr>peripheral_config.keymap_sensors := 1\<rparr>) 6"

definition clicks_example :: "event list" where
  "clicks_example = [Sensor_event 0 SENSOR_CHAN_ROTATION 15 0, Sensor_event 0 SENSOR_CHAN_ROTATION 15 500000]"

definition encoder_keepalive :: bytes where
  "encoder_keepalive = peripheral_keepalive_fill peripheral_config_example 90 64 0 0 []
     (peripheral_events abi_example 32 clicks_example encoder_example)"

definition encoder_central :: central where
  "encoder_central = (central_boot central_config_example 4)
     \<lparr>sensor_tracks := \<lambda>_. [\<lparr>last_udeg = 0, sensor_valid = True\<rparr>]\<rparr>"

lemma encoder_keepalive_sent:
  "encoder_keepalive \<noteq> []" "peripheral_ok encoder_example" "sensor_total_udeg encoder_example = [0]"
  "reported 1 0 (Inbound_keepalive 1 encoder_keepalive) = [30500000]"
  by code_simp+


end
