(* ===== verification/Keyboard.thy ===== *)
theory Keyboard
  imports Central
begin

text \<open>
  What the central's key handling (\<open>src/central.c\<close>) promises, as an abstract keyboard: a set of
  held positions per pipe, and the edges each message puts before ZMK. The bitmaps, verdicts and
  difference scans of \<open>Central\<close> refine it. The definitions here are the specification.
\<close>

section \<open>The abstract keyboard\<close>

type_synonym keyboard = "nat \<Rightarrow> nat set"
type_synonym key_edge = "nat \<times> nat \<times> bool"

datatype keyboard_op = Handle central_inbound | Silence nat

text \<open>Going over to a new set of positions: each difference once, in ascending order.\<close>

definition change_keys :: "nat \<Rightarrow> nat set \<Rightarrow> keyboard \<Rightarrow> keyboard \<times> key_edge list" where
  "change_keys source new held =
     (held(source := new), map (\<lambda>p. (source, p, p \<in> new))
        (filter (\<lambda>p. (p \<in> held source) \<noteq> (p \<in> new)) [0..<ESB_KEEPALIVE_POSITION_COUNT]))"

text \<open>A press of a held position is a release lost before it; a release of a free one is nothing.\<close>

fun keyboard_step :: "keyboard_op \<Rightarrow> keyboard \<Rightarrow> keyboard \<times> key_edge list" where
  "keyboard_step (Handle (Inbound_event source (Key_position p pressed))) held =
     (if source \<ge> ESB_LINK_PIPE_MAX \<or> unat p \<ge> ESB_KEEPALIVE_POSITION_COUNT then (held, [])
      else if pressed then
        (held(source := insert (unat p) (held source)),
         (if unat p \<in> held source then [(source, unat p, False)] else []) @ [(source, unat p, True)])
      else (held(source := held source - {unat p}), if unat p \<in> held source then [(source, unat p, False)] else []))"
| "keyboard_step (Handle (Inbound_keepalive source keepalive)) held =
     (if source \<ge> ESB_LINK_PIPE_MAX then (held, [])
      else change_keys source (pressed_set (esb_keepalive_bitmap keepalive)) held)"
| "keyboard_step (Silence source) held =
     (if source \<ge> ESB_LINK_PIPE_MAX then (held, []) else change_keys source {} held)"
| "keyboard_step _ held = (held, [])"

fun keyboard_run :: "keyboard_op list \<Rightarrow> keyboard \<Rightarrow> keyboard \<times> key_edge list" where
  "keyboard_run [] held = (held, [])"
| "keyboard_run (op # ops) held =
     (let (held, edges) = keyboard_step op held; (held, later) = keyboard_run ops held in (held, edges @ later))"

section \<open>The abstraction\<close>

definition central_op :: "central_config \<Rightarrow> keyboard_op \<Rightarrow> central \<Rightarrow> central \<times> zmk_call list" where
  "central_op config op c =
     (case op of Handle inbound \<Rightarrow> central_handle_inbound config inbound c | Silence source \<Rightarrow> release_stale_pipe source c)"

fun central_run :: "central_config \<Rightarrow> keyboard_op list \<Rightarrow> central \<Rightarrow> central \<times> zmk_call list" where
  "central_run config [] c = (c, [])"
| "central_run config (op # ops) c =
     (let (c, calls) = central_op config op c; (c, later) = central_run config ops c in (c, calls @ later))"

definition held_keys :: "central \<Rightarrow> keyboard" where
  "held_keys c source = pressed_set (tracked_positions c source)"

text \<open>The edges ZMK sees, of the positions the bitmap covers.\<close>

definition edge_of :: "zmk_call \<Rightarrow> key_edge list" where
  "edge_of call =
     (case call of
        Peripheral_event source (Key_position p pressed) \<Rightarrow>
          if source < ESB_LINK_PIPE_MAX \<and> unat p < ESB_KEEPALIVE_POSITION_COUNT then [(source, unat p, pressed)] else []
      | _ \<Rightarrow> [])"

definition edges_of :: "zmk_call list \<Rightarrow> key_edge list" where
  "edges_of calls = concat (map edge_of calls)"

lemma edges_of_simps [simp]:
  "edges_of [] = []" "edges_of (call # calls) = edge_of call @ edges_of calls"
  "edges_of (calls @ calls') = edges_of calls @ edges_of calls'"
  by (simp_all add: edges_of_def)

lemma edge_of_forward [simp]:
  "p < ESB_KEEPALIVE_POSITION_COUNT \<Longrightarrow> source < ESB_LINK_PIPE_MAX \<Longrightarrow>
   edge_of (forward_key_position source p pressed) = [(source, p, pressed)]"
  by (simp add: edge_of_def forward_key_position_def position_word)

lemma edge_of_other: "\<not> is_key_call call \<Longrightarrow> edge_of call = []"
  by (auto simp: is_key_call_def edge_of_def split: zmk_call.split event.split)

lemma edges_of_other: "\<forall>call \<in> set calls. \<not> is_key_call call \<Longrightarrow> edges_of calls = []"
  by (induction calls) (simp_all add: edge_of_other)

section \<open>The replay\<close>

lemma filter_upt_skip:
  assumes "a \<le> b" "b \<le> n" "\<forall>p. a \<le> p \<longrightarrow> p < b \<longrightarrow> \<not> P p"
  shows "filter P [a..<n] = filter P [b..<n]"
proof -
  have "[a..<n] = [a..<b] @ [b..<n]" using assms(1,2) by (metis le_add_diff_inverse upt_add_eq_append)
  moreover have "filter P [a..<b] = []" using assms(3) by (auto simp: filter_empty_conv)
  ultimately show ?thesis by simp
qed

lemma replay_positions_edges:
  assumes "replay_positions source target position tracked = (tracked', calls)"
    and "8 \<le> length tracked" "source < ESB_LINK_PIPE_MAX" "position \<le> ESB_KEEPALIVE_POSITION_COUNT"
    and "position < ESB_KEEPALIVE_POSITION_COUNT \<Longrightarrow>
      esb_keepalive_bitmap_get tracked position \<noteq> esb_keepalive_bitmap_get target position"
  shows "edges_of calls = map (\<lambda>p. (source, p, esb_keepalive_bitmap_get target p))
    (filter (\<lambda>p. esb_keepalive_bitmap_get tracked p \<noteq> esb_keepalive_bitmap_get target p)
      [position..<ESB_KEEPALIVE_POSITION_COUNT])"
  using assms
proof (induction source target position tracked arbitrary: tracked' calls rule: replay_positions.induct)
  case (1 source target position tracked)
  show ?case
  proof (cases "position \<ge> ESB_KEEPALIVE_POSITION_COUNT")
    case True
    then show ?thesis using "1.prems"(1) by (simp add: replay_positions.simps)
  next
    case False
    define pressed where "pressed = esb_keepalive_bitmap_get target position"
    define tracked1 where "tracked1 = esb_keepalive_bitmap_set tracked position pressed"
    define stop where "stop = esb_keepalive_bitmap_diff_next tracked1 target (position + 1)"
    obtain later where r: "replay_positions source target stop tracked1 = (tracked', later)"
      "calls = forward_key_position source position pressed # later"
      using "1.prems"(1) False
      by (auto simp: replay_positions.simps [of source target position] Let_def pressed_def tracked1_def stop_def
          split: prod.splits)
    note d = diff_next_cases [OF stop_def]
    have at: "esb_keepalive_bitmap_get tracked1 p = (if p = position then pressed else esb_keepalive_bitmap_get tracked p)" for p
      using bitmap_get_set [of tracked position p pressed] "1.prems"(2) False
      by (cases "p < ESB_KEEPALIVE_POSITION_COUNT") (auto simp: tracked1_def not_less)
    have later: "edges_of later = map (\<lambda>p. (source, p, esb_keepalive_bitmap_get target p))
        (filter (\<lambda>p. esb_keepalive_bitmap_get tracked1 p \<noteq> esb_keepalive_bitmap_get target p)
          [stop..<ESB_KEEPALIVE_POSITION_COUNT])"
      using "1.IH" [OF False pressed_def tracked1_def, folded stop_def, OF r(1)] "1.prems"(2,3) d False
      by (simp add: tracked1_def)
    have "filter (\<lambda>p. esb_keepalive_bitmap_get tracked1 p \<noteq> esb_keepalive_bitmap_get target p)
        [stop..<ESB_KEEPALIVE_POSITION_COUNT] =
      filter (\<lambda>p. esb_keepalive_bitmap_get tracked1 p \<noteq> esb_keepalive_bitmap_get target p)
        [Suc position..<ESB_KEEPALIVE_POSITION_COUNT]"
      by (rule filter_upt_skip [symmetric]) (use d False in auto)
    also have "\<dots> = filter (\<lambda>p. esb_keepalive_bitmap_get tracked p \<noteq> esb_keepalive_bitmap_get target p)
        [Suc position..<ESB_KEEPALIVE_POSITION_COUNT]"
      by (rule filter_cong) (auto simp: at)
    finally show ?thesis
      using later r(2) False "1.prems"(3,5)
      by (simp add: upt_conv_Cons pressed_def)
  qed
qed

lemma replay_position_diff_refines:
  assumes "replay_position_diff source target c = (c', calls)" and "tracks_ok c" and "source < ESB_LINK_PIPE_MAX"
  shows "change_keys source (pressed_set target) (held_keys c) = (held_keys c', edges_of calls)" and "tracks_ok c'"
proof -
  define start where "start = esb_keepalive_bitmap_diff_next (tracked_positions c source) target 0"
  have len: "8 \<le> length (tracked_positions c source)" using assms(2) by (simp add: tracks_ok_def)
  obtain tracked where r: "replay_positions source target start (tracked_positions c source) = (tracked, calls)"
    using assms(1,3) by (auto simp: replay_position_diff_def start_def split: prod.splits)
  note d = diff_next_cases [OF start_def]
  note spec = replay_position_diff_spec [OF assms(1,3) len]
  have "edges_of calls = map (\<lambda>p. (source, p, p \<in> pressed_set target))
      (filter (\<lambda>p. (p \<in> held_keys c source) \<noteq> (p \<in> pressed_set target)) [start..<ESB_KEEPALIVE_POSITION_COUNT])"
    using replay_positions_edges [OF r len assms(3)] d by (simp add: held_keys_def pressed_set_def)
  also have "filter (\<lambda>p. (p \<in> held_keys c source) \<noteq> (p \<in> pressed_set target)) [start..<ESB_KEEPALIVE_POSITION_COUNT] =
      filter (\<lambda>p. (p \<in> held_keys c source) \<noteq> (p \<in> pressed_set target)) [0..<ESB_KEEPALIVE_POSITION_COUNT]"
    by (rule filter_upt_skip [symmetric]) (use d in \<open>auto simp: held_keys_def pressed_set_def\<close>)
  finally show "change_keys source (pressed_set target) (held_keys c) = (held_keys c', edges_of calls)"
    using spec by (auto simp: change_keys_def held_keys_def fun_eq_iff)
  show "tracks_ok c'" using spec assms(2) by (metis tracks_ok_def)
qed

section \<open>Each operation refines its step\<close>

lemma key_event_refines:
  assumes "deliver_key_event source (Key_position p pressed) c = (c', calls)" and "tracks_ok c"
  shows "keyboard_step (Handle (Inbound_event source (Key_position p pressed))) (held_keys c) = (held_keys c', edges_of calls)"
    and "tracks_ok c'"
proof -
  have upd: "pressed_set (esb_keepalive_bitmap_set (tracked_positions c source) (unat p) pressed) =
      (if pressed then insert (unat p) (held_keys c source) else held_keys c source - {unat p})"
    if "unat p < ESB_KEEPALIVE_POSITION_COUNT"
    using assms(2) that unfolding held_keys_def by (intro pressed_set_update) (auto simp: tracks_ok_def)
  have get: "esb_keepalive_bitmap_get (tracked_positions c source) (unat p) \<longleftrightarrow> unat p \<in> held_keys c source"
    by (simp add: pressed_set_def held_keys_def)
  have other: "held_keys (c\<lparr>tracked_positions := (tracked_positions c)(source := bitmap)\<rparr>) =
      (held_keys c)(source := pressed_set bitmap)" for bitmap
    by (rule ext) (simp add: held_keys_def)
  show "keyboard_step (Handle (Inbound_event source (Key_position p pressed))) (held_keys c) = (held_keys c', edges_of calls)"
  proof (cases "source \<ge> ESB_LINK_PIPE_MAX \<or> unat p \<ge> ESB_KEEPALIVE_POSITION_COUNT")
    case True
    then have "c' = c" "calls = [Peripheral_event source (Key_position p pressed)]"
      using assms(1) by (simp_all add: deliver_key_event_def)
    then show ?thesis using True by (auto simp: edge_of_def)
  next
    case False
    then have inside: "source < ESB_LINK_PIPE_MAX" "unat p < ESB_KEEPALIVE_POSITION_COUNT" by simp_all
    define c1 where "c1 = c\<lparr>tracked_positions := (tracked_positions c)
      (source := esb_keepalive_bitmap_set (tracked_positions c source) (unat p) pressed)\<rparr>"
    have c1: "held_keys c1 = (held_keys c)
        (source := (if pressed then insert (unat p) (held_keys c source) else held_keys c source - {unat p}))"
      unfolding c1_def other upd [OF inside(2)] ..
    have run: "deliver_key_event source (Key_position p pressed) c =
        (if \<not> pressed \<and> unat p \<notin> held_keys c source then (c, [])
         else if pressed \<and> unat p \<in> held_keys c source
         then (c1, [forward_key_position source (unat p) False, Peripheral_event source (Key_position p pressed)])
         else (c1, [Peripheral_event source (Key_position p pressed)]))"
      using inside by (simp add: deliver_key_event_def esb_keepalive_key_verdict_def get c1_def Let_def)
    have edge: "edge_of (Peripheral_event source (Key_position p pressed)) = [(source, unat p, pressed)]"
      using inside by (simp add: edge_of_def)
    show ?thesis
      using assms(1) inside c1 edge unfolding run
      by (cases pressed; cases "unat p \<in> held_keys c source") (auto simp: fun_upd_idem)
  qed
  show "tracks_ok c'"
    using deliver_key_event_spec [OF assms(1,2), of 0] by (simp add: ESB_LINK_PIPE_MAX_def)
qed

lemma keepalive_refines:
  assumes "central_handle_inbound config (Inbound_keepalive source keepalive) c = (c', calls)" and "tracks_ok c"
  shows "keyboard_step (Handle (Inbound_keepalive source keepalive)) (held_keys c) = (held_keys c', edges_of calls)"
    and "tracks_ok c'"
proof -
  obtain c1 replayed where r: "replay_position_diff source (esb_keepalive_bitmap keepalive) c = (c1, replayed)" by fastforce
  obtain c2 battery where b: "(if battery_reporting config \<and> \<not> ble_battery_fetching config
      then reconcile_battery source (esb_keepalive_battery_level keepalive) c1 else (c1, [])) = (c2, battery)" by fastforce
  obtain sensors where s: "reconcile_sensor_totals config source keepalive c2 = (c', sensors)"
    and calls: "calls = replayed @ battery @ sensors"
    using assms(1) r b by (auto simp: central_handle_inbound_def split: prod.splits)
  have positions: "tracked_positions c' = tracked_positions c1"
    using b reconcile_sensor_totals_positions [OF s] by (auto simp: reconcile_battery_def split: if_splits)
  have "\<forall>call \<in> set battery. \<not> is_key_call call"
    using b by (auto simp: reconcile_battery_def split: if_splits)
  moreover have "\<forall>call \<in> set sensors. \<not> is_key_call call"
    using s reconcile_sensor_indices_spec by (auto simp: reconcile_sensor_totals_def split: if_splits)
  ultimately have edges: "edges_of calls = edges_of replayed"
    by (simp add: calls edges_of_other)
  have keys: "held_keys c' = held_keys c1" "tracks_ok c' = tracks_ok c1"
    by (auto simp: held_keys_def tracks_ok_def positions)
  show "keyboard_step (Handle (Inbound_keepalive source keepalive)) (held_keys c) = (held_keys c', edges_of calls)"
    using replay_position_diff_refines(1) [OF r assms(2)] r
    by (auto simp: edges keys replay_position_diff_def)
  show "tracks_ok c'"
    using replay_position_diff_refines(2) [OF r assms(2)] r assms(2)
    by (cases "source < ESB_LINK_PIPE_MAX") (auto simp: keys replay_position_diff_def)
qed

lemma silence_refines:
  assumes "release_stale_pipe source c = (c', calls)" and "tracks_ok c"
  shows "keyboard_step (Silence source) (held_keys c) = (held_keys c', edges_of calls)" and "tracks_ok c'"
proof -
  obtain c1 replayed where r: "replay_position_diff source (replicate ESB_KEEPALIVE_BITMAP_BYTES 0) c = (c1, replayed)" by fastforce
  obtain released where u: "update_input source (central_input_release_pipe source) c1 = (c', released)"
    and calls: "calls = replayed @ released"
    using assms(1) r by (auto simp: release_stale_pipe_def split: prod.splits)
  have "edges_of released = []" "tracked_positions c' = tracked_positions c1"
    using u by (auto simp: update_input_def central_input_release_pipe_def edge_of_def edges_of_def split: if_splits)
  then have keys: "held_keys c' = held_keys c1" "tracks_ok c' = tracks_ok c1" "edges_of calls = edges_of replayed"
    by (auto simp: held_keys_def tracks_ok_def calls)
  show "keyboard_step (Silence source) (held_keys c) = (held_keys c', edges_of calls)"
    using replay_position_diff_refines(1) [OF r assms(2)] r
    by (auto simp: keys replay_position_diff_def pressed_set_blank)
  show "tracks_ok c'"
    using replay_position_diff_refines(2) [OF r assms(2)] r assms(2)
    by (cases "source < ESB_LINK_PIPE_MAX") (auto simp: keys replay_position_diff_def)
qed

lemma other_event_refines:
  assumes "central_handle_inbound config (Inbound_event source event) c = (c', calls)" and "\<nexists>p b. event = Key_position p b"
  shows "tracked_positions c' = tracked_positions c \<and> edges_of calls = []"
  using assms sensor_delta_value_positions
  by (cases event) (auto simp: central_handle_inbound_def sensor_event_to_delta_def reconcile_battery_def edge_of_def
      split: if_splits option.splits prod.splits)

lemma central_op_refines:
  assumes "central_op config op c = (c', calls)" and "tracks_ok c"
  shows "keyboard_step op (held_keys c) = (held_keys c', edges_of calls) \<and> tracks_ok c'"
proof (cases op)
  case (Silence source)
  then show ?thesis using silence_refines [of source c c' calls] assms by (simp add: central_op_def)
next
  case (Handle inbound)
  show ?thesis
  proof (cases inbound)
    case (Inbound_keepalive source keepalive)
    then show ?thesis using keepalive_refines [of config source keepalive c c' calls] assms Handle by (simp add: central_op_def)
  next
    case (Inbound_event source event)
    show ?thesis
    proof (cases "\<exists>p b. event = Key_position p b")
      case True
      then obtain p b where event: "event = Key_position p b" by blast
      then have "deliver_key_event source (Key_position p b) c = (c', calls)"
        using assms(1) by (simp add: central_op_def Handle Inbound_event central_handle_inbound_def)
      then show ?thesis using key_event_refines assms(2) by (simp add: Handle Inbound_event event)
    next
      case False
      then have "tracked_positions c' = tracked_positions c" "edges_of calls = []"
        using other_event_refines assms(1) by (simp_all add: central_op_def Handle Inbound_event)
      moreover have "keyboard_step op (held_keys c) = (held_keys c, [])"
        using False by (cases event) (simp_all add: Handle Inbound_event)
      ultimately show ?thesis
        using assms(2) by (auto simp: held_keys_def tracks_ok_def)
    qed
  qed
qed

text \<open>
  Claim C7: the central's key handling refines the abstract keyboard: over every run of events,
  keepalives and silences of any peripherals, what it tracks abstracts to the keyboard's held
  positions and the edges ZMK is given are exactly the keyboard's, in its order: a press of a
  held key is released first, a release of a free one is dropped, a keepalive replays each
  difference once in ascending order, and a silent pipe is released key by key.
\<close>

theorem central_refines_keyboard:
  assumes "tracks_ok c" and "central_run config ops c = (c', calls)"
  shows "keyboard_run ops (held_keys c) = (held_keys c', edges_of calls) \<and> tracks_ok c'"
  using assms
proof (induction ops arbitrary: c calls)
  case (Cons op ops)
  obtain c1 first where o: "central_op config op c = (c1, first)" by fastforce
  obtain later where l: "central_run config ops c1 = (c', later)" "calls = first @ later"
    using Cons.prems(2) o by (auto split: prod.splits)
  show ?case
    using Cons.IH [OF _ l(1)] central_op_refines [OF o Cons.prems(1)] l(2) by simp
qed simp

text \<open>A repeated press, then silence.\<close>

theorem central_refines_keyboard_witness:
  "edges_of (snd (central_run central_config_example
      [Handle (Inbound_event 1 (Key_position 3 True)), Handle (Inbound_event 1 (Key_position 3 True)), Silence 1]
      central_example)) = [(1, 3, True), (1, 3, False), (1, 3, True), (1, 3, False)]"
proof -
  define ops where "ops = [Handle (Inbound_event 1 (Key_position 3 True)), Handle (Inbound_event 1 (Key_position 3 True)), Silence 1]"
  obtain c' calls where run: "central_run central_config_example ops central_example = (c', calls)" by fastforce
  have "held_keys central_example = (\<lambda>_. {})" by (simp add: held_keys_def central_example_pressed fun_eq_iff)
  with central_refines_keyboard [OF central_example_tracks run]
  have "edges_of calls = snd (keyboard_run ops (\<lambda>_. {}))" by simp
  also have "\<dots> = [(1, 3, True), (1, 3, False), (1, 3, True), (1, 3, False)]"
    by (simp add: ops_def change_keys_def ESB_LINK_PIPE_MAX_def keepalive_layout upt_rec)
  finally show ?thesis unfolding ops_def [symmetric] run by simp
qed

end
