(* ===== verification/Rejoin.thy ===== *)
theory Rejoin
  imports System
begin

text \<open>
  A peripheral out of touch with the central, in any state of its hop engine
  (\<open>src/hop_peripheral.c\<close>), while the central holds its channel and sends beacons
  (\<open>src/hop_central.c\<close>). A window here is one keepalive period: the keepalive on the air,
  then \<open>keepalive_work_fn\<close>. The definitions are runs and specifications.
\<close>

section \<open>Windows\<close>

text \<open>On the central's channel \<open>c\<close> the keepalive is either lost or acknowledged in so many
  attempts, and a beacon may come back with the ACK; on any other channel the packet fails.\<close>

type_synonym air = "(u8 \<times> bytes option) option"

definition air_window ::
  "hop_peripheral_config \<Rightarrow> nat \<Rightarrow> u8 \<Rightarrow> air \<Rightarrow> hop_peripheral \<times> peripheral \<Rightarrow> hop_peripheral \<times> peripheral" where
  "air_window config pipe c window = (\<lambda>(hp, p).
     (let (hp, p) =
            (case (if applied_index (tuned hp) = c then window else None) of
               Some (attempts, packet) \<Rightarrow>
                 let hp = hop_note_tx_success config attempts hp
                 in case packet of
                      None \<Rightarrow> (hp, p)
                    | Some data \<Rightarrow> let (hp, p, consumed) = hop_consume_rx config pipe data hp p in (hp, p)
             | None \<Rightarrow> (hop_note_tx_failed config hp, p))
      in (fst (keepalive_work_fn config Ok hp), p)))"

primrec air_run ::
  "hop_peripheral_config \<Rightarrow> nat \<Rightarrow> u8 \<Rightarrow> (nat \<Rightarrow> air) \<Rightarrow> nat \<Rightarrow> hop_peripheral \<times> peripheral \<Rightarrow> hop_peripheral \<times> peripheral" where
  "air_run config pipe c windows 0 state = state"
| "air_run config pipe c windows (Suc k) state =
     air_window config pipe c (windows k) (air_run config pipe c windows k state)"

text \<open>Between two windows: the results of the last one settled, its epoch adopted, its counters
  cleared, and every index in the pool.\<close>

definition in_pool :: "hop_peripheral_config \<Rightarrow> hop_peripheral \<Rightarrow> bool" where
  "in_pool config hp \<longleftrightarrow> applied_index (tuned hp) = hop_index (tuned hp) \<and>
     unat (hop_index (tuned hp)) < HOP_COUNT (channel_pool config) \<and>
     (degrade_undo_armed hp \<longrightarrow> unat (degrade_undo_index hp) < HOP_COUNT (channel_pool config))"

definition window_done :: "hop_peripheral_config \<Rightarrow> hop_peripheral \<Rightarrow> bool" where
  "window_done config hp \<longleftrightarrow>
     \<not> tx_failed_since_tick hp \<and> \<not> tx_succeeded_since_tick hp \<and> \<not> noack_sent_since_tick hp \<and>
     adopted_epoch hp = beacon_epoch hp \<and>
     window_attempts_sum hp = 0 \<and> window_packets hp = 0 \<and> window_noack_packets hp = 0 \<and>
     unat (sweep_windows hp) < ESB_HOP_SWEEP_DWELL_WINDOWS config"

definition camped :: "u8 \<Rightarrow> hop_peripheral \<Rightarrow> bool" where
  "camped c hp \<longleftrightarrow> hop_index (tuned hp) = c \<and> link_acked hp \<and> \<not> degrade_undo_armed hp"

definition beacon_of :: "hop_peripheral_config \<Rightarrow> u8 \<Rightarrow> bytes \<Rightarrow> bool" where
  "beacon_of config epoch data \<longleftrightarrow> (\<exists>beacon. data = beacon_bytes beacon \<and> beacon_epoch_of beacon = epoch \<and>
     length (beacon_peers beacon) = beacon_peer_count (channel_pool config))"

lemma beacon_consumed:
  assumes "beacon_of config epoch data" and "beacon_peer_count (channel_pool config) \<le> 8"
    and "hop_consume_rx config pipe data hp p = (hp', p', consumed)"
  shows "\<exists>rssi peers. hp' = hp\<lparr>beacon_epoch := epoch, uplink_rssi_dbm := rssi, peer_table := peers\<rparr>"
proof -
  obtain beacon where data: "data = beacon_bytes beacon" "beacon_epoch_of beacon = epoch"
    and peers: "length (beacon_peers beacon) = beacon_peer_count (channel_pool config)"
    using assms(1) by (auto simp: beacon_of_def)
  have len: "length (beacon_bytes beacon) = ESB_BEACON_LENGTH (channel_pool config)"
    by (rule length_beacon_bytes [OF peers])
  have "ESB_BEACON_LENGTH (channel_pool config) < 256" "0 < ESB_BEACON_LENGTH (channel_pool config)"
    using assms(2) by (simp_all add: ESB_BEACON_LENGTH_def)
  then have "(of_nat (length (beacon_bytes beacon)) :: u8) \<noteq> 0"
    using unat_of_nat_u8 [of "length (beacon_bytes beacon)"] len by auto
  then have "hp' = hp\<lparr>beacon_epoch := epoch, uplink_rssi_dbm := uplink_rssi_dbm hp', peer_table := peer_table hp'\<rparr>"
    using assms(3) len data
    by (auto simp: hop_consume_rx_def beacon_tag_bytes consume_beacon_def beacon_of_bytes_bytes [OF peers] Let_def)
  then show ?thesis by blast
qed

section \<open>One window\<close>

lemma tune_to_applied:
  "applied_index (tuned (fst (tune_to config Ok index hp))) = index"
  by (simp add: tune_to_def apply_hop_channel_def apply_channel_index_def split_beta)

lemma tune_to_window [simp]:
  "tx_failed_since_tick (fst (tune_to config set_error index hp)) = tx_failed_since_tick hp"
  "noack_sent_since_tick (fst (tune_to config set_error index hp)) = noack_sent_since_tick hp"
  "window_attempts_sum (fst (tune_to config set_error index hp)) = window_attempts_sum hp"
  "window_packets (fst (tune_to config set_error index hp)) = window_packets hp"
  "window_noack_packets (fst (tune_to config set_error index hp)) = window_noack_packets hp"
  by (simp_all add: tune_to_def split_beta)

lemma ensure_mask_window [simp]:
  "tx_failed_since_tick (ensure_mask config hp) = tx_failed_since_tick hp"
  "noack_sent_since_tick (ensure_mask config hp) = noack_sent_since_tick hp"
  "window_attempts_sum (ensure_mask config hp) = window_attempts_sum hp"
  "window_packets (ensure_mask config hp) = window_packets hp"
  "window_noack_packets (ensure_mask config hp) = window_noack_packets hp"
  "degrade_undo_index (ensure_mask config hp) = degrade_undo_index hp"
  "bad_windows (ensure_mask config hp) = bad_windows hp"
  "max_tx_attempts (ensure_mask config hp) = max_tx_attempts hp"
  by (simp_all add: ensure_mask_def)

lemma retain_window [simp]:
  "tx_failed_since_tick (retain_link_state hp) = tx_failed_since_tick hp"
  "tx_succeeded_since_tick (retain_link_state hp) = tx_succeeded_since_tick hp"
  "noack_sent_since_tick (retain_link_state hp) = noack_sent_since_tick hp"
  "window_attempts_sum (retain_link_state hp) = window_attempts_sum hp"
  "window_packets (retain_link_state hp) = window_packets hp"
  "window_noack_packets (retain_link_state hp) = window_noack_packets hp"
  "sweep_windows (retain_link_state hp) = sweep_windows hp"
  "beacon_epoch (retain_link_state hp) = beacon_epoch hp"
  "degrade_undo_armed (retain_link_state hp) = degrade_undo_armed hp"
  "degrade_undo_index (retain_link_state hp) = degrade_undo_index hp"
  by (simp_all add: retain_link_state_def Let_def)

lemma adopt_staged_window [simp]:
  "tx_failed_since_tick (adopt_staged_mask hp) = tx_failed_since_tick hp"
  "tx_succeeded_since_tick (adopt_staged_mask hp) = tx_succeeded_since_tick hp"
  "noack_sent_since_tick (adopt_staged_mask hp) = noack_sent_since_tick hp"
  "beacon_epoch (adopt_staged_mask hp) = beacon_epoch hp" "adopted_epoch (adopt_staged_mask hp) = adopted_epoch hp"
  "link_acked (adopt_staged_mask hp) = link_acked hp"
  by (simp_all add: adopt_staged_mask_def split: option.splits)

text \<open>The three branches of the keepalive's window.\<close>

definition hop_window :: "hop_peripheral_config \<Rightarrow> hop_peripheral \<Rightarrow> hop_peripheral" where
  "hop_window config hp =
     (if beacon_epoch hp \<noteq> adopted_epoch hp then fst (adopt_epoch config Ok (beacon_epoch hp) hp)
      else if link_acked hp then fst (connected_window config Ok hp)
      else fst (lost_window config Ok hp))"

lemma keepalive_hop_window:
  assumes "1 < HOP_COUNT (channel_pool config)"
  shows "fst (keepalive_work_fn config Ok hp) =
    (let hp = hop_window config (ensure_mask config (settle_link_state hp))
     in (if link_acked hp then retain_link_state hp else hp)\<lparr>data_sent_since_tick := False\<rparr>)"
  using assms by (simp add: keepalive_work_fn_def hop_window_def Let_def split_beta)

lemma adopt_epoch_window:
  assumes "0 < HOP_COUNT (channel_pool config)" "HOP_COUNT (channel_pool config) < 255"
    and "hp' = fst (adopt_epoch config Ok epoch hp)"
  shows "in_pool config hp'" and "adopted_epoch hp' = epoch" "beacon_epoch hp' = beacon_epoch hp" "link_acked hp' = link_acked hp"
    and "\<not> degrade_undo_armed hp'" "sweep_windows hp' = 0"
    and "tx_failed_since_tick hp' = tx_failed_since_tick hp" "tx_succeeded_since_tick hp' = tx_succeeded_since_tick hp"
    and "noack_sent_since_tick hp' = noack_sent_since_tick hp"
    and "window_attempts_sum hp' = 0" "window_packets hp' = 0" "window_noack_packets hp' = 0"
proof -
  note fields = adopt_epoch_def clear_window_attempts_def Let_def split_beta
  show "in_pool config hp'"
    using channel_for_epoch_masked_spec [of "HOP_COUNT (channel_pool config)" "ucast epoch"] assms
    by (auto simp: in_pool_def fields tune_to_applied)
qed (simp_all add: assms(3) adopt_epoch_def clear_window_attempts_def Let_def split_beta)

lemma connected_window_stays:
  assumes "hop_policy_attempts_penalty (hop_policy_acked_window_attempts (window_attempts_sum hp) (window_packets hp)
      (window_noack_packets hp)) HOP_POLICY_GOOD_TX_ATTEMPTS = 0"
    and "hp' = fst (connected_window config Ok hp)"
  shows "tuned hp' = tuned hp" "\<not> degrade_undo_armed hp'"
  using assms by (simp_all add: connected_window_def hop_policy_should_hop_def clear_window_attempts_def Let_def)

lemma connected_window_fields:
  assumes "0 < HOP_COUNT (channel_pool config)" "HOP_COUNT (channel_pool config) < 255" "in_pool config hp"
    and "hp' = fst (connected_window config Ok hp)"
  shows "in_pool config hp'" and "adopted_epoch hp' = adopted_epoch hp" "beacon_epoch hp' = beacon_epoch hp"
    and "link_acked hp' = link_acked hp" "sweep_windows hp' = 0"
    and "tx_failed_since_tick hp' = tx_failed_since_tick hp" "tx_succeeded_since_tick hp' = tx_succeeded_since_tick hp"
    and "noack_sent_since_tick hp' = noack_sent_since_tick hp"
    and "window_attempts_sum hp' = 0" "window_packets hp' = 0" "window_noack_packets hp' = 0"
proof -
  show "in_pool config hp'"
    using index_next_active_spec [of "HOP_COUNT (channel_pool config)" "hop_index (tuned hp)"] assms
    by (auto simp: in_pool_def connected_window_def clear_window_attempts_def Let_def split_beta tune_to_applied)
qed (simp_all add: assms(4) connected_window_def clear_window_attempts_def Let_def split_beta)

lemma lost_window_fields:
  assumes "0 < HOP_COUNT (channel_pool config)" "HOP_COUNT (channel_pool config) < 255" "in_pool config hp"
    and "ESB_HOP_SWEEP_DWELL_WINDOWS config \<le> 65536" and "hp' = fst (lost_window config Ok hp)"
  shows "in_pool config hp'" and "adopted_epoch hp' = adopted_epoch hp" "beacon_epoch hp' = beacon_epoch hp"
    and "link_acked hp' = link_acked hp" "\<not> degrade_undo_armed hp'"
    and "unat (sweep_windows hp') = (unat (sweep_windows hp) + 1) mod ESB_HOP_SWEEP_DWELL_WINDOWS config"
    and "tx_failed_since_tick hp' = tx_failed_since_tick hp" "tx_succeeded_since_tick hp' = tx_succeeded_since_tick hp"
    and "noack_sent_since_tick hp' = noack_sent_since_tick hp"
    and "window_attempts_sum hp' = 0" "window_packets hp' = 0" "window_noack_packets hp' = 0"
    and "\<not> degrade_undo_armed hp \<Longrightarrow> unat (hop_index (tuned hp')) =
      (if (unat (sweep_windows hp) + 1) mod ESB_HOP_SWEEP_DWELL_WINDOWS config = 0
       then (unat (hop_index (tuned hp)) + 1) mod HOP_COUNT (channel_pool config) else unat (hop_index (tuned hp)))"
proof -
  define D where "D = ESB_HOP_SWEEP_DWELL_WINDOWS config"
  define s where "s = (unat (sweep_windows hp) + 1) mod D"
  have "0 < D" "D \<le> 65536" using dwell_pos [of config] assms(4) by (simp_all add: D_def)
  then have "s < 65536" using mod_less_divisor [of D "unat (sweep_windows hp) + 1"] unfolding s_def by linarith
  then have word: "unat (of_nat s :: u16) = s" "(of_nat s :: u16) = 0 \<longleftrightarrow> s = 0"
    by (simp add: unat_of_nat take_bit_nat_eq_self, simp add: word_unat_eq_iff unat_of_nat take_bit_nat_eq_self)
  have run: "lost_window config Ok hp =
      (let hp = (clear_window_attempts hp)\<lparr>bad_windows := 0, sweep_windows := of_nat s\<rparr>
       in if degrade_undo_armed hp then tune_to config Ok (degrade_undo_index hp) (hp\<lparr>degrade_undo_armed := False\<rparr>)
          else if s = 0 then tune_to config Ok (hop_policy_index_next (hop_index (tuned hp)) (HOP_COUNT (channel_pool config))) hp
          else (hp, []))"
    using word(2) by (simp add: lost_window_def s_def D_def [symmetric] clear_window_attempts_def Let_def)
  have idx: "unat (hop_policy_index_next (hop_index (tuned hp)) (HOP_COUNT (channel_pool config))) =
      (unat (hop_index (tuned hp)) + 1) mod HOP_COUNT (channel_pool config)"
    using assms(3) by (intro index_next_unat [OF assms(1,2)]) (simp add: in_pool_def)
  show "in_pool config hp'"
    using assms(1,3) idx by (auto simp: assms(5) run in_pool_def clear_window_attempts_def tune_to_applied Let_def)
  show "unat (sweep_windows hp') = (unat (sweep_windows hp) + 1) mod ESB_HOP_SWEEP_DWELL_WINDOWS config"
    by (simp add: assms(5) run clear_window_attempts_def Let_def word(1)) (simp add: s_def D_def)
  show "unat (hop_index (tuned hp')) =
      (if (unat (sweep_windows hp) + 1) mod ESB_HOP_SWEEP_DWELL_WINDOWS config = 0
       then (unat (hop_index (tuned hp)) + 1) mod HOP_COUNT (channel_pool config) else unat (hop_index (tuned hp)))"
    if "\<not> degrade_undo_armed hp"
    using that idx by (simp add: assms(5) run clear_window_attempts_def Let_def) (simp add: s_def D_def)
qed (simp_all add: assms(5) lost_window_def clear_window_attempts_def Let_def)

lemma settle_window [simp]:
  "\<not> tx_failed_since_tick (settle_link_state hp)" "\<not> tx_succeeded_since_tick (settle_link_state hp)"
  "\<not> noack_sent_since_tick (settle_link_state hp)"
  "tuned (settle_link_state hp) = tuned hp" "beacon_epoch (settle_link_state hp) = beacon_epoch hp"
  "adopted_epoch (settle_link_state hp) = adopted_epoch hp"
  "degrade_undo_armed (settle_link_state hp) = degrade_undo_armed hp"
  "degrade_undo_index (settle_link_state hp) = degrade_undo_index hp"
  "sweep_windows (settle_link_state hp) = sweep_windows hp"
  "window_attempts_sum (settle_link_state hp) = window_attempts_sum hp"
  "window_packets (settle_link_state hp) = window_packets hp"
  "window_noack_packets (settle_link_state hp) = window_noack_packets hp"
  by (simp_all add: settle_link_state_def Let_def)

lemma in_pool_window [simp]:
  "in_pool config (ensure_mask config hp) = in_pool config hp"
  "in_pool config (settle_link_state hp) = in_pool config hp"
  "in_pool config (retain_link_state hp) = in_pool config hp"
  by (simp_all add: in_pool_def)

text \<open>What a keepalive's window leaves, from any state.\<close>

lemma keepalive_window_done:
  assumes "1 < HOP_COUNT (channel_pool config)" "HOP_COUNT (channel_pool config) < 255"
    and "ESB_HOP_SWEEP_DWELL_WINDOWS config \<le> 65536" "in_pool config hp"
  shows "window_done config (fst (keepalive_work_fn config Ok hp)) \<and> in_pool config (fst (keepalive_work_fn config Ok hp))"
proof -
  define hp1 where "hp1 = ensure_mask config (settle_link_state hp)"
  define hp2 where "hp2 = hop_window config hp1"
  have n: "0 < HOP_COUNT (channel_pool config)" "HOP_COUNT (channel_pool config) < 255" using assms(1,2) by simp_all
  have pool: "in_pool config hp1" and flags: "\<not> tx_failed_since_tick hp1" "\<not> tx_succeeded_since_tick hp1"
    "\<not> noack_sent_since_tick hp1"
    using assms(4) by (simp_all add: hp1_def)
  have dwell: "0 < ESB_HOP_SWEEP_DWELL_WINDOWS config" using dwell_pos [of config] by simp
  consider (adopt) "hp2 = fst (adopt_epoch config Ok (beacon_epoch hp1) hp1)"
    | (connected) "beacon_epoch hp1 = adopted_epoch hp1" "hp2 = fst (connected_window config Ok hp1)"
    | (lost) "beacon_epoch hp1 = adopted_epoch hp1" "hp2 = fst (lost_window config Ok hp1)"
    unfolding hp2_def hop_window_def by (metis (full_types))
  then have "window_done config hp2 \<and> in_pool config hp2"
  proof cases
    case adopt
    from adopt_epoch_window [OF n this] show ?thesis using flags dwell by (simp add: window_done_def)
  next
    case connected
    from connected_window_fields [OF n pool connected(2)] show ?thesis using connected(1) flags dwell by (simp add: window_done_def)
  next
    case lost
    from lost_window_fields [OF n pool assms(3) lost(2)] show ?thesis using lost(1) flags dwell by (simp add: window_done_def)
  qed
  then show ?thesis
    by (simp add: keepalive_hop_window [OF assms(1)] Let_def hp1_def [symmetric] hp2_def [symmetric])
      (auto simp: window_done_def in_pool_def)
qed

section \<open>Windows on and off the channel\<close>

lemma few_attempts:
  assumes "attempts \<le> HOP_POLICY_GOOD_TX_ATTEMPTS"
  shows "hop_policy_acked_window_attempts (ucast attempts) 1 0 \<le> HOP_POLICY_GOOD_TX_ATTEMPTS"
proof -
  have "unat attempts \<le> 2" using assms by (simp add: word_le_nat_alt HOP_POLICY_GOOD_TX_ATTEMPTS_def)
  then have "(ucast attempts :: u32) \<le> 255"
    by (simp add: word_le_nat_alt unsigned_ucast_eq take_bit_nat_eq_self)
  then have "ucast (min (ucast attempts :: u32) 255) = attempts"
    by (simp add: min_absorb1 ucast_up_ucast_id is_up)
  then show ?thesis
    using assms by (simp add: hop_policy_acked_window_attempts_def hop_policy_window_attempts_def)
qed


definition air_ok :: "hop_peripheral_config \<Rightarrow> bool" where
  "air_ok config \<longleftrightarrow> 1 < HOP_COUNT (channel_pool config) \<and> HOP_COUNT (channel_pool config) < 255 \<and>
     ESB_HOP_SWEEP_DWELL_WINDOWS config \<le> 65536 \<and> beacon_peer_count (channel_pool config) \<le> 8"

text \<open>Contact: an acknowledged keepalive took few attempts, and no packet comes but the beacon.\<close>

definition clean_air :: "hop_peripheral_config \<Rightarrow> u8 \<Rightarrow> air \<Rightarrow> bool" where
  "clean_air config epoch window = (case window of None \<Rightarrow> True
     | Some (attempts, packet) \<Rightarrow> attempts \<le> HOP_POLICY_GOOD_TX_ATTEMPTS \<and>
         (case packet of None \<Rightarrow> True | Some data \<Rightarrow> beacon_of config epoch data))"

definition acked :: "air \<Rightarrow> bool" where
  "acked window \<longleftrightarrow> window \<noteq> None"

definition beacon_heard :: "air \<Rightarrow> bool" where
  "beacon_heard window \<longleftrightarrow> acked window \<and> snd (the window) \<noteq> None"

lemma beacon_heard_acked: "beacon_heard window \<Longrightarrow> acked window"
  by (simp add: beacon_heard_def)

text \<open>The state \<open>keepalive_work_fn\<close> starts from in a window.\<close>

lemma air_window_on:
  assumes "air_ok config" "clean_air config epoch window" "applied_index (tuned hp) = c" "acked window"
  obtains rssi peers where "fst (air_window config pipe c window (hp, p)) = fst (keepalive_work_fn config Ok
      (let hp = hop_note_tx_success config (fst (the window)) hp
       in if beacon_heard window then hp\<lparr>beacon_epoch := epoch, uplink_rssi_dbm := rssi, peer_table := peers\<rparr> else hp))"
proof -
  obtain attempts packet where window: "window = Some (attempts, packet)" using assms(4) by (auto simp: acked_def)
  show thesis
  proof (cases packet)
    case None
    then show thesis
      using that assms(3) by (simp add: window air_window_def acked_def beacon_heard_def split_beta)
  next
    case (Some data)
    obtain hp' p' consumed where rx: "hop_consume_rx config pipe data (hop_note_tx_success config attempts hp) p = (hp', p', consumed)"
      by (metis surj_pair)
    have "beacon_of config epoch data" using assms(2) Some by (simp add: window clean_air_def)
    from beacon_consumed [OF this _ rx] assms(1)
    obtain rssi peers where "hp' = (hop_note_tx_success config attempts hp)\<lparr>beacon_epoch := epoch,
        uplink_rssi_dbm := rssi, peer_table := peers\<rparr>"
      by (auto simp: air_ok_def)
    then show thesis
      using that [where rssi = rssi and peers = peers] assms(3) Some rx
      by (simp add: window air_window_def acked_def beacon_heard_def split_beta Let_def)
  qed
qed

lemma air_window_off:
  "applied_index (tuned hp) \<noteq> c \<or> \<not> acked window \<Longrightarrow>
   fst (air_window config pipe c window (hp, p)) = fst (keepalive_work_fn config Ok (hop_note_tx_failed config hp))"
  by (cases window) (auto simp: air_window_def acked_def split_beta)

lemma in_pool_notes [simp]:
  "in_pool config (hop_note_tx_success config attempts hp) = in_pool config hp"
  "in_pool config (hop_note_tx_failed config hp) = in_pool config hp"
  by (simp_all add: in_pool_def hop_note_tx_success_def hop_note_tx_failed_def record_tx_attempts_def Let_def)

lemma in_pool_beacon [simp]:
  "in_pool config (hp\<lparr>beacon_epoch := epoch, uplink_rssi_dbm := rssi, peer_table := peers\<rparr>) = in_pool config hp"
  by (simp add: in_pool_def)

lemma air_window_done:
  assumes "air_ok config" "clean_air config epoch window" "in_pool config hp"
  shows "window_done config (fst (air_window config pipe c window (hp, p))) \<and>
    in_pool config (fst (air_window config pipe c window (hp, p)))"
proof (cases "applied_index (tuned hp) = c \<and> acked window")
  case True
  obtain rssi peers where "fst (air_window config pipe c window (hp, p)) = fst (keepalive_work_fn config Ok
      (let hp = hop_note_tx_success config (fst (the window)) hp
       in if beacon_heard window then hp\<lparr>beacon_epoch := epoch, uplink_rssi_dbm := rssi, peer_table := peers\<rparr> else hp))"
    using air_window_on [OF assms(1,2) True [THEN conjunct1] True [THEN conjunct2]] by blast
  then show ?thesis
    using assms(1,3) by (simp add: keepalive_window_done air_ok_def Let_def)
next
  case False
  then show ?thesis
    using assms(1,3) by (simp add: air_window_off keepalive_window_done air_ok_def)
qed

lemma air_window_on_channel:
  assumes "air_ok config" "clean_air config epoch window" "in_pool config hp" "window_done config hp"
    and "hop_index (tuned hp) = c" and "hp' = fst (air_window config pipe c window (hp, p))" and "acked window"
  shows "\<not> beacon_heard window \<or> adopted_epoch hp = epoch \<Longrightarrow>
      camped c hp' \<and> adopted_epoch hp' = adopted_epoch hp \<and> sweep_windows hp' = 0"
    and "beacon_heard window \<Longrightarrow> adopted_epoch hp \<noteq> epoch \<Longrightarrow>
      adopted_epoch hp' = epoch \<and> \<not> degrade_undo_armed hp' \<and> sweep_windows hp' = 0"
proof -
  have n: "1 < HOP_COUNT (channel_pool config)" "0 < HOP_COUNT (channel_pool config)" "HOP_COUNT (channel_pool config) < 255"
    using assms(1) by (simp_all add: air_ok_def)
  have on: "applied_index (tuned hp) = c" using assms(3,5) by (simp add: in_pool_def)
  obtain rssi peers where run: "hp' = fst (keepalive_work_fn config Ok
      (let hp = hop_note_tx_success config (fst (the window)) hp
       in if beacon_heard window then hp\<lparr>beacon_epoch := epoch, uplink_rssi_dbm := rssi, peer_table := peers\<rparr> else hp))"
    using air_window_on [OF assms(1,2) on assms(7)] unfolding assms(6) by metis
  define hp0 where "hp0 = (let hp = hop_note_tx_success config (fst (the window)) hp
       in if beacon_heard window then hp\<lparr>beacon_epoch := epoch, uplink_rssi_dbm := rssi, peer_table := peers\<rparr> else hp)"
  define hp1 where "hp1 = ensure_mask config (settle_link_state hp0)"
  have hp0: "\<not> tx_failed_since_tick hp0" "tx_succeeded_since_tick hp0" "\<not> noack_sent_since_tick hp0" "tuned hp0 = tuned hp"
    "adopted_epoch hp0 = adopted_epoch hp" "beacon_epoch hp0 = (if beacon_heard window then epoch else adopted_epoch hp)"
    "window_attempts_sum hp0 = ucast (fst (the window))" "window_packets hp0 = 1" "window_noack_packets hp0 = 0"
    using assms(4) n(1) by (auto simp: hp0_def hop_note_tx_success_def record_tx_attempts_def window_done_def Let_def)
  have acked: "link_acked (settle_link_state hp0)"
    using hp0(1-3) by (simp add: settle_link_state_def Let_def)
  then have hp1: "link_acked hp1" "tuned hp1 = tuned hp" "adopted_epoch hp1 = adopted_epoch hp"
    "beacon_epoch hp1 = (if beacon_heard window then epoch else adopted_epoch hp)"
    "window_attempts_sum hp1 = ucast (fst (the window))" "window_packets hp1 = 1" "window_noack_packets hp1 = 0"
    using hp0 by (simp_all add: hp1_def)
  have hp': "hp' = (let hp = hop_window config hp1
     in (if link_acked hp then retain_link_state hp else hp)\<lparr>data_sent_since_tick := False\<rparr>)"
    by (simp add: run hp0_def [symmetric] keepalive_hop_window [OF n(1)] hp1_def)
  show "camped c hp' \<and> adopted_epoch hp' = adopted_epoch hp \<and> sweep_windows hp' = 0" if same: "\<not> beacon_heard window \<or> adopted_epoch hp = epoch"
  proof -
    have connected: "hop_window config hp1 = fst (connected_window config Ok hp1)"
      using same hp1 by (auto simp: hop_window_def)
    have "fst (the window) \<le> HOP_POLICY_GOOD_TX_ATTEMPTS"
      using assms(2,7) by (auto simp: clean_air_def acked_def)
    then have "hop_policy_acked_window_attempts (ucast (fst (the window))) 1 0 \<le> HOP_POLICY_GOOD_TX_ATTEMPTS"
      by (simp add: few_attempts)
    then have "hop_policy_attempts_penalty (hop_policy_acked_window_attempts (window_attempts_sum hp1) (window_packets hp1)
        (window_noack_packets hp1)) HOP_POLICY_GOOD_TX_ATTEMPTS = 0"
      by (simp add: hp1 hop_policy_attempts_penalty_def)
    from connected_window_stays [OF this refl] show ?thesis
      using hp1 assms(5)
      by (simp add: hp' connected camped_def Let_def)
        (simp add: connected_window_def clear_window_attempts_def Let_def split_beta)
  qed
  show "adopted_epoch hp' = epoch \<and> \<not> degrade_undo_armed hp' \<and> sweep_windows hp' = 0"
    if "beacon_heard window" "adopted_epoch hp \<noteq> epoch"
  proof -
    have "hop_window config hp1 = fst (adopt_epoch config Ok epoch hp1)"
      using that hp1 by (simp add: hop_window_def)
    then show ?thesis
      using adopt_epoch_window [OF n(2,3) refl, of epoch hp1] by (simp add: hp' Let_def)
  qed
qed

lemma air_window_off_channel:
  assumes "air_ok config" "in_pool config hp" "window_done config hp"
    and "hop_index (tuned hp) \<noteq> c \<or> \<not> acked window" and "hp' = fst (air_window config pipe c window (hp, p))"
  shows "adopted_epoch hp' = adopted_epoch hp \<and> \<not> degrade_undo_armed hp' \<and> \<not> link_acked hp' \<and>
    unat (sweep_windows hp') = (unat (sweep_windows hp) + 1) mod ESB_HOP_SWEEP_DWELL_WINDOWS config"
    and "\<not> degrade_undo_armed hp \<Longrightarrow> unat (hop_index (tuned hp')) =
      (if (unat (sweep_windows hp) + 1) mod ESB_HOP_SWEEP_DWELL_WINDOWS config = 0
       then (unat (hop_index (tuned hp)) + 1) mod HOP_COUNT (channel_pool config) else unat (hop_index (tuned hp)))"
proof -
  have n: "1 < HOP_COUNT (channel_pool config)" "0 < HOP_COUNT (channel_pool config)" "HOP_COUNT (channel_pool config) < 255"
    and D: "ESB_HOP_SWEEP_DWELL_WINDOWS config \<le> 65536"
    using assms(1) by (simp_all add: air_ok_def)
  define hp0 where "hp0 = hop_note_tx_failed config hp"
  define hp1 where "hp1 = ensure_mask config (settle_link_state hp0)"
  have hp0: "tx_failed_since_tick hp0" "\<not> tx_succeeded_since_tick hp0" "tuned hp0 = tuned hp"
    "adopted_epoch hp0 = adopted_epoch hp" "beacon_epoch hp0 = adopted_epoch hp" "sweep_windows hp0 = sweep_windows hp"
    "degrade_undo_armed hp0 = degrade_undo_armed hp"
    using assms(3) by (simp_all add: hp0_def hop_note_tx_failed_def record_tx_attempts_def window_done_def Let_def)
  have "\<not> link_acked (settle_link_state hp0)"
    using hp0(1,2) by (simp add: settle_link_state_def Let_def)
  then have hp1: "\<not> link_acked hp1" "tuned hp1 = tuned hp" "adopted_epoch hp1 = adopted_epoch hp"
    "beacon_epoch hp1 = adopted_epoch hp1" "sweep_windows hp1 = sweep_windows hp" "degrade_undo_armed hp1 = degrade_undo_armed hp"
    and pool: "in_pool config hp1"
    using hp0 assms(2) by (simp_all add: hp1_def hp0_def)
  have lost: "hop_window config hp1 = fst (lost_window config Ok hp1)"
    using hp1 by (simp add: hop_window_def)
  note fields = lost_window_fields [OF n(2,3) pool D refl]
  have "hp' = (fst (lost_window config Ok hp1))\<lparr>data_sent_since_tick := False\<rparr>"
    using assms(2,4) fields(4) hp1(1)
    by (simp add: assms(5) air_window_off in_pool_def keepalive_hop_window [OF n(1)] hp0_def [symmetric] hp1_def [symmetric]
        lost Let_def)
  then show "adopted_epoch hp' = adopted_epoch hp \<and> \<not> degrade_undo_armed hp' \<and> \<not> link_acked hp' \<and>
      unat (sweep_windows hp') = (unat (sweep_windows hp) + 1) mod ESB_HOP_SWEEP_DWELL_WINDOWS config"
    and "\<not> degrade_undo_armed hp \<Longrightarrow> unat (hop_index (tuned hp')) =
      (if (unat (sweep_windows hp) + 1) mod ESB_HOP_SWEEP_DWELL_WINDOWS config = 0
       then (unat (hop_index (tuned hp)) + 1) mod HOP_COUNT (channel_pool config) else unat (hop_index (tuned hp)))"
    using fields hp1 by simp_all
qed

section \<open>The way back\<close>

text \<open>Steps of the sweep from index \<open>i\<close> to \<open>c\<close>.\<close>

definition sweep_steps :: "nat \<Rightarrow> nat \<Rightarrow> nat \<Rightarrow> nat" where
  "sweep_steps n c i = (if i \<le> c then c - i else n + c - i)"

lemma sweep_steps_next:
  assumes "i < n" "c < n" "i \<noteq> c"
  shows "0 < sweep_steps n c i" "sweep_steps n c i < n" "sweep_steps n c ((i + 1) mod n) = sweep_steps n c i - 1"
    "sweep_steps n c ((i + 1) mod n) = 0 \<longleftrightarrow> (i + 1) mod n = c"
  using assms by (auto simp: sweep_steps_def mod_if)

lemma sweep_steps_round: "1 < n \<Longrightarrow> c < n \<Longrightarrow> sweep_steps n c ((c + 1) mod n) = n - 1"
  by (auto simp: sweep_steps_def mod_if)

text \<open>A step back armed before the run is taken in its second window at the latest.\<close>

lemma air_window_disarms:
  assumes "air_ok config" "clean_air config epoch window" "in_pool config hp" "window_done config hp"
    and "hp' = fst (air_window config pipe c window (hp, p))"
  shows "\<not> degrade_undo_armed hp'"
proof (cases "hop_index (tuned hp) = c \<and> acked window")
  case True
  then show ?thesis
    using air_window_on_channel [OF assms(1-4) _ assms(5)] by (auto simp: camped_def)
next
  case False
  then show ?thesis
    using air_window_off_channel(1) [OF assms(1,3,4) _ assms(5)] by blast
qed

text \<open>With \<open>next_ack\<close> windows lost before the next acknowledged one, the peripheral keeps the
  central's channel: its dwell there does not run out first.\<close>

definition keeps_channel :: "hop_peripheral_config \<Rightarrow> u8 \<Rightarrow> nat \<Rightarrow> hop_peripheral \<Rightarrow> bool" where
  "keeps_channel config c next_ack hp \<longleftrightarrow> hop_index (tuned hp) = c \<and>
     unat (sweep_windows hp) + next_ack < ESB_HOP_SWEEP_DWELL_WINDOWS config"

text \<open>Windows to go at most: off the channel, or on it but about to leave it, those until the sweep
  gets there; keeping it with an old epoch, those until a beacon is heard and then a sweep from
  wherever its epoch leads.\<close>

definition windows_left :: "hop_peripheral_config \<Rightarrow> u8 \<Rightarrow> u8 \<Rightarrow> nat \<Rightarrow> nat \<Rightarrow> nat \<Rightarrow> hop_peripheral \<Rightarrow> nat" where
  "windows_left config epoch c gap next_ack wait hp =
     (let n = HOP_COUNT (channel_pool config); D = ESB_HOP_SWEEP_DWELL_WINDOWS config;
          steps = (if hop_index (tuned hp) = c then n else sweep_steps n (unat c) (unat (hop_index (tuned hp))));
          away = steps * D - unat (sweep_windows hp);
          keeps = keeps_channel config c next_ack hp
      in if adopted_epoch hp \<noteq> epoch then n * D + (if keeps then wait + 1 else gap + 1 + away)
         else if keeps then 1 else 1 + away)"

lemma windows_left_bound:
  assumes "in_pool config hp" "unat c < HOP_COUNT (channel_pool config)" "wait < gap"
  shows "windows_left config epoch c gap next_ack wait hp \<le>
    (if adopted_epoch hp \<noteq> epoch then HOP_COUNT (channel_pool config) * ESB_HOP_SWEEP_DWELL_WINDOWS config + gap else 0) +
    1 + (HOP_COUNT (channel_pool config) * ESB_HOP_SWEEP_DWELL_WINDOWS config - unat (sweep_windows hp))"
proof -
  define n where "n = HOP_COUNT (channel_pool config)"
  define D where "D = ESB_HOP_SWEEP_DWELL_WINDOWS config"
  define i where "i = unat (hop_index (tuned hp))"
  have "sweep_steps n (unat c) i \<le> n"
    using assms(1,2) by (auto simp: sweep_steps_def in_pool_def n_def i_def)
  then have "sweep_steps n (unat c) i * D \<le> n * D" by (rule mult_le_mono1)
  then have "sweep_steps n (unat c) i * D - unat (sweep_windows hp) \<le> n * D - unat (sweep_windows hp)" by linarith
  then show ?thesis
    using assms(3) unfolding windows_left_def Let_def n_def [symmetric] D_def [symmetric] i_def [symmetric]
    by (auto split: if_splits)
qed

text \<open>A window that keeps the channel: acknowledged it stays, lost it comes one closer to leaving.\<close>

lemma keeps_channel_window:
  assumes "air_ok config" "clean_air config epoch window" "in_pool config hp" "window_done config hp"
    and "keeps_channel config c next_ack hp" "\<not> degrade_undo_armed hp"
    and "if acked window then next_ack = 0 else next_ack = Suc next_ack'"
    and "next_ack' < ESB_HOP_SWEEP_DWELL_WINDOWS config"
    and "hp' = fst (air_window config pipe c window (hp, p))"
    and "\<not> beacon_heard window \<or> adopted_epoch hp = epoch"
  shows "keeps_channel config c next_ack' hp' \<and> adopted_epoch hp' = adopted_epoch hp \<and>
    (link_acked hp' \<longleftrightarrow> acked window)"
proof (cases "acked window")
  case True
  note on = air_window_on_channel(1) [OF assms(1-4) _ assms(9) True assms(10)]
  then show ?thesis
    using assms(5,8) True by (simp add: keeps_channel_def camped_def)
next
  case False
  then have "\<not> hop_index (tuned hp) = c \<or> \<not> acked window" by simp
  note lost = air_window_off_channel [OF assms(1,3,4) this assms(9)]
  have "unat (sweep_windows hp) + 1 + next_ack' < ESB_HOP_SWEEP_DWELL_WINDOWS config" "hop_index (tuned hp) = c"
    using assms(5,7) False by (simp_all add: keeps_channel_def)
  then show ?thesis
    using lost(1) lost(2) [OF assms(6)] False by (simp add: keeps_channel_def word_unat_eq_iff)
qed

lemma windows_left_decreases:
  assumes ok: "air_ok config" and clean: "clean_air config epoch window" and pool: "in_pool config hp" "window_done config hp"
    and c: "unat c < HOP_COUNT (channel_pool config)" and undo: "\<not> degrade_undo_armed hp"
    and ack: "if acked window then next_ack = 0 else next_ack = Suc next_ack'"
      "next_ack < ESB_HOP_SWEEP_DWELL_WINDOWS config" "next_ack' < ESB_HOP_SWEEP_DWELL_WINDOWS config"
    and wait: "if beacon_heard window then wait = 0 else wait = Suc wait'" "wait < gap" "wait' < gap"
    and hp': "hp' = fst (air_window config pipe c window (hp, p))"
    and unsettled: "\<not> (keeps_channel config c next_ack' hp' \<and> adopted_epoch hp' = epoch)"
  shows "windows_left config epoch c gap next_ack' wait' hp' < windows_left config epoch c gap next_ack wait hp"
proof -
  define n where "n = HOP_COUNT (channel_pool config)"
  define D where "D = ESB_HOP_SWEEP_DWELL_WINDOWS config"
  define i where "i = unat (hop_index (tuned hp))"
  define s where "s = unat (sweep_windows hp)"
  define steps where "steps = (if hop_index (tuned hp) = c then n else sweep_steps n (unat c) i)"
  have D: "2 \<le> D" "s < D" using dwell_pos pool(2) by (simp_all add: D_def s_def window_done_def)
  have n: "1 < n" "i < n" "unat c < n" using ok pool(1) c by (simp_all add: n_def i_def air_ok_def in_pool_def)
  have pool': "in_pool config hp'" using air_window_done [OF ok clean pool(1)] by (simp add: hp')
  note bound' = windows_left_bound [OF pool' c wait(3), of epoch next_ack', folded n_def D_def]
  show ?thesis
  proof (cases "keeps_channel config c next_ack hp")
    case True
    then have at: "hop_index (tuned hp) = c" by (simp add: keeps_channel_def)
    have left: "windows_left config epoch c gap next_ack wait hp = (if adopted_epoch hp \<noteq> epoch then n * D + wait + 1 else 1)"
      using True by (simp add: windows_left_def Let_def n_def D_def)
    show ?thesis
    proof (cases "\<not> beacon_heard window \<or> adopted_epoch hp = epoch")
      case same: True
      note kept = keeps_channel_window [OF ok clean pool True undo ack(1,3) hp' same]
      with unsettled have old: "adopted_epoch hp \<noteq> epoch" "\<not> beacon_heard window" using same by auto
      have "windows_left config epoch c gap next_ack' wait' hp' = n * D + wait' + 1"
        using kept old by (simp add: windows_left_def Let_def n_def D_def)
      then show ?thesis using left old wait(1) by simp
    next
      case False
      then have "acked window" by (auto intro: beacon_heard_acked)
      from air_window_on_channel(2) [OF ok clean pool at hp' this] False
      have fresh: "adopted_epoch hp' = epoch" "\<not> degrade_undo_armed hp'" "adopted_epoch hp \<noteq> epoch" "sweep_windows hp' = 0"
        by auto
      then have away: "hop_index (tuned hp') \<noteq> c" "\<not> keeps_channel config c next_ack' hp'"
        using unsettled ack(3) by (auto simp: keeps_channel_def)
      then have "sweep_steps n (unat c) (unat (hop_index (tuned hp'))) < n"
        using pool' c by (intro sweep_steps_next(2)) (auto simp: n_def in_pool_def word_unat_eq_iff)
      then have "sweep_steps n (unat c) (unat (hop_index (tuned hp'))) * D \<le> (n - 1) * D" by (intro mult_le_mono1) simp
      then have "windows_left config epoch c gap next_ack' wait' hp' \<le> 1 + (n - 1) * D"
        using fresh away by (simp add: windows_left_def Let_def n_def [symmetric] D_def [symmetric])
      moreover have "(n - 1) * D + D = n * D" using n(1) by (simp add: diff_mult_distrib)
      ultimately show ?thesis using left fresh(3) D(1) by simp
    qed
  next
    case off: False
    then have away: "\<not> hop_index (tuned hp) = c \<or> \<not> acked window" "hop_index (tuned hp) = c \<Longrightarrow> D \<le> s + next_ack"
      using ack(1) D(2) by (auto simp: keeps_channel_def s_def D_def)
    note step = air_window_off_channel [OF ok pool away(1) hp', folded n_def D_def s_def i_def]
    note index = step(2) [OF undo]
    have next_steps: "0 < steps" "sweep_steps n (unat c) ((i + 1) mod n) = steps - 1"
    proof -
      have "i = unat c \<longleftrightarrow> hop_index (tuned hp) = c" by (simp add: i_def word_unat_eq_iff)
      then show "0 < steps" "sweep_steps n (unat c) ((i + 1) mod n) = steps - 1"
        using sweep_steps_next(1,3) [OF n(2,3)] sweep_steps_round [OF n(1,3)] n(1) by (auto simp: steps_def)
    qed
    obtain before where steps: "steps = Suc before" using next_steps(1) by (cases steps) auto
    have left: "windows_left config epoch c gap next_ack wait hp =
        (if adopted_epoch hp \<noteq> epoch then n * D + gap else 0) + 1 + (before * D + (D - s))"
      unfolding windows_left_def Let_def n_def [symmetric] D_def [symmetric] i_def [symmetric] s_def [symmetric] steps_def [symmetric]
      using off D(2) by (simp add: steps add.commute add.left_commute)
    show ?thesis
    proof (cases "s + 1 = D")
      case True
      then have at: "unat (sweep_windows hp') = 0" "unat (hop_index (tuned hp')) = (i + 1) mod n"
        using step(1) index by simp_all
      have "windows_left config epoch c gap next_ack' wait' hp' \<le>
          (if adopted_epoch hp \<noteq> epoch then n * D + gap else 0) + 1 + before * D"
      proof (cases "hop_index (tuned hp') = c")
        case True
        then have "keeps_channel config c next_ack' hp'" using at ack(3) by (simp add: keeps_channel_def)
        then show ?thesis using step(1) wait(3) by (simp add: windows_left_def Let_def n_def [symmetric] D_def [symmetric])
      next
        case False
        then show ?thesis
          using step(1) at next_steps(2) steps wait(3)
          by (auto simp: windows_left_def keeps_channel_def Let_def n_def [symmetric] D_def [symmetric])
      qed
      then show ?thesis using left D by simp
    next
      case False
      then have "s + 1 < D" using D(2) by simp
      then have at: "unat (sweep_windows hp') = s + 1" "hop_index (tuned hp') = hop_index (tuned hp)"
        using step(1) index by (simp_all add: i_def word_unat_eq_iff)
      have "\<not> keeps_channel config c next_ack' hp'"
        using off at ack(1) away by (auto simp: keeps_channel_def s_def D_def split: if_splits)
      then have "windows_left config epoch c gap next_ack' wait' hp' =
          (if adopted_epoch hp \<noteq> epoch then n * D + gap else 0) + 1 + (before * D + (D - (s + 1)))"
        unfolding windows_left_def Let_def at n_def [symmetric] D_def [symmetric] i_def [symmetric] steps_def [symmetric]
        using step(1) \<open>s + 1 < D\<close> by (simp add: steps add.commute add.left_commute)
      then show ?thesis using left \<open>s + 1 < D\<close> by simp
    qed
  qed
qed

lemma descends:
  fixes f :: "nat \<Rightarrow> nat"
  assumes "\<And>k. m \<le> k \<Longrightarrow> \<not> Q (Suc k) \<Longrightarrow> f (Suc k) < f k" and "\<And>k. m \<le> k \<Longrightarrow> Q k \<Longrightarrow> Q (Suc k)"
    and "m + Suc (f m) \<le> k"
  shows "Q k"
proof -
  have stable: "m \<le> j \<Longrightarrow> Q j \<Longrightarrow> Q (j + d)" for j d
    by (induction d) (auto intro: assms(2))
  have reach: "m \<le> j \<Longrightarrow> f j \<le> d \<Longrightarrow> Q (j + Suc d)" for j d
  proof (induction d arbitrary: j)
    case 0
    then show ?case using assms(1) [of j] by auto
  next
    case (Suc d)
    show ?case
    proof (cases "Q (Suc j)")
      case True
      then show ?thesis using stable [of "Suc j" "Suc d"] Suc.prems by simp
    next
      case False
      then show ?thesis using assms(1) [of j] Suc.IH [of "Suc j"] Suc.prems by simp
    qed
  qed
  have "Q (m + Suc (f m) + (k - (m + Suc (f m))))"
    by (rule stable) (use reach [of m "f m"] in simp_all)
  then show ?thesis using assms(3) by simp
qed

text \<open>What comes at least every \<open>gap\<close> windows: the distance to the next one.\<close>

lemma next_one:
  fixes windows :: "nat \<Rightarrow> air"
  assumes "\<forall>k. \<exists>d < gap. P (windows (k + d))"
  defines "wait k \<equiv> LEAST d. P (windows (k + d))"
  shows "wait k < gap" "if P (windows k) then wait k = 0 else wait k = Suc (wait (Suc k))"
proof -
  have some: "\<exists>d < gap. P (windows (k + d))" for k using assms(1) by blast
  then obtain d where d: "d < gap" "P (windows (k + d))" by blast
  show "wait k < gap"
    unfolding wait_def by (rule le_less_trans [OF Least_le d(1)]) (rule d(2))
  show "if P (windows k) then wait k = 0 else wait k = Suc (wait (Suc k))"
  proof (cases "P (windows k)")
    case False
    then show ?thesis
      using Least_Suc [of "\<lambda>d. P (windows (k + d))" d] d(2) by (simp add: wait_def)
  qed (simp add: wait_def Least_eq_0)
qed

text \<open>The windows the central gives: an acknowledged keepalive takes few attempts, and what comes
  back is a beacon the central staged.\<close>

definition central_air :: "hop_central_config \<Rightarrow> hop_central \<Rightarrow> nat \<Rightarrow> (nat \<Rightarrow> air) \<Rightarrow> bool" where
  "central_air config hc pipe windows \<longleftrightarrow> (\<forall>k attempts packet. windows k = Some (attempts, packet) \<longrightarrow>
     attempts \<le> HOP_POLICY_GOOD_TX_ATTEMPTS \<and>
     (\<forall>data. packet = Some data \<longrightarrow> (\<exists>battery modifiers indicators.
        hop_stage_beacon config battery pipe modifiers indicators hc = Inr (Latch_control pipe Control_beacon data))))"

lemma central_air_clean:
  assumes "central_air config hc pipe windows" "channel_pool pconfig = Hop_Central.pool config"
    and "beacon_peer_count (Hop_Central.pool config) = PERIPHERAL_COUNT config"
  shows "clean_air pconfig (hop_epoch hc) (windows k)"
proof -
  have "beacon_of pconfig (hop_epoch hc) data"
    if staged: "hop_stage_beacon config battery pipe modifiers indicators hc = Inr (Latch_control pipe Control_beacon data)"
    for battery modifiers indicators data
  proof -
    have "data = beacon_bytes (staged_beacon config battery modifiers indicators hc)"
      using staged by (auto simp: hop_stage_beacon_def Let_def split: if_splits)
    moreover have "length (beacon_peers (staged_beacon config battery modifiers indicators hc)) = beacon_peer_count (channel_pool pconfig)"
      using assms(2,3) by (simp add: staged_beacon_def)
    ultimately show ?thesis
      unfolding beacon_of_def by (intro exI [of _ "staged_beacon config battery modifiers indicators hc"]) (simp add: staged_beacon_def)
  qed
  then show ?thesis
    using assms(1) unfolding central_air_def clean_air_def by (auto split: option.splits prod.splits) blast+
qed


text \<open>A pool of eight channels: the central fresh on the first, a peripheral left on the sixth with
  an epoch of its own.\<close>

definition rejoin_config :: hop_peripheral_config where
  "rejoin_config = hop_peripheral_config_example\<lparr>channel_pool := Hop_Central.pool hop_config_example\<rparr>"

definition stray_example :: hop_peripheral where
  "stray_example = (hop_peripheral_boot rejoin_config blank_retained)
     \<lparr>tuned := \<lparr>hop_index = 5, applied_index = 5\<rparr>, adopted_epoch := 77, beacon_epoch := 77\<rparr>"

definition rejoin_beacon :: bytes where
  "rejoin_beacon = beacon_bytes (staged_beacon hop_config_example (\<lambda>_. 50) 0 0 (hop_central_boot hop_config_example))"

text \<open>Every third keepalive lost, the last one among them.\<close>

definition rejoin_windows :: "nat \<Rightarrow> air" where
  "rejoin_windows k = (if k mod 3 = 2 then None else Some (1, Some rejoin_beacon))"

lemma rejoin_windows_heard: "\<exists>d < 3. beacon_heard (rejoin_windows (k + d))"
proof (cases "k mod 3 = 2")
  case True
  then have "(k + 1) mod 3 \<noteq> 2" by presburger
  then show ?thesis by (intro exI [of _ 1]) (simp add: rejoin_windows_def beacon_heard_def acked_def)
next
  case False
  then show ?thesis by (intro exI [of _ 0]) (simp add: rejoin_windows_def beacon_heard_def acked_def)
qed


end
