(* ===== verification/Spec2Isabelle.thy ===== *)
theory Spec2Isabelle
  imports Wire_Path Central Esb_Peripheral Hop_Central Hop_Peripheral Relay_Central Relay_Sink Link_Peripheral Relay_Usb Esb_Stats Wire_Transports Hid_State Survey Link_Bounds Relay_Path Sleep System Hid_Path Motion_Path Sensor_Path Keyboard Rejoin
begin

text \<open>
  Verification of the ESB split transport for ZMK.

  The module carries a split keyboard's traffic between peripherals and one central, over Nordic's
  Enhanced ShockBurst radio or over a UART. A peripheral batches input events, answers loss with
  keepalives that restate its whole state (held positions, held input keys, motion and sensor
  totals) and follows the central's frequency hops; the central rebuilds what ZMK must see, drives
  the hopping and talks back on the radio's ACKs; a relay dongle turns reports into USB traffic.
  All file names below are under \<open>src/\<close>.

  \<^bold>\<open>Shared.\<close> \<open>Prelude\<close> has the word types, the little-endian accessors, status values and
  list lemmas (collection \<open>table_simps\<close>). \<open>Bit_Table\<close> is the locale of the
  packed bit tables (position bitmap, channel mask), \<open>Delta_Track\<close> the locale of a receiver that
  turns running totals into deltas (motion, sensors, relay pointer), \<open>Latch\<close> the latest-value
  latch (\<open>spsc_latch.c\<close>) with the locale \<open>latest_value\<close>. Each locale is interpreted on the code's model in
  the theory that provides it.

  \<^bold>\<open>Wire.\<close> \<open>Cobs\<close> (\<open>cobs.c\<close>), \<open>Wire_Frame\<close> (\<open>wire_frame.c\<close>),
  \<open>Wire_Link\<close> (\<open>wire_link.c\<close>: rings, UART interrupt, senders) and \<open>Wire_Transports\<close>
  (\<open>wire_central.c\<close>, \<open>wire_peripheral.c\<close>, \<open>wire_relay.c\<close>). The lemmas go from the codec to
  the frame parser, from there to the stream on the line in every interleaving, and in
  \<open>Wire_Path\<close> from one end's queues to the other end's subscription.

  \<^bold>\<open>Packets.\<close> \<open>Esb_Wire\<close> (\<open>esb_wire.c\<close>), \<open>Keepalive\<close> (\<open>esb_keepalive.c\<close>),
  \<open>Motion_Total\<close> (\<open>esb_motion_total.h\<close>), \<open>Sensor_Sync\<close> (\<open>esb_sensor_sync.c\<close>) and
  \<open>Batch\<close> (\<open>esb_batch.c\<close>): layouts, accessors, round trips, and that totals lose no motion.

  \<^bold>\<open>The two roles.\<close> \<open>Central_Input\<close> (\<open>central_input.c\<close>) and \<open>Central\<close>
  (\<open>central.c\<close>): what ZMK is told of keys, positions, sensors and batteries, with the invariants that keys
  alternate and that a keepalive or the staleness tick brings the host to the truth; \<open>Keyboard\<close> is the
  abstract keyboard that this key handling refines.
  \<open>Peripheral\<close> (\<open>peripheral.c\<close>, \<open>peripheral_input.c\<close>) and \<open>Esb_Peripheral\<close>
  (\<open>esb_peripheral.c\<close>): what a peripheral remembers and sends.

  \<^bold>\<open>Hopping.\<close> \<open>Hop_Policy\<close> (\<open>hop_policy.c\<close>, pure decisions), \<open>Hop\<close>
  (\<open>hop.c\<close>, \<open>hop_internal.h\<close>), \<open>Hop_Central\<close> (\<open>hop_central.c\<close>) and
  \<open>Hop_Peripheral\<close> (\<open>hop_peripheral.c\<close>), \<open>Survey\<close> (\<open>esb_survey.c\<close>) and
  \<open>Hid_State\<close> (\<open>hid_state_central.c\<close>, whose state rides the beacons). Invariants of the
  channel masks over an inductive reachability relation, the walk off a silent channel, the sweep
  of a peripheral that lost the central, the retained state.

  \<^bold>\<open>Radio link.\<close> \<open>Esb_Link\<close> (\<open>esb_link.c\<close>, \<open>esb_link_hfclk.c\<close>: events, receive
  ring, boot, crystal), \<open>Link_Central\<close> and \<open>Link_Bounds\<close> (\<open>esb_link_central.c\<close>: replies,
  latches, ACK payloads, as a step relation of threads and interrupts), \<open>Link_Peripheral\<close>
  (\<open>esb_link_peripheral.c\<close>, \<open>esb_sleep.c\<close>, \<open>esb_config.c\<close>: settings, crystal gate, send
  path, restarts) and \<open>Esb_Stats\<close> (\<open>esb_stats.c\<close>).

  \<^bold>\<open>HID relay.\<close> \<open>Relay_Pointer\<close> (\<open>esb_hid_relay_pointer.c\<close>), \<open>Relay_Central\<close>
  (\<open>esb_hid_relay_central.c\<close>), \<open>Relay_Sink\<close> (\<open>esb_hid_relay_peripheral.c\<close>) and
  \<open>Relay_Usb\<close> (\<open>esb_hid_relay_usb.c\<close>). \<open>Relay_Path\<close> follows reports from
  the central's reply queue through the radio's payloads to the dongle's sink.

  \<^bold>\<open>Composition.\<close> \<open>Device\<close> gives each role's modules to the shared link as the
  functions of \<open>esb_link_internal.h\<close> and \<open>hop.h\<close>, with the locale \<open>works\<close> of what
  bringing the link up and down relies on. \<open>Sleep\<close> drives a peripheral's link by the
  activity listener: asleep, nothing is scheduled and the crystal is off. \<open>Hid_Path\<close> follows the HID
  state from the central to a keymap on a peripheral, \<open>Motion_Path\<close> and \<open>Sensor_Path\<close>
  pointer motion and encoder rotation from a peripheral over a lossy link to the host, and
  \<open>Rejoin\<close> a peripheral out of touch with the central, in any state, back to its channel and epoch. \<open>System\<close> and this theory: events from a peripheral's batch to the
  central's input handling, a keepalive from a peripheral's key history to the central's tracked
  positions, and a hop from the central's mask and beacon to the channel of a peripheral.

  \<^bold>\<open>How the code is read.\<close> A module's static variables are a record, each function a
  definition that takes and returns it; C arrays are lists with the out-of-range case written out
  where the code tests it. Integers keep their width as words; a count that the code bounds
  before it can wrap is a \<open>nat\<close>. Errors are values (\<open>status\<close>, or a sum). Atomics and
  message queues are their sequential effect, one step per atomic operation where a claim is about
  interleaving (\<open>Wire_Link\<close>, \<open>Latch\<close>, \<open>Esb_Link\<close>, \<open>Link_Central\<close>, \<open>Hop_Central\<close>).
  Devicetree and Kconfig values are configuration records, their build assertions predicates
  (\<open>pool_ok\<close>, \<open>hid_ok\<close>, \<open>abi_ok\<close>). Nordic's radio library, Zephyr's drivers and ZMK
  are parameters: functions on an arbitrary state, or the values a call answers.

  \<^bold>\<open>Bounds and fuel.\<close> Loops are structural or have a measure; the wait for the crystal is a
  \<open>partial_function\<close>, and that it returns is proved from an answering clock. Nothing uses
  fuel. Hypotheses of sizes (eight pipes, 255 channels, a ring's capacity) are the build's own.

  \<^bold>\<open>Not modelled.\<close> Log lines; registration macros (\<open>SYS_INIT\<close>, listeners, driver tables;
  \<open>esb_log.c\<close> and \<open>esb_peripheral_changed.c\<close> are nothing else); the counters of
  \<open>esb_stats.c\<close> at their callers, which never feed back; radio registers and USB hardware; mutexes,
  whose critical sections are single steps. The build modelled has the relay pointer and hopping
  on; a build without them is a configuration with no relay pipe and one channel.
\<close>

section \<open>From a key to the host: events\<close>

text \<open>
  Claim C3: the input events a peripheral reports, batched into packets and ingested by the
  central whenever they arrive, are delivered to ZMK's input handling there as exactly the
  events reported, each once and in the order reported, less the open report the batch still
  holds.
\<close>

theorem input_events_reach_central:
  assumes "abi_ok abi" and "2 \<le> ESB_BATCH_MAX max_bytes"
    and "\<forall>(event, ack) \<in> set reports. is_Input_event event"
    and "batch_run abi max_bytes reports batch_boot = (left, sends)" and "length arrivals = length sends"
  shows "\<exists>stamped. map snd stamped @ batch_events left = map fst reports \<and>
    ingest_packets abi config pipe (zip arrivals (map fst sends)) c = deliver_inputs pipe stamped c"
proof -
  have "batch_ok max_bytes batch_boot"
    using assms(2) by (simp add: batch_ok_def batch_boot_def)
  from batch_run_spec [OF assms(1) this assms(2-4)]
  have order: "packet_events abi sends @ batch_events left = map fst reports"
    and tags: "\<forall>(wire, acked) \<in> set sends. wire \<noteq> [] \<and> hd wire = input_tag abi"
    by (auto simp: batch_boot_def)
  have "set (packet_events abi sends) \<subseteq> set (map fst reports)"
    unfolding order [symmetric] by simp
  then have "\<forall>event \<in> set (packet_events abi sends). is_Input_event event"
    using assms(3) by force
  from ingest_packets_deliver [OF assms(1,5) tags this] order show ?thesis by metis
qed

theorem input_events_reach_central_witness:
  "\<exists>left sends stamped. batch_run abi_example 32 [(Input_event 0 1 2 1 7, False), (Input_event 0 0 2 0 9, False)] batch_boot =
      (left, sends) \<and> map snd stamped @ batch_events left = [Input_event 0 1 2 1 7, Input_event 0 0 2 0 9] \<and>
    ingest_packets abi_example central_config_example 1 (zip [5] (map fst sends)) central_example =
      deliver_inputs 1 stamped central_example"
proof -
  obtain left sends where run: "batch_run abi_example 32 [(Input_event 0 1 2 1 7, False), (Input_event 0 0 2 0 9, False)] batch_boot =
      (left, sends)" by fastforce
  have max: "ESB_BATCH_MAX 32 = 3"
    by (simp add: ESB_BATCH_MAX_def ESB_WIRE_INPUT_EVENT_SIZE_def)
  have "length [5 :: u32] = length sends"
    using run by (auto simp: esb_batch_report_event_def batch_flush_due_def esb_batch_flush_def batch_boot_def max
        ESB_WIRE_INPUT_SYNC_def INPUT_EV_KEY_def)
  from input_events_reach_central [OF abi_example_ok _ _ run this, of central_config_example 1 central_example]
  show ?thesis using run max by auto
qed

section \<open>From a key to the host: lost events\<close>

text \<open>
  Claim C4: whatever key events a peripheral saw and however many of them never reached the
  central, the first keepalive that gets through makes the positions ZMK holds down for that
  pipe exactly those held down on the peripheral, whatever was still queued before it.
\<close>

theorem keepalive_heals_lost_events:
  assumes "p = peripheral_events abi wire_size events (peripheral_boot pconfig keys_max)" and "keys_max < 256"
    and "keepalive = peripheral_keepalive_fill pconfig state_of_charge room state link_cost motion_totals p"
    and "keepalive \<noteq> []" and "length motion_totals < 256" and "length keepalive \<le> min 255 (central_config.max_payload config)"
    and "tracks_ok c" and "pipe < ESB_LINK_PIPE_MAX" and "length (central_event_msgq c) < event_queue_size config"
    and "central_ingest_packet abi config now pipe keepalive c = (c1, calls1)"
    and "central_event_work_fn config c1 = (c2, calls2)"
  shows "pressed_set (tracked_positions c2 pipe) = keys_down events {} \<and>
    key_edges pipe calls2 (pressed_set (tracked_positions c pipe)) = Some (keys_down events {})"
proof -
  have p: "peripheral_ok p" "pressed_set (pressed_positions p) = keys_down events {}"
    using peripheral_events_keys [of "peripheral_boot pconfig keys_max" abi wire_size events]
      peripheral_boot_ok [OF assms(2), of pconfig] assms(1) by simp_all
  note k = keepalive_of_peripheral [OF p(1) assms(5,3,4)]
  have c1: "tracked_positions c1 = tracked_positions c"
    "central_event_msgq c1 = central_event_msgq c @ [Inbound_keepalive pipe keepalive]"
    using assms(6,9,10) k
    by (auto simp: central_ingest_packet_def esb_is_host_indicators_def ESB_HOST_INDICATORS_LENGTH_def
        central_enqueue_def split_beta Let_def)
  obtain c3 before where q: "central_handle_all config (central_event_msgq c) (c1\<lparr>central_event_msgq := []\<rparr>) = (c3, before)"
    by fastforce
  obtain last_calls where l: "central_handle_inbound config (Inbound_keepalive pipe keepalive) c3 = (c2, last_calls)"
    "calls2 = before @ last_calls"
    using assms(11) q by (auto simp: central_event_work_fn_def c1(2) central_handle_all_append split: prod.splits)
  have "tracks_ok (c1\<lparr>central_event_msgq := []\<rparr>)"
    using assms(7) c1(1) by (simp add: tracks_ok_def)
  note e = central_handle_all_edges [OF q this assms(8)]
  have "pressed_set (tracked_positions c2 pipe) = keys_down events {}"
    using keepalive_pressed [OF l(1) _ assms(8)] e k p(2) by simp
  moreover have "key_edges pipe last_calls (pressed_set (tracked_positions c3 pipe)) = Some (pressed_set (tracked_positions c2 pipe))"
    using central_handle_inbound_edges [OF l(1) _ assms(8)] e by simp
  ultimately show ?thesis
    using e c1(1) by (simp add: l(2) key_edges_append)
qed

text \<open>A press that got lost: the peripheral holds position 3, the central knows of none.\<close>

theorem keepalive_heals_lost_events_witness:
  "pressed_set (tracked_positions (fst (central_event_work_fn central_config_example (fst (central_ingest_packet abi_example
     central_config_example 100 2 (peripheral_keepalive_fill peripheral_config_example 80 64 0 0 []
       (peripheral_events abi_example 32 [Key_position 3 True] (peripheral_boot peripheral_config_example 6)))
     central_example)))) 2) = {3}"
proof -
  define p where "p = peripheral_events abi_example 32 [Key_position 3 True] (peripheral_boot peripheral_config_example 6)"
  define keepalive where "keepalive = peripheral_keepalive_fill peripheral_config_example 80 64 0 0 [] p"
  obtain c1 calls1 where c1: "central_ingest_packet abi_example central_config_example 100 2 keepalive central_example = (c1, calls1)"
    by fastforce
  obtain c2 calls2 where c2: "central_event_work_fn central_config_example c1 = (c2, calls2)"
    by fastforce
  have "length keepalive = 14"
    by (simp add: keepalive_def p_def peripheral_events_def peripheral_boot_def peripheral_config_example_def
        peripheral_keepalive_fill_def esb_keepalive_encode_def peripheral_snapshot_def keepalive_layout
        peripheral_encode_event_def peripheral_note_key_event_def esb_keepalive_bitmap_set_def
        encode_held_keys_def encode_motion_totals_def peripheral_input_held_keys_def peripheral_input_note_event_def
        Let_def split_beta)
  then have "keepalive \<noteq> []" "length keepalive \<le> min 255 (central_config.max_payload central_config_example)"
    by (auto simp: central_config_example_def)
  from keepalive_heals_lost_events [OF p_def _ keepalive_def this(1) _ this(2) central_example_tracks _ _ c1 c2]
  have "pressed_set (tracked_positions c2 2) = {3}"
    by (simp add: ESB_LINK_PIPE_MAX_def keepalive_layout central_example_def central_boot_def central_config_example_def)
  then show ?thesis
    by (simp add: p_def [symmetric] keepalive_def [symmetric] c1 c2)
qed

section \<open>Hopping together\<close>

text \<open>
  Claim C10: when the central hops, a peripheral that heard the mask update sent before the hop
  and a beacon sent after it tunes, at its next window, to the channel the central is on, with
  the central's mask, and holds the HID state of the beacon.
\<close>

theorem hop_epoch_agreement:
  assumes "hop_config_ok config" and "hop_central_reachable config hc" and "channel_pool pconfig = Hop_Central.pool config"
    and "1 < HOP_COUNT (Hop_Central.pool config)" and "beacon_peer_count (Hop_Central.pool config) = PERIPHERAL_COUNT config"
    and "latch_ok (staged_mask hp)"
    and "stage_mask_update config world hc = (hc1, updates)" and "Latch_control pipe Control_mask update \<in> set updates"
    and "hop_to_next_epoch config set_error hc1 = (hc2, retunes)"
    and "hop_stage_beacon config battery pipe modifiers indicators hc2 = Inr (Latch_control pipe Control_beacon beacon)"
    and "Hop_Peripheral.hop_consume_rx pconfig heard_on update hp p = (hp1, p1, consumed1)"
    and "Hop_Peripheral.hop_consume_rx pconfig heard_on beacon hp1 p1 = (hp2, p2, consumed2)"
    and "adopted_epoch hp \<noteq> hop_epoch hc2" and "keepalive_work_fn pconfig tune_error hp2 = (hp3, link_calls)"
  shows "hop_index (Hop_Peripheral.tuned hp3) = hop_index (Hop_Central.tuned hc2) \<and>
    Hop_Peripheral.active_mask hp3 = Hop_Central.active_mask hc2 \<and>
    zmk_split_esb_hid_modifiers p2 = modifiers \<and> zmk_split_esb_hid_indicators p2 = indicators"
proof -
  define sent where "sent = (if pending_valid hc then pending_mask hc else Hop_Central.active_mask hc)"
  have inv: "mask_lengths (Hop_Central.pool config) hc"
    using reachable_inv [OF assms(1,2)] by (simp add: hop_inv_def masks_ok_def)
  then have len: "length sent = ESB_HOP_MASK_BYTES (channel_pool pconfig)"
    by (simp add: sent_def mask_lengths_def assms(3))
  have pool_wf: "pool_ok (channel_pool pconfig)" "beacon_peer_count (channel_pool pconfig) \<le> 8"
    using assms(1,3,5) by (simp_all add: hop_config_ok_def)
  have update: "update = esb_mask_update (channel_pool pconfig) sent"
    "pending_valid hc1 = pending_valid hc" "pending_mask hc1 = pending_mask hc"
    "Hop_Central.active_mask hc1 = Hop_Central.active_mask hc"
    using assms(3,7,8) by (auto simp: stage_mask_update_def sent_def Let_def split: prod.splits if_splits)
  have hc2: "Hop_Central.active_mask hc2 = sent"
    "hop_index (Hop_Central.tuned hc2) =
      hop_policy_channel_for_epoch_masked (ucast (hop_epoch hc2)) sent (HOP_COUNT (channel_pool pconfig))"
    using assms(3,9) update(2-4) apply_hop_channel_index
    by (auto simp: hop_to_next_epoch_def commit_pending_mask_def clear_pipe_loss_def sent_def Let_def split_beta)
  have hp1: "hp1 = hp\<lparr>staged_mask := latch_stage sent (staged_mask hp)\<rparr>" "p1 = p"
    using assms(11) mask_packet_consumed [OF pool_wf(1) _ len] assms(3,4) update(1) by simp_all
  have beacon: "beacon = beacon_bytes (staged_beacon config battery modifiers indicators hc2)"
    using assms(10) by (auto simp: hop_stage_beacon_def Let_def split: if_splits)
  have "length (beacon_peers (staged_beacon config battery modifiers indicators hc2)) = beacon_peer_count (channel_pool pconfig)"
    by (simp add: staged_beacon_def assms(3,5))
  note b = beacon_packet_consumed [OF this pool_wf(2) assms(12) [unfolded beacon]]
  have hp2: "beacon_epoch hp2 = hop_epoch hc2" "adopted_epoch hp2 = adopted_epoch hp"
    "staged_mask hp2 = latch_stage sent (staged_mask hp)" "p2 = peripheral_hid_state_store modifiers indicators p"
    using b hp1 by (simp_all add: staged_beacon_def)
  have "1 < HOP_COUNT (channel_pool pconfig)" "beacon_epoch hp2 \<noteq> adopted_epoch hp2"
    using assms(3,4,13) hp2 by simp_all
  note adopted = adopt_new_epoch [OF this, unfolded hp2(3) pending_stage [OF assms(6)], OF refl, of tune_error]
  show ?thesis
    using adopted assms(14) hc2 hp2 peripheral_hid_state_roundtrip by simp
qed

text \<open>A central of eight channels that masked two of them at boot, and a peripheral fresh from
  boot.\<close>

definition hopping_central :: hop_central where
  "hopping_central = hop_boot_mask hop_config_example [-40, -90, -30, -20, -90, -90, -90, -50] (hop_central_boot hop_config_example)"

definition hopping_world :: hop_world where
  "hopping_world = hop_world_example\<lparr>uptime := 100\<rparr>"

definition hopping_config :: hop_peripheral_config where
  "hopping_config = hop_peripheral_config_example\<lparr>channel_pool := Hop_Central.pool hop_config_example\<rparr>"

definition hopping_peripheral :: hop_peripheral where
  "hopping_peripheral = hop_peripheral_boot hopping_config blank_retained"

lemma hopping_staged:
  "Latch_control 0 Control_mask (esb_mask_update (Hop_Central.pool hop_config_example) (Hop_Central.active_mask hopping_central))
     \<in> set (snd (stage_mask_update hop_config_example hopping_world hopping_central))"
  "hop_epoch (fst (hop_to_next_epoch hop_config_example Ok
     (fst (stage_mask_update hop_config_example hopping_world hopping_central)))) = 2"
  by code_simp+

theorem hop_epoch_agreement_witness:
  "\<exists>update beacon. hop_index (Hop_Peripheral.tuned (fst (keepalive_work_fn hopping_config Ok (fst (Hop_Peripheral.hop_consume_rx
       hopping_config 0 beacon (fst (Hop_Peripheral.hop_consume_rx hopping_config 0 update hopping_peripheral
         (peripheral_boot peripheral_config_example 6))) (peripheral_boot peripheral_config_example 6)))))) =
     hop_index (Hop_Central.tuned (fst (hop_to_next_epoch hop_config_example Ok
       (fst (stage_mask_update hop_config_example hopping_world hopping_central)))))"
proof -
  define p where "p = peripheral_boot peripheral_config_example 6"
  define update where "update = esb_mask_update (Hop_Central.pool hop_config_example) (Hop_Central.active_mask hopping_central)"
  obtain hc1 updates where s: "stage_mask_update hop_config_example hopping_world hopping_central = (hc1, updates)" by fastforce
  obtain hc2 retunes where h: "hop_to_next_epoch hop_config_example Ok hc1 = (hc2, retunes)" by fastforce
  define beacon where "beacon = beacon_bytes (staged_beacon hop_config_example (\<lambda>_. 50) 0 0 hc2)"
  obtain hp1 p1 consumed1 where r1: "Hop_Peripheral.hop_consume_rx hopping_config 0 update hopping_peripheral p = (hp1, p1, consumed1)"
    by (metis prod_cases3)
  obtain hp2 p2 consumed2 where r2: "Hop_Peripheral.hop_consume_rx hopping_config 0 beacon hp1 p1 = (hp2, p2, consumed2)"
    by (metis prod_cases3)
  obtain hp3 link_calls where w: "keepalive_work_fn hopping_config Ok hp2 = (hp3, link_calls)" by fastforce
  have reach: "hop_central_reachable hop_config_example hopping_central"
    unfolding hopping_central_def by (intro boot_mask boot)
  have staged: "Latch_control 0 Control_mask update \<in> set updates" "hop_epoch hc2 = 2"
    using hopping_staged unfolding s update_def by (simp_all add: h)
  have beacon: "hop_stage_beacon hop_config_example (\<lambda>_. 50) 0 0 0 hc2 = Inr (Latch_control 0 Control_beacon beacon)"
    by (simp add: hop_stage_beacon_def beacon_def hop_config_example_def PERIPHERAL_COUNT_def wire_owns_def Let_def)
  have config: "channel_pool hopping_config = Hop_Central.pool hop_config_example"
    "1 < HOP_COUNT (Hop_Central.pool hop_config_example)"
    "beacon_peer_count (Hop_Central.pool hop_config_example) = PERIPHERAL_COUNT hop_config_example"
    by (simp_all add: hopping_config_def hop_config_example_def HOP_COUNT_def PERIPHERAL_COUNT_def)
  have "latch_ok (staged_mask hopping_peripheral)" "adopted_epoch hopping_peripheral \<noteq> hop_epoch hc2"
    using latch_ok_new [of STAGED_MASK_SLOTS] staged(2)
    by (simp_all add: hopping_peripheral_def hop_peripheral_boot_def STAGED_MASK_SLOTS_def Let_def)
  from hop_epoch_agreement [OF hop_config_example_ok reach config this(1) s staged(1) h beacon r1 r2 this(2) w]
  have same: "hop_index (Hop_Peripheral.tuned hp3) = hop_index (Hop_Central.tuned hc2)" by simp
  have "pool_ok (channel_pool hopping_config)"
    using hop_config_example_ok by (simp add: config(1) hop_config_ok_def)
  moreover have "length (Hop_Central.active_mask hopping_central) = ESB_HOP_MASK_BYTES (channel_pool hopping_config)"
    using reachable_inv [OF hop_config_example_ok reach] by (simp add: config(1) hop_inv_def masks_ok_def mask_lengths_def)
  ultimately have "p1 = p"
    using r1 mask_packet_consumed [of hopping_config "Hop_Central.active_mask hopping_central" 0 hopping_peripheral p] config(2)
    by (simp add: update_def config(1) [symmetric])
  note second = r2 [unfolded this]
  show ?thesis
    by (rule exI [of _ update], rule exI [of _ beacon]) (simp add: p_def [symmetric] s h r1 second w same)
qed

end
